(* ===== verification/RML_Prelude.thy ===== *)
theory RML_Prelude
  imports Main "HOL-Library.Word"
begin

text \<open>
  Shared vocabulary of the development: the machine types of the build
  (gcc \<^verbatim>\<open>-m16 -march=i386\<close>: \<open>int\<close>, \<open>long\<close> and pointers have 32 bits, \<open>short\<close> 16, \<open>char\<close> is a
  signed byte), the outcomes of C code that may go wrong or may not return, byte buffers, and
  the little-endian layout of multi-byte fields.
\<close>

unbundle bit_operations_syntax

type_synonym byte = "8 word"
type_synonym u16 = "16 word"
type_synonym u32 = "32 word"

section \<open>Outcomes\<close>

text \<open>
  A buffer access outside its object is a \<open>fault\<close> with the kind of access; so is a division by
  zero, which traps.  Code without an unbounded loop has type \<open>'a res\<close>.  Code whose loop may never
  end, or that waits for a key that never comes, has type \<open>'a run\<close>, and \<open>None\<close> says that it does
  not return.
\<close>

datatype fault = ReadPast | WritePast | DivByZero

type_synonym 'a res = "fault + 'a"
type_synonym 'a run = "'a res option"

definition rbind :: "'a res \<Rightarrow> ('a \<Rightarrow> 'b res) \<Rightarrow> 'b res" where
  "rbind m f = (case m of Inl e \<Rightarrow> Inl e | Inr x \<Rightarrow> f x)"

definition obind :: "'a run \<Rightarrow> ('a \<Rightarrow> 'b run) \<Rightarrow> 'b run" where
  "obind m f = Option.bind m (\<lambda>r. case r of Inl e \<Rightarrow> Some (Inl e) | Inr x \<Rightarrow> f x)"

abbreviation ret :: "'a \<Rightarrow> 'a run" where
  "ret x \<equiv> Some (Inr x)"

named_theorems outcome_simps "evaluation of the outcome combinators"

lemma rbind_simps [simp, outcome_simps]:
  "rbind (Inl e) f = Inl e"
  "rbind (Inr x) f = f x"
  by (simp_all add: rbind_def)

lemma obind_simps [simp, outcome_simps]:
  "obind None f = None"
  "obind (Some (Inl e)) f = Some (Inl e)"
  "obind (Some (Inr x)) f = f x"
  by (simp_all add: obind_def)

lemma rbind_Inr_iff: "rbind m f = Inr y \<longleftrightarrow> (\<exists>x. m = Inr x \<and> f x = Inr y)"
  by (cases m) auto

lemma obind_ret_iff: "obind m f = ret y \<longleftrightarrow> (\<exists>x. m = ret x \<and> f x = ret y)"
  by (cases m) (auto simp: obind_def split: sum.splits)

lemma rbind_InrE [elim]:
  assumes "rbind m f = Inr y"
  obtains x where "m = Inr x" and "f x = Inr y"
  using assms by (auto simp: rbind_Inr_iff)

lemma obind_retE [elim]:
  assumes "obind m f = ret y"
  obtains x where "m = ret x" and "f x = ret y"
  using assms by (auto simp: obind_ret_iff)

lemma obind_assoc: "obind (obind m f) g = obind m (\<lambda>x. obind (f x) g)"
  by (cases m) (auto simp: obind_def split: sum.splits)

lemma rbind_cong [fundef_cong]:
  "m = m' \<Longrightarrow> (\<And>x. m' = Inr x \<Longrightarrow> f x = g x) \<Longrightarrow> rbind m f = rbind m' g"
  by (cases m') auto

lemma obind_cong [fundef_cong]:
  "m = m' \<Longrightarrow> (\<And>x. m' = ret x \<Longrightarrow> f x = g x) \<Longrightarrow> obind m f = obind m' g"
  by (cases m') (auto simp: obind_def split: sum.splits)

text \<open>Postconditions of the two kinds of outcome: what holds of the value, when there is one.\<close>

definition delivers :: "('a \<Rightarrow> bool) \<Rightarrow> 'a res \<Rightarrow> bool" where
  "delivers Q m \<longleftrightarrow> (\<forall>x. m = Inr x \<longrightarrow> Q x)"

definition yields :: "('a \<Rightarrow> bool) \<Rightarrow> 'a run \<Rightarrow> bool" where
  "yields Q m \<longleftrightarrow> (\<forall>x. m = ret x \<longrightarrow> Q x)"

lemma delivers_simps [simp]: "delivers Q (Inl f)" "delivers Q (Inr x) = Q x"
  by (simp_all add: delivers_def)

lemma yields_simps [simp]: "yields Q None" "yields Q (Some r) = delivers Q r"
  by (simp_all add: yields_def delivers_def)

lemma delivers_rbind: "delivers Q m \<Longrightarrow> (\<And>x. Q x \<Longrightarrow> delivers R (f x)) \<Longrightarrow> delivers R (rbind m f)"
  by (cases m) simp_all

lemma yields_obind: "yields Q m \<Longrightarrow> (\<And>x. Q x \<Longrightarrow> yields R (f x)) \<Longrightarrow> yields R (obind m f)"
  by (cases m) (auto simp: obind_def split: sum.splits)

lemma delivers_mono: "delivers Q m \<Longrightarrow> (\<And>x. Q x \<Longrightarrow> R x) \<Longrightarrow> delivers R m"
  by (simp add: delivers_def)

lemma yields_mono: "yields Q m \<Longrightarrow> (\<And>x. Q x \<Longrightarrow> R x) \<Longrightarrow> yields R m"
  by (simp add: yields_def)

lemma deliversD: "delivers Q m \<Longrightarrow> m = Inr x \<Longrightarrow> Q x"
  by (simp add: delivers_def)

lemma yieldsD: "yields Q m \<Longrightarrow> m = ret x \<Longrightarrow> Q x"
  by (simp add: yields_def)

lemma delivers_if: "(b \<Longrightarrow> delivers Q m) \<Longrightarrow> (\<not> b \<Longrightarrow> delivers Q m') \<Longrightarrow> delivers Q (if b then m else m')"
  by simp

lemma yields_if: "(b \<Longrightarrow> yields Q m) \<Longrightarrow> (\<not> b \<Longrightarrow> yields Q m') \<Longrightarrow> yields Q (if b then m else m')"
  by simp

text \<open>Code that returns a value, with what holds of it.\<close>

definition gives :: "('a \<Rightarrow> bool) \<Rightarrow> 'a run \<Rightarrow> bool" where
  "gives Q m \<longleftrightarrow> (\<exists>x. m = ret x \<and> Q x)"

lemma gives_simps [simp]: "\<not> gives Q None" "\<not> gives Q (Some (Inl f))" "gives Q (ret x) = Q x"
  by (simp_all add: gives_def)

lemma gives_obind: "gives Q m \<Longrightarrow> (\<And>x. Q x \<Longrightarrow> gives R (f x)) \<Longrightarrow> gives R (obind m f)"
  by (auto simp: gives_def)

lemma gives_mono: "gives Q m \<Longrightarrow> (\<And>x. Q x \<Longrightarrow> R x) \<Longrightarrow> gives R m"
  by (auto simp: gives_def)

lemma givesE [elim?]:
  assumes "gives Q m"
  obtains x where "m = ret x" and "Q x"
  using assms by (auto simp: gives_def)

text \<open>The combinator is monotone, so recursive calls may stand under it.\<close>

lemma obind_mono [partial_function_mono]:
  assumes "mono_option B" and "\<And>y. mono_option (\<lambda>f. C y f)"
  shows "mono_option (\<lambda>f. obind (B f) (\<lambda>y. C y f))"
proof -
  have "mono_option (\<lambda>f. case r of Inl e \<Rightarrow> Some (Inl e) | Inr x \<Rightarrow> C x f)" for r
    using assms(2) by (cases r) (auto intro: option.const_mono)
  then show ?thesis
    unfolding obind_def by (intro bind_mono assms(1))
qed

section \<open>Byte buffers\<close>

text \<open>
  A C object is the list of its bytes; a pointer into it is an offset.  \<open>load_byte\<close> and
  \<open>store_byte\<close> are the two memory accesses, \<open>fetch\<close> and \<open>store\<close> their runs of several bytes (a
  field of a packed structure).
\<close>

definition load_byte :: "byte list \<Rightarrow> nat \<Rightarrow> byte res" where
  "load_byte b i = (if i < length b then Inr (b ! i) else Inl ReadPast)"

definition store_byte :: "byte list \<Rightarrow> nat \<Rightarrow> byte \<Rightarrow> byte list res" where
  "store_byte b i v = (if i < length b then Inr (b[i := v]) else Inl WritePast)"

definition fetch :: "byte list \<Rightarrow> nat \<Rightarrow> nat \<Rightarrow> byte list res" where
  "fetch b off n = (if off + n \<le> length b then Inr (take n (drop off b)) else Inl ReadPast)"

definition store :: "byte list \<Rightarrow> nat \<Rightarrow> byte list \<Rightarrow> byte list res" where
  "store b off xs =
     (if off + length xs \<le> length b
      then Inr (take off b @ xs @ drop (off + length xs) b) else Inl WritePast)"

lemma load_byte_in [simp]: "i < length b \<Longrightarrow> load_byte b i = Inr (b ! i)"
  by (simp add: load_byte_def)

lemma store_byte_in [simp]: "i < length b \<Longrightarrow> store_byte b i v = Inr (b[i := v])"
  by (simp add: store_byte_def)

lemma store_length: "store b off xs = Inr b' \<Longrightarrow> length b' = length b"
  by (auto simp: store_def split: if_splits)

lemma fetch_length: "fetch b off n = Inr xs \<Longrightarrow> length xs = n"
  by (auto simp: fetch_def split: if_splits)

text \<open>Reading back what was just stored, and reading elsewhere.\<close>

lemma fetch_store_same: "store b off xs = Inr b' \<Longrightarrow> fetch b' off (length xs) = Inr xs"
  by (auto simp: store_def fetch_def split: if_splits)

lemma fetch_store_before:
  "store b off xs = Inr b' \<Longrightarrow> o2 + n \<le> off \<Longrightarrow> fetch b' o2 n = fetch b o2 n"
  by (auto simp: store_def fetch_def drop_take min_def split: if_splits)

lemma load_byte_InrD: "load_byte b i = Inr c \<Longrightarrow> i < length b \<and> c = b ! i"
  by (auto simp: load_byte_def split: if_splits)

lemma store_byte_InrD: "store_byte b i v = Inr b' \<Longrightarrow> i < length b \<and> b' = b[i := v]"
  by (auto simp: store_byte_def split: if_splits)

section \<open>Little-endian fields\<close>

definition le16 :: "byte list \<Rightarrow> u16" where
  "le16 bs = (case bs of [a, b] \<Rightarrow> ucast a OR push_bit 8 (ucast b) | _ \<Rightarrow> 0)"

definition le32 :: "byte list \<Rightarrow> u32" where
  "le32 bs = (case bs of
     [a, b, c, d] \<Rightarrow> ucast a OR push_bit 8 (ucast b) OR push_bit 16 (ucast c) OR push_bit 24 (ucast d)
   | _ \<Rightarrow> 0)"

definition bytes16 :: "u16 \<Rightarrow> byte list" where
  "bytes16 w = [ucast w, ucast (drop_bit 8 w)]"

definition bytes32 :: "u32 \<Rightarrow> byte list" where
  "bytes32 w = [ucast w, ucast (drop_bit 8 w), ucast (drop_bit 16 w), ucast (drop_bit 24 w)]"

lemma length_bytes [simp]: "length (bytes16 w) = 2" "length (bytes32 d) = 4"
  by (simp_all add: bytes16_def bytes32_def)

lemma le16_bytes16 [simp]: "le16 (bytes16 w) = w"
  by (rule bit_word_eqI) (auto simp: le16_def bytes16_def bit_simps)

lemma le32_bytes32 [simp]: "le32 (bytes32 w) = w"
proof (rule bit_word_eqI)
  fix n assume "n < LENGTH(32)"
  then consider "n < 8" | "8 \<le> n" "n < 16" | "16 \<le> n" "n < 24" | "24 \<le> n" "n < 32"
    by fastforce
  then show "bit (le32 (bytes32 w)) n \<longleftrightarrow> bit w n"
    by cases (auto simp: le32_def bytes32_def bit_simps)
qed

lemma length_2E:
  assumes "length xs = 2"
  obtains a b where "xs = [a, b]"
  using assms by (auto simp: length_Suc_conv numeral_2_eq_2)

lemma length_4E:
  assumes "length xs = 4"
  obtains a b c d where "xs = [a, b, c, d]"
  using assms by (auto simp: length_Suc_conv numeral_eq_Suc)

lemma byte_bit_high [simp]: "8 \<le> n \<Longrightarrow> \<not> bit (a :: byte) n"
  using bit_imp_le_length [of a n] by auto

lemma bytes16_le16: "length bs = 2 \<Longrightarrow> bytes16 (le16 bs) = bs"
  by (erule length_2E) (auto simp: le16_def bytes16_def intro!: bit_word_eqI simp: bit_simps)

lemma bytes32_le32: "length bs = 4 \<Longrightarrow> bytes32 (le32 bs) = bs"
  by (erule length_4E) (auto simp: le32_def bytes32_def intro!: bit_word_eqI simp: bit_simps)

lemma unat_lt_u32: "unat (w :: u32) < 2 ^ 32"
proof -
  have "unat w < 2 ^ LENGTH(32)" by (rule unsigned_less)
  then show ?thesis by simp
qed

lemma unat_lt_u16: "unat (w :: u16) < 2 ^ 16"
proof -
  have "unat w < 2 ^ LENGTH(16)" by (rule unsigned_less)
  then show ?thesis by simp
qed

lemma unat_lt_byte: "unat (w :: byte) < 2 ^ 8"
proof -
  have "unat w < 2 ^ LENGTH(8)" by (rule unsigned_less)
  then show ?thesis by simp
qed

text \<open>Machine arithmetic read as natural numbers.\<close>

lemma unat_u32_of_nat: "n < 2 ^ 32 \<Longrightarrow> unat (of_nat n :: u32) = n"
  by (simp add: unat_of_nat take_bit_nat_eq_self)

lemma unat_byte_of_nat: "n < 256 \<Longrightarrow> unat (of_nat n :: byte) = n"
  by (simp add: unat_of_nat take_bit_nat_eq_self)

lemma unat_u32_add: "unat (a :: u32) + unat b < 2 ^ 32 \<Longrightarrow> unat (a + b) = unat a + unat b"
  by (simp add: unat_word_ariths)

lemma unat_u32_mult: "unat (a :: u32) * unat b < 2 ^ 32 \<Longrightarrow> unat (a * b) = unat a * unat b"
  by (simp add: unat_word_ariths)

lemma ucast_byte_unat: "unat (x :: u32) = k \<Longrightarrow> (ucast x :: byte) = of_nat k"
  by (auto simp: word_unat_eq_iff unsigned_ucast_eq unsigned_of_nat)

section \<open>The least gap of a set of slots\<close>

lemma least_gap:
  assumes "\<exists>i<n. i \<notin> (B :: nat set)"
  obtains i where "i < n" and "i \<notin> B" and "{..<i} \<subseteq> B"
proof -
  from assms obtain i where i: "i < n \<and> i \<notin> B" and m: "\<And>j. j < i \<Longrightarrow> \<not> (j < n \<and> j \<notin> B)"
    using exists_least_iff [of "\<lambda>i. i < n \<and> i \<notin> B"] by blast
  have "{..<i} \<subseteq> B"
  proof
    fix j assume "j \<in> {..<i}"
    then have "j < i" by simp
    with m i show "j \<in> B" using less_trans by blast
  qed
  with i that show thesis by blast
qed

section \<open>Literals\<close>

text \<open>The bytes of a C string literal without its terminating NUL.\<close>

definition lit :: "string \<Rightarrow> byte list" where
  "lit s = map of_char s"

definition cstr :: "string \<Rightarrow> byte list" where
  "cstr s = lit s @ [0]"

lemma lit_simps [simp]: "lit [] = []" "lit (c # s) = of_char c # lit s"
  by (simp_all add: lit_def)

end
