(* ===== verification/Slots.thy ===== *)
theory Slots
  imports RML_Prelude
begin

text \<open>
  The contract the kernel's two fixed tables share: the segment map of mm/mm.c and the process
  table of kernel/sched.c are arrays of slots in which \<open>alloc\<close> takes the first free one and
  \<open>free\<close> gives one back.  The lemmas are proved once from the contract; Segments and Process_Table
  interpret it on their models.
\<close>

locale slot_table =
  fixes cap :: nat
    and wf :: "'s \<Rightarrow> bool"
    and busy :: "'s \<Rightarrow> nat set"
    and alloc :: "'s \<Rightarrow> 's"
    and free :: "nat \<Rightarrow> 's \<Rightarrow> 's"
  assumes busy_bound: "wf s \<Longrightarrow> busy s \<subseteq> {..<cap}"
    and alloc_first: "wf s \<Longrightarrow> i < cap \<Longrightarrow> i \<notin> busy s \<Longrightarrow> {..<i} \<subseteq> busy s \<Longrightarrow> busy (alloc s) = insert i (busy s)"
    and alloc_full: "wf s \<Longrightarrow> busy s = {..<cap} \<Longrightarrow> busy (alloc s) = busy s"
    and busy_free: "wf s \<Longrightarrow> i < cap \<Longrightarrow> busy (free i s) = busy s - {i}"
    and wf_alloc: "wf s \<Longrightarrow> wf (alloc s)"
    and wf_free: "wf s \<Longrightarrow> wf (free i s)"
begin

lemma first_free_exists:
  assumes "wf s" and "busy s \<noteq> {..<cap}"
  obtains i where "i < cap" and "i \<notin> busy s" and "{..<i} \<subseteq> busy s"
proof -
  have "\<exists>i<cap. i \<notin> busy s"
    using assms busy_bound [OF assms(1)] by auto
  then show thesis
    by (rule least_gap) (rule that)
qed

text \<open>A full table stays as it is; any other gains exactly one slot.\<close>

lemma card_alloc:
  assumes "wf s"
  shows "card (busy (alloc s)) = min cap (Suc (card (busy s)))"
proof (cases "busy s = {..<cap}")
  case True
  with assms show ?thesis by (simp add: alloc_full)
next
  case False
  with assms obtain i where i: "i < cap" "i \<notin> busy s" "{..<i} \<subseteq> busy s"
    by (rule first_free_exists)
  have fin: "finite (busy s)"
    using busy_bound [OF assms] finite_subset by blast
  have "busy (alloc s) \<subseteq> {..<cap}"
    by (intro busy_bound wf_alloc assms)
  then have "card (busy (alloc s)) \<le> cap"
    using card_mono [of "{..<cap}"] by fastforce
  with i fin show ?thesis
    by (simp add: alloc_first [OF assms])
qed

text \<open>Taking a slot and giving it back restores the table.\<close>

lemma free_alloc:
  assumes "wf s" and "i < cap" and "i \<notin> busy s" and "{..<i} \<subseteq> busy s"
  shows "busy (free i (alloc s)) = busy s"
  using assms by (simp add: busy_free wf_alloc alloc_first [where i = i])

text \<open>Stack discipline: from a table whose busy slots are an initial run, allocation extends the
  run at its end and freeing the last slot shortens it again.\<close>

lemma alloc_stack: "wf s \<Longrightarrow> busy s = {..<k} \<Longrightarrow> k < cap \<Longrightarrow> busy (alloc s) = {..<Suc k}"
  by (subst alloc_first [where i = k]) (auto simp: lessThan_Suc)

lemma free_stack:
  assumes "wf s" and "busy s = {..<Suc k}" and "k < cap"
  shows "busy (free k s) = {..<k}"
  unfolding busy_free [OF assms(1,3)] assms(2) by (simp add: lessThan_Suc)

lemma wf_alloc_n: "wf s \<Longrightarrow> wf ((alloc ^^ k) s)"
  by (induction k) (simp_all add: wf_alloc)

lemma alloc_n_stack:
  assumes "wf s" and "busy s = {..<m}"
  shows "m + k \<le> cap \<Longrightarrow> busy ((alloc ^^ k) s) = {..<m + k}"
proof (induction k)
  case 0
  with assms(2) show ?case by simp
next
  case (Suc k)
  from Suc.prems have m: "m + k < cap" by linarith
  with Suc.IH have "busy ((alloc ^^ k) s) = {..<m + k}" by linarith
  from alloc_stack [OF wf_alloc_n [OF assms(1)] this m] show ?case by simp
qed

end

end
