(* ===== verification/CString.thy ===== *)
theory CString
  imports RML_Prelude
begin

text \<open>
  The string library: lib/string.c, lib/ctype.c and lib/utils.c.  A \<open>char *\<close> argument is the
  buffer it points to, up to the end of the object; source and destination are different
  objects, as in every call of the system.  Every loop is the loop of the source over an index,
  and the lemmas say what it computes on the string a buffer holds.
\<close>

section \<open>The C string a buffer holds\<close>

definition cval :: "byte list \<Rightarrow> byte list" where
  "cval b = takeWhile (\<lambda>c. c \<noteq> 0) b"

definition terminated :: "byte list \<Rightarrow> bool" where
  "terminated b \<longleftrightarrow> 0 \<in> set b"

section \<open>lib/string.c\<close>

function strlen_loop :: "byte list \<Rightarrow> nat \<Rightarrow> nat res" where
  "strlen_loop s len =
     rbind (load_byte s len) (\<lambda>c. if c \<noteq> 0 then strlen_loop s (Suc len) else Inr len)"
  by pat_completeness auto
termination
  by (relation "measure (\<lambda>(s, len). length s - len)") (auto dest!: load_byte_InrD)

definition strlen :: "byte list \<Rightarrow> nat res" where
  "strlen s = strlen_loop s 0"

function strcpy_loop :: "byte list \<Rightarrow> byte list \<Rightarrow> nat \<Rightarrow> byte list res" where
  "strcpy_loop dst src i =
     rbind (load_byte src i) (\<lambda>c.
     rbind (store_byte dst i c) (\<lambda>dst'.
       if c \<noteq> 0 then strcpy_loop dst' src (Suc i) else Inr dst'))"
  by pat_completeness auto
termination
  by (relation "measure (\<lambda>(dst, src, i). length src - i)") (auto dest!: load_byte_InrD)

definition strcpy :: "byte list \<Rightarrow> byte list \<Rightarrow> byte list res" where
  "strcpy dst src = strcpy_loop dst src 0"

text \<open>
  \<open>strncpy\<close> first copies, at most up to and including index \<open>n\<close>; its second loop pads with NUL
  bytes and has no increment.
\<close>

function strncpy_copy :: "byte list \<Rightarrow> byte list \<Rightarrow> nat \<Rightarrow> nat \<Rightarrow> (byte list \<times> nat) res" where
  "strncpy_copy dst src n i =
     rbind (load_byte src i) (\<lambda>c.
     rbind (store_byte dst i c) (\<lambda>dst'.
       if c \<noteq> 0 \<and> i < n then strncpy_copy dst' src n (Suc i) else Inr (dst', i)))"
  by pat_completeness auto
termination
  by (relation "measure (\<lambda>(dst, src, n, i). length src - i)") (auto dest!: load_byte_InrD)

partial_function (option) strncpy_pad :: "byte list \<Rightarrow> nat \<Rightarrow> nat \<Rightarrow> byte list run" where
  "strncpy_pad dst i n =
     (if i < n then obind (Some (store_byte dst i 0)) (\<lambda>dst'. strncpy_pad dst' i n)
      else ret dst)"

definition strncpy :: "byte list \<Rightarrow> byte list \<Rightarrow> nat \<Rightarrow> byte list run" where
  "strncpy dst src n =
     obind (Some (strncpy_copy dst src n 0)) (\<lambda>(dst', i). strncpy_pad dst' (Suc i) n)"

fun strcmp :: "byte list \<Rightarrow> byte list \<Rightarrow> int res" where
  "strcmp (a # s) (b # t) =
     (if a = b then (if a = 0 then Inr 0 else strcmp s t)
      else Inr (if a < b then -1 else 1))"
| "strcmp _ _ = Inl ReadPast"

function strncmp_loop :: "byte list \<Rightarrow> byte list \<Rightarrow> int \<Rightarrow> nat \<Rightarrow> int res" where
  "strncmp_loop src dst n i =
     rbind (load_byte src i) (\<lambda>a.
     rbind (load_byte dst i) (\<lambda>b.
       if a \<noteq> 0 \<and> b \<noteq> 0 \<and> a = b \<and> int i < n then strncmp_loop src dst n (Suc i)
       else if a = b then Inr 0
       else if a = 0 \<and> b \<noteq> 0 then Inr (-1)
       else Inr 1))"
  by pat_completeness auto
termination
  by (relation "measure (\<lambda>(src, dst, n, i). length src - i)") (auto dest!: load_byte_InrD)

definition strncmp :: "byte list \<Rightarrow> byte list \<Rightarrow> int \<Rightarrow> int res" where
  "strncmp src dst n = strncmp_loop src dst n 0"

function memcpy_loop :: "byte list \<Rightarrow> byte list \<Rightarrow> int \<Rightarrow> nat \<Rightarrow> byte list res" where
  "memcpy_loop dst src n i =
     (if int i < n
      then rbind (load_byte src i) (\<lambda>c. rbind (store_byte dst i c) (\<lambda>dst'.
             memcpy_loop dst' src n (Suc i)))
      else Inr dst)"
  by pat_completeness auto
termination
  by (relation "measure (\<lambda>(dst, src, n, i). nat (n - int i))") auto

definition memcpy :: "byte list \<Rightarrow> byte list \<Rightarrow> int \<Rightarrow> byte list res" where
  "memcpy dst src n = memcpy_loop dst src n 0"

function memset_loop :: "byte list \<Rightarrow> byte \<Rightarrow> int \<Rightarrow> nat \<Rightarrow> byte list res" where
  "memset_loop src c n i =
     (if int i < n then rbind (store_byte src i c) (\<lambda>src'. memset_loop src' c n (Suc i))
      else Inr src)"
  by pat_completeness auto
termination
  by (relation "measure (\<lambda>(src, c, n, i). nat (n - int i))") auto

definition memset :: "byte list \<Rightarrow> byte \<Rightarrow> int \<Rightarrow> byte list res" where
  "memset src c n = memset_loop src c n 0"

section \<open>lib/ctype.c and lib/utils.c\<close>

definition tolower :: "int \<Rightarrow> int" where
  "tolower c = (if 65 \<le> c \<and> c \<le> 90 then 97 + c - 65 else c)"

definition toupper :: "int \<Rightarrow> int" where
  "toupper c = (if 97 \<le> c \<and> c \<le> 122 then 65 + c - 97 else c)"

text \<open>
  \<open>string[i] = (char) f((int) string[i])\<close> for each index below \<open>strlen(string)\<close>, which the source
  evaluates again before every iteration.
\<close>

function smap_loop :: "(int \<Rightarrow> int) \<Rightarrow> byte list \<Rightarrow> nat \<Rightarrow> byte list res" where
  "smap_loop f s i =
     rbind (strlen s) (\<lambda>l.
       if i < l
       then rbind (load_byte s i) (\<lambda>c.
            rbind (store_byte s i (word_of_int (f (sint c)))) (\<lambda>s'. smap_loop f s' (Suc i)))
       else Inr s)"
  by pat_completeness auto
termination
  by (relation "measure (\<lambda>(f, s, i). length s - i)")
    (auto dest!: load_byte_InrD store_byte_InrD)

definition stolower :: "byte list \<Rightarrow> byte list res" where
  "stolower s = smap_loop tolower s 0"

definition stoupper :: "byte list \<Rightarrow> byte list res" where
  "stoupper s = smap_loop toupper s 0"

declare strlen_loop.simps [simp del] strcpy_loop.simps [simp del] strncpy_copy.simps [simp del]
  strncmp_loop.simps [simp del] memcpy_loop.simps [simp del] memset_loop.simps [simp del]
  smap_loop.simps [simp del]

section \<open>Strings and buffers\<close>

lemma cval_Nil [simp]: "cval [] = []"
  by (simp add: cval_def)

lemma cval_Cons: "cval (c # b) = (if c = 0 then [] else c # cval b)"
  by (simp add: cval_def)

lemma cval_nonzero: "c \<in> set (cval b) \<Longrightarrow> c \<noteq> 0"
  by (auto simp: cval_def dest: set_takeWhileD)

lemma terminated_Nil [simp]: "\<not> terminated []"
  by (simp add: terminated_def)

lemma terminated_Cons: "terminated (c # b) \<longleftrightarrow> c = 0 \<or> terminated b"
  by (auto simp: terminated_def)

lemma cval_split: "terminated b \<Longrightarrow> b = cval b @ 0 # drop (Suc (length (cval b))) b"
  by (induction b) (auto simp: cval_Cons terminated_Cons)

lemma cval_append_NUL: "0 \<notin> set s \<Longrightarrow> cval (s @ 0 # t) = s"
  by (induction s) (auto simp: cval_Cons)

lemma terminated_append_NUL [simp]: "terminated (s @ 0 # t)"
  by (simp add: terminated_def)

lemma cval_take: "cval (take n b) = take n (cval b)"
  by (induction b arbitrary: n) (auto simp: cval_Cons take_Cons')

lemma cval_no_NUL: "0 \<notin> set b \<Longrightarrow> cval b = b"
  by (induction b) (auto simp: cval_Cons)

lemma terminated_cstr [simp]: "terminated (cstr s)"
  by (simp add: cstr_def)

lemma cval_cstr: "0 \<notin> set (lit s) \<Longrightarrow> cval (cstr s) = lit s"
  by (simp add: cstr_def cval_append_NUL)

lemma cval_update:
  "v \<noteq> 0 \<Longrightarrow> i < length (cval b) \<Longrightarrow> cval (b[i := v]) = (cval b)[i := v]"
  by (induction b arbitrary: i) (auto simp: cval_Cons split: nat.splits if_splits)

lemma terminated_update:
  "i < length (cval b) \<Longrightarrow> terminated b \<Longrightarrow> terminated (b[i := v])"
  by (induction b arbitrary: i) (auto simp: cval_Cons terminated_Cons split: nat.splits if_splits)

lemma cval_length: "terminated b \<Longrightarrow> length (cval b) < length b"
  by (subst (2) cval_split) auto

lemma cval_nth: "i < length (cval b) \<Longrightarrow> cval b ! i = b ! i"
  by (simp add: cval_def takeWhile_nth)

lemma drop_tail_cons: "i < length b \<Longrightarrow> drop i b = b ! i # drop (Suc i) b"
  by (simp add: Cons_nth_drop_Suc)

lemma strlen_loop_eq:
  "strlen_loop s i =
     (if terminated (drop i s) then Inr (i + length (cval (drop i s))) else Inl ReadPast)"
proof (induction s i rule: strlen_loop.induct)
  case (1 s i)
  show ?case
  proof (cases "i < length s")
    case True
    with 1[of "s ! i"] show ?thesis
      by (subst strlen_loop.simps) (simp add: drop_tail_cons cval_Cons terminated_Cons)
  next
    case False
    then show ?thesis
      by (subst strlen_loop.simps) (simp add: load_byte_def terminated_def)
  qed
qed

lemma strlen_eq: "strlen s = (if terminated s then Inr (length (cval s)) else Inl ReadPast)"
  by (simp add: strlen_def strlen_loop_eq)

lemma strlen_cstr [simp]: "terminated s \<Longrightarrow> strlen s = Inr (length (cval s))"
  by (simp add: strlen_eq)

section \<open>Copying\<close>

lemma memcpy_loop_eq:
  "\<lbrakk>i \<le> m; m \<le> length src; m \<le> length dst\<rbrakk> \<Longrightarrow>
   memcpy_loop dst src (int m) i = Inr (take i dst @ take (m - i) (drop i src) @ drop m dst)"
proof (induction "m - i" arbitrary: dst i)
  case 0
  then show ?case by (subst memcpy_loop.simps) simp
next
  case (Suc k)
  then have i: "i < m" "i < length src" "i < length dst" by simp_all
  have "memcpy_loop dst src (int m) i = memcpy_loop (dst[i := src ! i]) src (int m) (Suc i)"
    using i by (subst memcpy_loop.simps) simp
  also have "\<dots> = Inr (take (Suc i) (dst[i := src ! i]) @ take (m - Suc i) (drop (Suc i) src)
      @ drop m (dst[i := src ! i]))"
    using Suc i by (intro Suc.hyps(1)) simp_all
  also have "take (Suc i) (dst[i := src ! i]) = take i dst @ [src ! i]"
    using i by (simp add: take_Suc_conv_app_nth)
  also have "(take i dst @ [src ! i]) @ take (m - Suc i) (drop (Suc i) src) @ drop m (dst[i := src ! i])
      = take i dst @ take (m - i) (drop i src) @ drop m dst"
    using i by (simp add: drop_tail_cons [of i src] take_Cons' drop_update_cancel)
  finally show ?case .
qed

lemma memcpy_eq:
  "m \<le> length src \<Longrightarrow> m \<le> length dst \<Longrightarrow>
   memcpy dst src (int m) = Inr (take m src @ drop m dst)"
  by (simp add: memcpy_def memcpy_loop_eq)

lemma memset_loop_eq:
  "\<lbrakk>i \<le> m; m \<le> length src\<rbrakk> \<Longrightarrow>
   memset_loop src c (int m) i = Inr (take i src @ replicate (m - i) c @ drop m src)"
proof (induction "m - i" arbitrary: src i)
  case 0
  then show ?case by (subst memset_loop.simps) simp
next
  case (Suc k)
  then have i: "i < m" "i < length src" by simp_all
  have "memset_loop src c (int m) i = memset_loop (src[i := c]) c (int m) (Suc i)"
    using i by (subst memset_loop.simps) simp
  also have "\<dots> = Inr (take (Suc i) (src[i := c]) @ replicate (m - Suc i) c @ drop m (src[i := c]))"
    using Suc i by (intro Suc.hyps(1)) simp_all
  also have "take (Suc i) (src[i := c]) = take i src @ [c]"
    using i by (simp add: take_Suc_conv_app_nth)
  also have "(take i src @ [c]) @ replicate (m - Suc i) c @ drop m (src[i := c])
      = take i src @ replicate (m - i) c @ drop m src"
    using i by (simp add: drop_update_cancel Suc_diff_Suc [symmetric])
  finally show ?case .
qed

lemma memset_eq: "m \<le> length src \<Longrightarrow> memset src c (int m) = Inr (replicate m c @ drop m src)"
  by (simp add: memset_def memset_loop_eq)

lemma strcpy_loop_eq:
  "\<lbrakk>terminated (drop i src); i + length (cval (drop i src)) < length dst\<rbrakk> \<Longrightarrow>
   strcpy_loop dst src i =
     Inr (take i dst @ cval (drop i src) @ 0 # drop (Suc (i + length (cval (drop i src)))) dst)"
proof (induction "length src - i" arbitrary: dst i)
  case 0
  then show ?case by (simp add: terminated_def)
next
  case (Suc k)
  then have i: "i < length src" by simp
  note d = drop_tail_cons [OF i]
  show ?case
  proof (cases "src ! i = 0")
    case True
    with Suc i show ?thesis
      by (subst strcpy_loop.simps) (simp add: d cval_Cons upd_conv_take_nth_drop)
  next
    case False
    with Suc.prems i have l: "Suc i + length (cval (drop (Suc i) src)) < length dst"
      by (simp add: d cval_Cons)
    have "strcpy_loop dst src i = strcpy_loop (dst[i := src ! i]) src (Suc i)"
      using False i l by (subst strcpy_loop.simps) simp
    also have "\<dots> = Inr (take (Suc i) (dst[i := src ! i]) @ cval (drop (Suc i) src) @
        0 # drop (Suc (Suc i + length (cval (drop (Suc i) src)))) (dst[i := src ! i]))"
      using Suc False i l by (intro Suc.hyps(1)) (simp_all add: d terminated_Cons)
    finally show ?thesis
      using False l by (simp add: d cval_Cons take_Suc_conv_app_nth drop_update_cancel)
  qed
qed

lemma strcpy_eq:
  "terminated src \<Longrightarrow> length (cval src) < length dst \<Longrightarrow>
   strcpy dst src = Inr (cval src @ 0 # drop (Suc (length (cval src))) dst)"
  by (simp add: strcpy_def strcpy_loop_eq)

section \<open>\<open>strncpy\<close>: the padding loop never ends\<close>

lemma strncpy_pad_done: "n \<le> i \<Longrightarrow> strncpy_pad dst i n = ret dst"
  by (subst strncpy_pad.simps) simp

text \<open>A run of the padding loop that starts below \<open>n\<close> and returns would contradict itself.\<close>

lemma strncpy_pad_returns:
  assumes "strncpy_pad dst i n = Some r"
  shows "n \<le> i \<or> length dst \<le> i"
proof (rule strncpy_pad.raw_induct [where P = "\<lambda>dst i n r. n \<le> i \<or> length dst \<le> i", OF _ assms])
  fix f dst i n r
  assume IH: "\<And>dst i n r. f dst i n = Some r \<Longrightarrow> n \<le> i \<or> length (dst :: byte list) \<le> i"
    and eq: "(if i < n then obind (Some (store_byte dst i 0)) (\<lambda>dst'. f dst' i n) else ret dst)
      = Some r"
  show "n \<le> i \<or> length dst \<le> i"
  proof (rule ccontr)
    assume "\<not> ?thesis"
    with eq have "f (dst[i := 0]) i n = Some r" by simp
    from IH [OF this] \<open>\<not> ?thesis\<close> show False by simp
  qed
qed

lemma strncpy_pad_diverges: "i < n \<Longrightarrow> i < length dst \<Longrightarrow> strncpy_pad dst i n = None"
  using strncpy_pad_returns [of dst i n] by (cases "strncpy_pad dst i n") auto

text \<open>Where the copying loop stops: at the first NUL, or at index \<open>n\<close>.\<close>

lemma strncpy_copy_eq:
  assumes "n < length src" and "n < length dst" and "i \<le> n"
  defines "k \<equiv> min (n - i) (length (cval (drop i src)))"
  shows "strncpy_copy dst src n i =
    Inr (take i dst @ take (Suc k) (drop i src) @ drop (Suc (i + k)) dst, i + k)"
  using assms(1-3) unfolding k_def
proof (induction "n - i" arbitrary: dst i)
  case 0
  then have "i = n" by simp
  with 0 show ?case
    by (subst strncpy_copy.simps) (simp add: upd_conv_take_nth_drop drop_tail_cons)
next
  case (Suc j)
  then have i: "i < n" "i < length src" "i < length dst" by simp_all
  note d = drop_tail_cons [OF i(2)]
  show ?case
  proof (cases "src ! i = 0")
    case True
    with i show ?thesis
      by (subst strncpy_copy.simps) (simp add: d cval_Cons upd_conv_take_nth_drop)
  next
    case False
    let ?k = "min (n - Suc i) (length (cval (drop (Suc i) src)))"
    have k: "min (n - i) (length (cval (drop i src))) = Suc ?k"
      using False i by (simp add: d cval_Cons Suc_diff_Suc [symmetric])
    have "strncpy_copy dst src n i = strncpy_copy (dst[i := src ! i]) src n (Suc i)"
      using False i by (subst strncpy_copy.simps) simp
    also have "\<dots> = Inr (take (Suc i) (dst[i := src ! i]) @ take (Suc ?k) (drop (Suc i) src)
        @ drop (Suc (Suc i + ?k)) (dst[i := src ! i]), Suc i + ?k)"
      using Suc i by (intro Suc.hyps(1)) simp_all
    also have "take (Suc i) (dst[i := src ! i]) = take i dst @ [src ! i]"
      using i by (simp add: take_Suc_conv_app_nth)
    also have "drop (Suc (Suc i + ?k)) (dst[i := src ! i]) = drop (Suc (i + Suc ?k)) dst"
      by simp
    also have "(take i dst @ [src ! i]) @ take (Suc ?k) (drop (Suc i) src) @
        drop (Suc (i + Suc ?k)) dst
      = take i dst @ take (Suc (Suc ?k)) (drop i src) @ drop (Suc (i + Suc ?k)) dst"
      unfolding d by (simp only: take_Suc_Cons append.simps append_assoc)
    finally show ?thesis
      unfolding k add_Suc_shift .
  qed
qed

text \<open>C38: \<open>strncpy\<close> into a destination of more than \<open>n\<close> bytes returns exactly when the source has
  no NUL among its first \<open>n - 1\<close> bytes; otherwise its padding loop, which lacks the increment,
  runs forever.\<close>

theorem strncpy_returns_iff:
  assumes "n < length src" and "n < length dst"
  shows "strncpy dst src n \<noteq> None \<longleftrightarrow> n \<le> Suc (length (cval (take n src)))"
proof -
  let ?k = "min n (length (cval src))"
  have k: "length (cval (take n src)) = ?k"
    by (simp add: cval_take min.commute)
  show ?thesis unfolding k
    using assms strncpy_copy_eq [of n src dst 0]
    by (cases "n \<le> Suc ?k")
      (auto simp: strncpy_def strncpy_pad_done strncpy_pad_diverges)
qed

theorem strncpy_returns_iff_witness:
  "strncpy (replicate 9 1) (lit ''ls      '' @ lit ''bin'') 8 \<noteq> None
   \<and> strncpy (replicate 9 1) (cstr ''ls'' @ lit ''     bin'') 8 = None"
proof -
  have "strncpy (replicate 9 1) (lit ''ls      '' @ lit ''bin'') 8 \<noteq> None
      \<longleftrightarrow> 8 \<le> Suc (length (cval (take 8 (lit ''ls      '' @ lit ''bin''))))"
    by (rule strncpy_returns_iff) simp_all
  moreover have "strncpy (replicate 9 1) (cstr ''ls'' @ lit ''     bin'') 8 \<noteq> None
      \<longleftrightarrow> 8 \<le> Suc (length (cval (take 8 (cstr ''ls'' @ lit ''     bin''))))"
    by (rule strncpy_returns_iff) (simp_all add: cstr_def)
  ultimately show ?thesis by (simp add: cval_def cstr_def)
qed

text \<open>When it returns, the first \<open>n\<close> bytes are the source's.\<close>

lemma strncpy_takes:
  assumes "n < length src" and "n < length dst" and "n \<le> Suc (length (cval (take n src)))"
  shows "\<exists>d. strncpy dst src n = ret d \<and> length d = length dst \<and> take n d = take n src"
proof -
  let ?k = "min n (length (cval src))"
  have k: "length (cval (take n src)) = ?k"
    by (simp add: cval_take min.commute)
  then have "n = ?k \<or> n = Suc ?k" using assms(3) by linarith
  then have "take n (take (Suc ?k) src @ drop (Suc ?k) dst) = take n src" using assms(1) by (auto simp: min_absorb1)
  then show ?thesis
    using assms(1,2) assms(3) [unfolded k] strncpy_copy_eq [of n src dst 0]
    by (auto simp: strncpy_def strncpy_pad_done)
qed

lemma strncpy_diverges:
  assumes "n < length src" and "n < length dst" and "Suc (length (cval (take n src))) < n"
  shows "strncpy dst src n = None"
proof -
  let ?k = "min n (length (cval src))"
  have k: "length (cval (take n src)) = ?k"
    by (simp add: cval_take min.commute)
  show ?thesis
    using assms(1,2) assms(3) [unfolded k] strncpy_copy_eq [of n src dst 0]
    by (auto simp: strncpy_def strncpy_pad_diverges)
qed

text \<open>What it leaves when it returns: \<open>n + 1\<close> bytes where the source has no NUL at all, so one byte
  past the field.\<close>

lemma strncpy_full:
  assumes "n < length src" and "n < length dst" and "0 \<notin> set (take n src)"
  shows "strncpy dst src n = ret (take (Suc n) src @ drop (Suc n) dst)"
proof -
  have "take n (cval src) = take n src"
    using assms(3) by (simp add: cval_no_NUL flip: cval_take)
  with assms(1) have "n \<le> length (cval src)"
    by (metis length_take less_imp_le min.absorb2 min.cobounded1)
  then show ?thesis
    using assms strncpy_copy_eq [of n src dst 0]
    by (simp add: strncpy_def strncpy_pad_done min_def)
qed

section \<open>Comparison\<close>

lemma strcmp_eq:
  assumes "terminated a" and "terminated b"
  shows "strcmp a b = Inr (if cval a = cval b then 0
    else if ord_class.lexordp (cval a) (cval b) then -1 else 1)"
  using assms
proof (induction a b rule: strcmp.induct)
  case (1 a s b t)
  show ?case
  proof (cases "a = b")
    case True
    with 1 show ?thesis by (cases "a = 0") (auto simp: cval_Cons terminated_Cons)
  next
    case False
    then consider "a < b" | "b < a" by (rule linorder_neqE)
    then show ?thesis
      by cases (auto simp: cval_Cons word_gt_0)
  qed
qed auto

text \<open>C39: on two strings, \<open>strcmp\<close> is the lexicographic order of their bytes, read unsigned: 0 on
  equal strings, -1 when the first is smaller, 1 when it is greater.\<close>

theorem strcmp_lexicographic:
  assumes "terminated a" and "terminated b"
  shows "strcmp a b = Inr (if cval a = cval b then 0
    else if ord_class.lexordp (cval a) (cval b) then -1 else 1)"
  using assms by (rule strcmp_eq)

theorem strcmp_lexicographic_witness:
  "strcmp (cstr ''SHELL'') (cstr ''SHE'') = Inr 1"
  by (subst strcmp_lexicographic) (simp_all add: cval_cstr)

lemma strcmp_eq_0:
  "terminated a \<Longrightarrow> terminated b \<Longrightarrow> strcmp a b = Inr 0 \<longleftrightarrow> cval a = cval b"
  by (simp add: strcmp_eq)

lemma strcmp_total:
  "terminated a \<Longrightarrow> terminated b \<Longrightarrow> \<exists>c. strcmp a b = Inr c \<and> (c = 0 \<longleftrightarrow> cval a = cval b)"
  by (simp add: strcmp_eq)

lemma strncmp_loop_eq_0:
  "\<lbrakk>terminated (drop i a); terminated (drop i b)\<rbrakk> \<Longrightarrow>
   strncmp_loop a b n i = Inr 0 \<longleftrightarrow>
   take (nat (n - int i) + 1) (cval (drop i a)) = take (nat (n - int i) + 1) (cval (drop i b))"
proof (induction "length a - i" arbitrary: i)
  case 0
  then show ?case by simp
next
  case (Suc k)
  then have ia: "i < length a" by simp
  from Suc.prems have ib: "i < length b" by (cases "i < length b") simp_all
  note d = drop_tail_cons [OF ia] drop_tail_cons [OF ib]
  show ?case
  proof (cases "a ! i \<noteq> 0 \<and> b ! i \<noteq> 0 \<and> a ! i = b ! i \<and> int i < n")
    case True
    then have "strncmp_loop a b n i = strncmp_loop a b n (Suc i)"
      using ia ib by (subst strncmp_loop.simps) simp
    moreover have "strncmp_loop a b n (Suc i) = Inr 0 \<longleftrightarrow>
        take (nat (n - int (Suc i)) + 1) (cval (drop (Suc i) a))
        = take (nat (n - int (Suc i)) + 1) (cval (drop (Suc i) b))"
      using Suc True by (intro Suc.hyps(1)) (simp_all add: d terminated_Cons)
    moreover have "nat (n - int i) = Suc (nat (n - int (Suc i)))"
      using True by linarith
    ultimately show ?thesis
      using True by (simp add: d cval_Cons)
  next
    case False
    then show ?thesis
      using ia ib by (subst strncmp_loop.simps) (auto simp: d cval_Cons)
  qed
qed

text \<open>\<open>strncmp\<close> with limit \<open>n\<close> reports equality exactly when the first \<open>n + 1\<close> characters
  agree, one more than its limit says.\<close>

theorem strncmp_compares_one_more:
  assumes "terminated a" and "terminated b" and "0 \<le> n"
  shows "strncmp a b n = Inr 0 \<longleftrightarrow> take (nat n + 1) (cval a) = take (nat n + 1) (cval b)"
  using strncmp_loop_eq_0 [of 0 a b n] assms by (simp add: strncmp_def)

theorem strncmp_compares_one_more_witness:
  "strncmp (cstr ''abc'') (cstr ''abd'') 2 \<noteq> Inr 0
   \<and> take 2 (cval (cstr ''abc'')) = take 2 (cval (cstr ''abd''))"
  using strncmp_compares_one_more [of "cstr ''abc''" "cstr ''abd''" 2]
  by (simp add: cval_cstr)

section \<open>Case conversion\<close>

text \<open>\<open>upper_byte\<close> is the reference: a lower-case letter loses bit 5, any other byte stays.\<close>

definition upper_byte :: "byte \<Rightarrow> byte" where
  "upper_byte c = (if 97 \<le> c \<and> c \<le> 122 then c - 32 else c)"

definition lower_byte :: "byte \<Rightarrow> byte" where
  "lower_byte c = (if 65 \<le> c \<and> c \<le> 90 then c + 32 else c)"

lemma sint_byte: "sint (c :: byte) = (if 128 \<le> uint c then uint c - 256 else uint c)"
proof -
  have u: "uint c < 256" "0 \<le> uint c"
    using uint_lt2p [of c] by simp_all
  have o: "odd (uint c div 128) = (128 \<le> uint c)"
  proof (cases "128 \<le> uint c")
    case True
    then have "uint c div 128 = 1" using u by (simp add: div_eq_dividend_iff int_div_pos_eq [where r = "uint c - 128"])
    then show ?thesis using True by simp
  next
    case False then show ?thesis using u by (simp add: div_pos_pos_trivial)
  qed
  have t: "take_bit 8 (uint c) = uint c"
    using u by (simp add: take_bit_int_eq_self)
  show ?thesis
    by (simp only: sint_uint signed_take_bit_eq_take_bit_minus bit_iff_odd len_num1 o t) (simp add: o t)
qed

lemma word_of_int_sint_byte: "word_of_int (sint (c :: byte)) = c"
  by simp

lemma toupper_byte: "word_of_int (toupper (sint c)) = upper_byte c"
proof -
  have "uint c < 256" "0 \<le> uint c"
    using uint_lt2p [of c] by simp_all
  then have "97 \<le> sint c \<and> sint c \<le> 122 \<longleftrightarrow> 97 \<le> c \<and> c \<le> 122"
    by (auto simp: sint_byte word_le_def)
  moreover have "word_of_int (65 + sint c - 97) = c - 32"
    by (simp add: wi_hom_sub [symmetric] wi_hom_add [symmetric])
  ultimately show ?thesis
    by (simp add: toupper_def upper_byte_def)
qed

lemma tolower_byte: "word_of_int (tolower (sint c)) = lower_byte c"
proof -
  have "uint c < 256" "0 \<le> uint c"
    using uint_lt2p [of c] by simp_all
  then have "65 \<le> sint c \<and> sint c \<le> 90 \<longleftrightarrow> 65 \<le> c \<and> c \<le> 90"
    by (auto simp: sint_byte word_le_def)
  moreover have "word_of_int (97 + sint c - 65) = c + 32"
    by (simp add: wi_hom_sub [symmetric] wi_hom_add [symmetric])
  ultimately show ?thesis
    by (simp add: tolower_def lower_byte_def)
qed

lemma upper_byte_0 [simp]: "upper_byte c = 0 \<longleftrightarrow> c = 0"
  by (auto simp: upper_byte_def)

lemma lower_byte_0 [simp]: "lower_byte c = 0 \<longleftrightarrow> c = 0"
proof -
  have "c \<le> 90 \<Longrightarrow> unat (c + 32) = unat c + 32"
    by (subst unat_add_lem [THEN iffD1]) (simp_all add: word_le_nat_alt)
  then show ?thesis by (auto simp: lower_byte_def)
qed

text \<open>The shared loop, for any conversion \<open>g\<close> that maps no character to NUL.\<close>

lemma smap_loop_eq:
  assumes g: "\<And>c. word_of_int (f (sint c)) = g c" and nz: "\<And>c. g c = 0 \<longleftrightarrow> c = 0"
  shows "\<lbrakk>terminated s; i \<le> length (cval s)\<rbrakk> \<Longrightarrow>
    smap_loop f s i = Inr (take i s @ map g (drop i (cval s)) @ drop (length (cval s)) s)"
proof (induction "length (cval s) - i" arbitrary: s i)
  case 0
  then show ?case by (subst smap_loop.simps) simp
next
  case (Suc k)
  then have i: "i < length (cval s)" "i < length s"
    using cval_length [of s] by simp_all
  have ci: "cval s ! i = s ! i" "s ! i \<noteq> 0"
    using i cval_nonzero [OF nth_mem [OF i(1)]] by (simp_all add: cval_nth)
  let ?s = "s[i := g (s ! i)]"
  have c: "cval ?s = (cval s)[i := g (s ! i)]" "terminated ?s"
    using Suc.prems i ci nz by (simp_all add: cval_update terminated_update)
  have "smap_loop f s i = smap_loop f ?s (Suc i)"
    using Suc.prems i by (subst smap_loop.simps) (simp add: g)
  also have "\<dots> = Inr (take (Suc i) ?s @ map g (drop (Suc i) (cval ?s))
      @ drop (length (cval ?s)) ?s)"
    using Suc i c by (intro Suc.hyps(1)) simp_all
  finally show ?case
    using i ci by (simp add: c drop_update_cancel take_Suc_conv_app_nth drop_tail_cons [of i "cval s"])
qed

lemma stoupper_eq:
  assumes "terminated s"
  shows "stoupper s = Inr (map upper_byte (cval s) @ drop (length (cval s)) s)"
  using smap_loop_eq [of toupper upper_byte s 0] assms
  by (simp add: stoupper_def toupper_byte)

text \<open>\<open>stoupper\<close> upper-cases the string in place, byte by byte, and changes nothing else in the
  buffer.\<close>

theorem stoupper_in_place:
  assumes "terminated s"
  shows "stoupper s = Inr (map upper_byte (cval s) @ drop (length (cval s)) s)"
  using assms by (rule stoupper_eq)

theorem stoupper_in_place_witness:
  "stoupper (cstr ''ls -1'') = Inr (cstr ''LS -1'')"
  using stoupper_in_place [of "cstr ''ls -1''"]
  by (simp add: cval_cstr) (simp add: cstr_def upper_byte_def)

lemma stolower_in_place:
  "terminated s \<Longrightarrow> stolower s = Inr (map lower_byte (cval s) @ drop (length (cval s)) s)"
  using smap_loop_eq [of tolower lower_byte s 0]
  by (simp add: stolower_def tolower_byte)

end
