(* ===== verification/Process_Table.thy ===== *)
theory Process_Table
  imports Slots CString
begin

text \<open>
  The process table of kernel/sched.c with the types of include/linux/sched.h and
  include/linux/kernio.h.  The functions work on \<open>sched_state\<close>, which the kernel state extends.
  A descriptor's \<open>files_table\<close> has five entries; the code also uses index 5, which is the memory of
  the next descriptor, and \<open>as_fd\<close>, \<open>of_fd\<close> are that overlay.
\<close>

section \<open>Types\<close>

text \<open>\<open>FileDescriptor\<close>: 48 bytes, \<open>pathname\<close> at offset 0, \<open>pos\<close> at 32, \<open>size\<close> at 36, \<open>pfd\<close> at 40 and
  \<open>pfd_offset\<close> at 44.  \<open>pfd_offset\<close> is only ever added to an unsigned position, so it is kept as
  its 32 bits.\<close>

record fdesc =
  fd_pathname :: "byte list"
  fd_pos :: u32
  fd_size :: u32
  fd_pfd :: int
  fd_pfd_offset :: u32

datatype procState = READY | WAIT | RUNNING | SLEEP

text \<open>\<open>ProcessDesc\<close>: \<open>pid\<close> at offset 0, \<open>name\<close> at 4, then \<open>ss\<close>, \<open>ds\<close>, \<open>cs\<close>, \<open>ip\<close> from 36 on.\<close>

record proc =
  p_pid :: u32
  p_name :: "byte list"
  p_ss :: u32
  p_ds :: u32
  p_cs :: u32
  p_ip :: u32
  p_ppid :: u32
  p_size :: u32
  p_state :: procState
  files_table :: "fdesc list"

record sched_state =
  processes :: "proc list"
  running_proc :: int

definition NUM_PROCESSES :: nat where
  "NUM_PROCESSES = 9"

definition NUM_FILES :: nat where
  "NUM_FILES = 5"

section \<open>kernel/sched.c\<close>

text \<open>A store to \<open>processes[i]\<close>; outside the array it is a fault.\<close>

definition upd_proc :: "int \<Rightarrow> (proc \<Rightarrow> proc) \<Rightarrow> 'a sched_state_scheme \<Rightarrow> 'a sched_state_scheme res" where
  "upd_proc i f s =
     (if 0 \<le> i \<and> i < int NUM_PROCESSES
      then Inr (s\<lparr>processes := (processes s)[nat i := f (processes s ! nat i)]\<rparr>)
      else Inl WritePast)"

definition schedule :: "'a sched_state_scheme \<Rightarrow> 'a sched_state_scheme" where
  "schedule s = s"

fun init_processes_loop :: "proc list \<Rightarrow> nat \<Rightarrow> proc list" where
  "init_processes_loop ps 0 = ps"
| "init_processes_loop ps (Suc n) =
     (let ps' = init_processes_loop ps n in ps'[n := (ps' ! n)\<lparr>p_pid := 0\<rparr>])"

definition init_processes :: "'a sched_state_scheme \<Rightarrow> 'a sched_state_scheme" where
  "init_processes s =
     s\<lparr>processes := init_processes_loop (processes s) NUM_PROCESSES, running_proc := 0\<rparr>"

definition set_running_proc :: "int \<Rightarrow> 'a sched_state_scheme \<Rightarrow> 'a sched_state_scheme res" where
  "set_running_proc pid s =
     rbind (if running_proc s \<noteq> 0
            then upd_proc (running_proc s - 1) (\<lambda>p. p\<lparr>p_state := READY\<rparr>) s else Inr s) (\<lambda>s.
     upd_proc (pid - 1) (\<lambda>p. p\<lparr>p_state := RUNNING\<rparr>) (s\<lparr>running_proc := pid\<rparr>))"

definition get_running_proc :: "'a sched_state_scheme \<Rightarrow> int" where
  "get_running_proc s = running_proc s"

text \<open>
  The arguments are those of the source; \<open>pid\<close> is what the caller's variable behind \<open>int *pid\<close>
  holds.  The result is the return value, that variable afterwards, and the state.
\<close>

definition fill_slot ::
    "nat \<Rightarrow> byte list \<Rightarrow> u32 \<Rightarrow> u32 \<Rightarrow> u32 \<Rightarrow> u32 \<Rightarrow> int \<Rightarrow> u32 \<Rightarrow> proc \<Rightarrow> proc res" where
  "fill_slot i name cs ds ss entry_point ppid sz p =
     (let p = p\<lparr>p_pid := of_nat (i + 1), p_cs := cs, p_ds := ds, p_ss := ss, p_state := READY,
                p_ip := entry_point, p_ppid := word_of_int ppid, p_size := sz\<rparr>
      in rbind (strcpy (p_name p) name) (\<lambda>nm. Inr (p\<lparr>p_name := nm\<rparr>)))"

function register_proc_loop ::
    "nat \<Rightarrow> byte list \<Rightarrow> u32 \<Rightarrow> u32 \<Rightarrow> u32 \<Rightarrow> u32 \<Rightarrow> int \<Rightarrow> int \<Rightarrow> u32 \<Rightarrow>
     'a sched_state_scheme \<Rightarrow> (int \<times> int \<times> 'a sched_state_scheme) res" where
  "register_proc_loop i name cs ds ss entry_point pid ppid sz s =
     (if i < NUM_PROCESSES
      then if p_pid (processes s ! i) = 0
           then rbind (fill_slot i name cs ds ss entry_point ppid sz (processes s ! i)) (\<lambda>p.
                Inr (sint (p_pid p), sint (p_pid p), s\<lparr>processes := (processes s)[i := p]\<rparr>))
           else register_proc_loop (Suc i) name cs ds ss entry_point pid ppid sz s
      else Inr (-1, pid, s))"
  by pat_completeness auto
termination
  by (relation "measure (\<lambda>(i, _). NUM_PROCESSES - i)") auto

declare register_proc_loop.simps [simp del]

definition register_proc ::
    "byte list \<Rightarrow> u32 \<Rightarrow> u32 \<Rightarrow> u32 \<Rightarrow> u32 \<Rightarrow> int \<Rightarrow> int \<Rightarrow> u32 \<Rightarrow>
     'a sched_state_scheme \<Rightarrow> (int \<times> int \<times> 'a sched_state_scheme) res" where
  "register_proc name cs ds ss entry_point pid ppid sz s =
     register_proc_loop 0 name cs ds ss entry_point pid ppid sz s"

definition unregister_proc :: "int \<Rightarrow> 'a sched_state_scheme \<Rightarrow> (int \<times> 'a sched_state_scheme) res" where
  "unregister_proc pid s =
     rbind (upd_proc (pid - 1) (\<lambda>p. p\<lparr>p_pid := 0\<rparr>) s) (\<lambda>s. Inr (0, s))"

section \<open>Index 5 of a file table\<close>

text \<open>The first 48 bytes of a descriptor read and written as a \<open>FileDescriptor\<close>.\<close>

definition as_fd :: "proc \<Rightarrow> fdesc" where
  "as_fd p = \<lparr>fd_pathname = bytes32 (p_pid p) @ take 28 (p_name p),
              fd_pos = le32 (drop 28 (p_name p)), fd_size = p_ss p,
              fd_pfd = sint (p_ds p), fd_pfd_offset = p_cs p\<rparr>"

definition of_fd :: "fdesc \<Rightarrow> proc \<Rightarrow> proc" where
  "of_fd d p = p\<lparr>p_pid := le32 (take 4 (fd_pathname d)),
                 p_name := drop 4 (fd_pathname d) @ bytes32 (fd_pos d), p_ss := fd_size d,
                 p_ds := word_of_int (fd_pfd d), p_cs := fd_pfd_offset d\<rparr>"

definition ftab_upd ::
    "int \<Rightarrow> int \<Rightarrow> (fdesc \<Rightarrow> fdesc) \<Rightarrow> 'a sched_state_scheme \<Rightarrow> 'a sched_state_scheme res" where
  "ftab_upd pid fd f s =
     (if 0 \<le> fd \<and> fd < int NUM_FILES
      then upd_proc (pid - 1)
             (\<lambda>p. p\<lparr>files_table := (files_table p)[nat fd := f (files_table p ! nat fd)]\<rparr>) s
      else if fd = int NUM_FILES \<and> 1 \<le> pid
      then upd_proc pid (\<lambda>p. of_fd (f (as_fd p)) p) s
      else Inl WritePast)"

text \<open>The two directions of the overlay agree.\<close>

lemma of_fd_as_fd: "length (p_name p) = 32 \<Longrightarrow> of_fd (as_fd p) p = p"
  by (simp add: of_fd_def as_fd_def bytes32_le32)

lemma as_fd_of_fd:
  "length (fd_pathname d) = 32 \<Longrightarrow> sint (word_of_int (fd_pfd d) :: u32) = fd_pfd d \<Longrightarrow>
   as_fd (of_fd d p) = d"
  by (simp add: of_fd_def as_fd_def bytes32_le32)

section \<open>Well-formed tables\<close>

definition fdesc_wf :: "fdesc \<Rightarrow> bool" where
  "fdesc_wf d \<longleftrightarrow> length (fd_pathname d) = 32"

definition proc_wf :: "nat \<Rightarrow> proc \<Rightarrow> bool" where
  "proc_wf i p \<longleftrightarrow> p_pid p \<in> {0, of_nat (i + 1)} \<and> length (p_name p) = 32
     \<and> length (files_table p) = NUM_FILES \<and> list_all fdesc_wf (files_table p)"

definition procs_wf :: "'a sched_state_scheme \<Rightarrow> bool" where
  "procs_wf s \<longleftrightarrow> length (processes s) = NUM_PROCESSES
     \<and> (\<forall>i<NUM_PROCESSES. proc_wf i (processes s ! i))"

definition procs_busy :: "'a sched_state_scheme \<Rightarrow> nat set" where
  "procs_busy s = {i. i < NUM_PROCESSES \<and> p_pid (processes s ! i) \<noteq> 0}"

lemma procs_wfD:
  assumes "procs_wf s" and "i < NUM_PROCESSES"
  shows "length (processes s) = NUM_PROCESSES" "proc_wf i (processes s ! i)"
  using assms by (simp_all add: procs_wf_def)

lemma procs_wf_upd:
  assumes "procs_wf s" and "i < NUM_PROCESSES \<Longrightarrow> proc_wf i p"
  shows "procs_wf (s\<lparr>processes := (processes s)[i := p]\<rparr>)"
proof -
  have "proc_wf k ((processes s)[i := p] ! k)" if "k < NUM_PROCESSES" for k
    using assms that by (cases "k = i") (simp_all add: procs_wf_def)
  with assms(1) show ?thesis by (simp add: procs_wf_def)
qed

lemma procs_busy_upd:
  assumes "procs_wf s" and "i < NUM_PROCESSES"
  shows "procs_busy (s\<lparr>processes := (processes s)[i := p]\<rparr>) =
    (if p_pid p = 0 then procs_busy s - {i} else insert i (procs_busy s))"
  using assms by (auto simp: procs_busy_def procs_wf_def nth_list_update)

lemma NUM_PROCESSES_cases:
  assumes "i < NUM_PROCESSES"
  shows "i \<in> {0, 1, 2, 3, 4, 5, 6, 7, 8}"
  using assms unfolding NUM_PROCESSES_def by auto

lemma sint_pid: "i < NUM_PROCESSES \<Longrightarrow> sint (of_nat (i + 1) :: u32) = int i + 1"
  by (drule NUM_PROCESSES_cases) auto

lemma pid_word_nonzero: "i < NUM_PROCESSES \<Longrightarrow> (of_nat (i + 1) :: u32) \<noteq> 0"
  by (drule NUM_PROCESSES_cases) auto

lemma init_processes_loop_length [simp]: "length (init_processes_loop ps n) = length ps"
  by (induction n) (simp_all add: Let_def)

lemma init_processes_loop_nth:
  "n \<le> length ps \<Longrightarrow> i < length ps \<Longrightarrow>
   init_processes_loop ps n ! i = (if i < n then (ps ! i)\<lparr>p_pid := 0\<rparr> else ps ! i)"
  by (induction n) (auto simp: Let_def nth_list_update less_Suc_eq)

lemma init_processes_wf:
  "procs_wf s \<Longrightarrow> procs_wf (init_processes s)"
  by (auto simp: procs_wf_def init_processes_def init_processes_loop_nth proc_wf_def)

lemma init_processes_busy: "procs_wf s \<Longrightarrow> procs_busy (init_processes s) = {}"
  by (auto simp: procs_busy_def procs_wf_def init_processes_def init_processes_loop_nth)

text \<open>The slot the registration takes: the first free one, filled with the arguments.\<close>

definition filled :: "nat \<Rightarrow> byte list \<Rightarrow> u32 \<Rightarrow> u32 \<Rightarrow> u32 \<Rightarrow> u32 \<Rightarrow> int \<Rightarrow> u32 \<Rightarrow> proc \<Rightarrow> proc" where
  "filled i name cs ds ss entry_point ppid sz p =
     p\<lparr>p_pid := of_nat (i + 1),
       p_name := cval name @ 0 # drop (Suc (length (cval name))) (p_name p),
       p_ss := ss, p_ds := ds, p_cs := cs, p_ip := entry_point, p_ppid := word_of_int ppid,
       p_size := sz, p_state := READY\<rparr>"

lemma fill_slot_eq:
  "terminated name \<Longrightarrow> length (cval name) < length (p_name p) \<Longrightarrow>
   fill_slot i name cs ds ss entry_point ppid sz p = Inr (filled i name cs ds ss entry_point ppid sz p)"
  by (simp add: fill_slot_def filled_def strcpy_eq)

lemma filled_wf:
  "proc_wf i p \<Longrightarrow> length (cval name) < 32 \<Longrightarrow> proc_wf i (filled i name cs ds ss e ppid sz p)"
  by (simp add: proc_wf_def filled_def)

lemma register_proc_loop_found:
  "\<lbrakk>i \<le> j; j < NUM_PROCESSES; \<And>k. i \<le> k \<Longrightarrow> k < j \<Longrightarrow> p_pid (processes s ! k) \<noteq> 0;
    p_pid (processes s ! j) = 0; terminated name; length (cval name) < length (p_name (processes s ! j))\<rbrakk>
   \<Longrightarrow> register_proc_loop i name cs ds ss entry_point pid ppid sz s =
     Inr (int j + 1, int j + 1,
          s\<lparr>processes := (processes s)[j := filled j name cs ds ss entry_point ppid sz (processes s ! j)]\<rparr>)"
proof (induction "j - i" arbitrary: i)
  case 0
  then show ?case
    using sint_pid [of j]
    by (subst register_proc_loop.simps) (simp add: fill_slot_eq filled_def)
next
  case (Suc n)
  then show ?case by (subst register_proc_loop.simps) simp
qed

lemma register_proc_loop_full:
  "(\<And>k. i \<le> k \<Longrightarrow> k < NUM_PROCESSES \<Longrightarrow> p_pid (processes s ! k) \<noteq> 0) \<Longrightarrow>
   register_proc_loop i name cs ds ss entry_point pid ppid sz s = Inr (-1, pid, s)"
proof (induction "NUM_PROCESSES - i" arbitrary: i)
  case 0
  then show ?case by (subst register_proc_loop.simps) simp
next
  case (Suc n)
  then show ?case by (subst register_proc_loop.simps) simp
qed

lemma register_proc_first:
  assumes "procs_wf s" and "i < NUM_PROCESSES" and "i \<notin> procs_busy s" and "{..<i} \<subseteq> procs_busy s"
    and "terminated name" and "length (cval name) < 32"
  shows "register_proc name cs ds ss entry_point pid ppid sz s =
     Inr (int i + 1, int i + 1,
          s\<lparr>processes := (processes s)[i := filled i name cs ds ss entry_point ppid sz (processes s ! i)]\<rparr>)"
proof -
  have "length (p_name (processes s ! i)) = 32" "p_pid (processes s ! i) = 0"
    using procs_wfD [OF assms(1,2)] assms(2,3) by (simp_all add: proc_wf_def procs_busy_def)
  moreover have "p_pid (processes s ! k) \<noteq> 0" if "k < i" for k
    using assms(4) that by (auto simp: procs_busy_def)
  ultimately show ?thesis
    unfolding register_proc_def using assms by (intro register_proc_loop_found) simp_all
qed

lemma register_proc_full:
  "procs_busy s = {..<NUM_PROCESSES} \<Longrightarrow>
   register_proc name cs ds ss entry_point pid ppid sz s = Inr (-1, pid, s)"
  unfolding register_proc_def by (rule register_proc_loop_full) (auto simp: procs_busy_def)

lemma unregister_proc_eq:
  "i < NUM_PROCESSES \<Longrightarrow> unregister_proc (int i + 1) s =
   Inr (0, s\<lparr>processes := (processes s)[i := (processes s ! i)\<lparr>p_pid := 0\<rparr>]\<rparr>)"
  by (simp add: unregister_proc_def upd_proc_def)

lemma unregister_wf:
  "procs_wf s \<Longrightarrow> procs_wf (s\<lparr>processes := (processes s)[i := (processes s ! i)\<lparr>p_pid := 0\<rparr>]\<rparr>)"
  by (intro procs_wf_upd) (auto simp: procs_wf_def proc_wf_def)

section \<open>The process table is a slot table\<close>

text \<open>The state of the interface pairs the table with the name to register, a string that fits the
  name field.\<close>

definition reg_wf :: "byte list \<times> 'a sched_state_scheme \<Rightarrow> bool" where
  "reg_wf x \<longleftrightarrow> terminated (fst x) \<and> length (cval (fst x)) < 32 \<and> procs_wf (snd x)"

definition reg_alloc ::
    "u32 \<Rightarrow> u32 \<Rightarrow> u32 \<Rightarrow> u32 \<Rightarrow> int \<Rightarrow> int \<Rightarrow> u32 \<Rightarrow>
     byte list \<times> 'a sched_state_scheme \<Rightarrow> byte list \<times> 'a sched_state_scheme" where
  "reg_alloc cs ds ss e pid ppid sz x =
     (fst x, case register_proc (fst x) cs ds ss e pid ppid sz (snd x) of
               Inr (_, _, s) \<Rightarrow> s | Inl _ \<Rightarrow> snd x)"

definition reg_free :: "nat \<Rightarrow> byte list \<times> 'a sched_state_scheme \<Rightarrow> byte list \<times> 'a sched_state_scheme" where
  "reg_free i x =
     (fst x, case unregister_proc (int i + 1) (snd x) of Inr (_, s) \<Rightarrow> s | Inl _ \<Rightarrow> snd x)"

lemma procs_free_case:
  assumes "procs_wf s"
  obtains (free) i where "i < NUM_PROCESSES" "i \<notin> procs_busy s" "{..<i} \<subseteq> procs_busy s"
  | (full) "procs_busy s = {..<NUM_PROCESSES}"
proof (cases "\<exists>i<NUM_PROCESSES. i \<notin> procs_busy s")
  case True
  then show ?thesis by (rule least_gap) (rule free)
next
  case False
  then have "procs_busy s = {..<NUM_PROCESSES}" by (auto simp: procs_busy_def)
  then show ?thesis by (rule full)
qed

lemma reg_alloc_first:
  assumes "reg_wf x" "i < NUM_PROCESSES" "i \<notin> procs_busy (snd x)" "{..<i} \<subseteq> procs_busy (snd x)"
  shows "reg_alloc cs ds ss e pid ppid sz x = (fst x,
    snd x\<lparr>processes := (processes (snd x))[i := filled i (fst x) cs ds ss e ppid sz (processes (snd x) ! i)]\<rparr>)"
  using assms by (simp add: reg_alloc_def reg_wf_def register_proc_first [where i = i])

lemma reg_alloc_full:
  "procs_busy (snd x) = {..<NUM_PROCESSES} \<Longrightarrow> reg_alloc cs ds ss e pid ppid sz x = x"
  by (simp add: reg_alloc_def register_proc_full)

lemma reg_alloc_wf: "reg_wf x \<Longrightarrow> reg_wf (reg_alloc cs ds ss e pid ppid sz x)"
proof -
  assume x: "reg_wf x"
  then have "procs_wf (snd x)" by (simp add: reg_wf_def)
  then show ?thesis
  proof (cases rule: procs_free_case)
    case (free i)
    with x have "proc_wf i (processes (snd x) ! i)" by (simp add: reg_wf_def procs_wf_def)
    with x show ?thesis
      by (simp add: reg_alloc_first [OF x free]) (simp add: reg_wf_def procs_wf_upd filled_wf)
  next
    case full
    with x show ?thesis by (simp add: reg_alloc_full)
  qed
qed

interpretation procs: slot_table NUM_PROCESSES reg_wf "\<lambda>x. procs_busy (snd x)"
  "reg_alloc cs ds ss e pid ppid sz" reg_free
  for cs ds ss e pid ppid sz
proof (unfold_locales, goal_cases)
  case (1 x)
  then show ?case by (auto simp: procs_busy_def)
next
  case (2 x i)
  then have "procs_wf (snd x)" by (simp add: reg_wf_def)
  with 2 show ?case
    using pid_word_nonzero [of i]
    by (simp add: reg_alloc_first [where i = i] procs_busy_upd filled_def)
next
  case (3 x)
  then show ?case by (simp add: reg_alloc_full)
next
  case (4 x i)
  then show ?case
    by (simp add: reg_free_def unregister_proc_eq reg_wf_def procs_busy_upd)
next
  case (5 x)
  then show ?case by (rule reg_alloc_wf)
next
  case (6 x i)
  then show ?case
    by (auto simp: reg_free_def unregister_proc_def upd_proc_def reg_wf_def unregister_wf)
qed

end
