(* ===== verification/Segments.thy ===== *)
theory Segments
  imports Slots
begin

text \<open>
  The memory manager, mm/mm.c: ten 64K segments, of which the first two hold the interrupt
  vectors and the kernel.  \<open>get_free_seg\<close> leaves its local \<open>seg\<close> uninitialised; the model takes what
  the stack holds there as its first argument.
\<close>

record mem_seg =
  seg_used :: byte
  seg_address :: u32

definition NUM_SEG :: nat where
  "NUM_SEG = 10"

definition init_seg :: "mem_seg list \<Rightarrow> mem_seg list" where
  "init_seg seg_arr = seg_arr
     [0 := \<lparr>seg_used = 1, seg_address = 0x0000\<rparr>,
      1 := \<lparr>seg_used = 1, seg_address = 0x1000\<rparr>,
      2 := \<lparr>seg_used = 0, seg_address = 0x2000\<rparr>,
      3 := \<lparr>seg_used = 0, seg_address = 0x3000\<rparr>,
      4 := \<lparr>seg_used = 0, seg_address = 0x4000\<rparr>,
      5 := \<lparr>seg_used = 0, seg_address = 0x5000\<rparr>,
      6 := \<lparr>seg_used = 0, seg_address = 0x6000\<rparr>,
      7 := \<lparr>seg_used = 0, seg_address = 0x7000\<rparr>,
      8 := \<lparr>seg_used = 0, seg_address = 0x8000\<rparr>,
      9 := \<lparr>seg_used = 0, seg_address = 0x9000\<rparr>]"

function get_free_seg_loop :: "u32 \<Rightarrow> mem_seg list \<Rightarrow> nat \<Rightarrow> u32 \<times> mem_seg list" where
  "get_free_seg_loop seg seg_arr i =
     (if i < NUM_SEG
      then if seg_used (seg_arr ! i) = 0
           then (seg_address (seg_arr ! i), seg_arr[i := (seg_arr ! i)\<lparr>seg_used := 1\<rparr>])
           else get_free_seg_loop seg seg_arr (Suc i)
      else (seg, seg_arr))"
  by pat_completeness auto
termination
  by (relation "measure (\<lambda>(seg, seg_arr, i). NUM_SEG - i)") auto

definition get_free_seg :: "u32 \<Rightarrow> mem_seg list \<Rightarrow> u32 \<times> mem_seg list" where
  "get_free_seg seg seg_arr = get_free_seg_loop seg seg_arr 0"

function release_seg_loop :: "u32 \<Rightarrow> mem_seg list \<Rightarrow> nat \<Rightarrow> nat \<times> mem_seg list" where
  "release_seg_loop seg seg_arr i =
     (if i < NUM_SEG
      then if seg_address (seg_arr ! i) = seg
           then (i, seg_arr[i := (seg_arr ! i)\<lparr>seg_used := 0\<rparr>])
           else release_seg_loop seg seg_arr (Suc i)
      else (i, seg_arr))"
  by pat_completeness auto
termination
  by (relation "measure (\<lambda>(seg, seg_arr, i). NUM_SEG - i)") auto

definition release_seg :: "u32 \<Rightarrow> mem_seg list \<Rightarrow> nat \<times> mem_seg list" where
  "release_seg seg seg_arr = release_seg_loop seg seg_arr 0"

declare get_free_seg_loop.simps [simp del] release_seg_loop.simps [simp del]

section \<open>Well-formedness and the slots in use\<close>

definition seg_base :: "nat \<Rightarrow> u32" where
  "seg_base i = of_nat i * 0x1000"

definition segs_wf :: "mem_seg list \<Rightarrow> bool" where
  "segs_wf seg_arr \<longleftrightarrow> length seg_arr = NUM_SEG \<and> (\<forall>i<NUM_SEG. seg_address (seg_arr ! i) = seg_base i)"

definition segs_busy :: "mem_seg list \<Rightarrow> nat set" where
  "segs_busy seg_arr = {i. i < NUM_SEG \<and> seg_used (seg_arr ! i) \<noteq> 0}"

lemma NUM_SEG_cases:
  assumes "i < NUM_SEG"
  shows "i \<in> {0, 1, 2, 3, 4, 5, 6, 7, 8, 9}"
  using assms unfolding NUM_SEG_def by auto

lemma unat_seg_base: "i < NUM_SEG \<Longrightarrow> unat (seg_base i) = i * 4096"
  by (drule NUM_SEG_cases) (auto simp: seg_base_def)

lemma seg_base_inj: "i < NUM_SEG \<Longrightarrow> j < NUM_SEG \<Longrightarrow> seg_base i = seg_base j \<longleftrightarrow> i = j"
  by (metis mult_cancel2 unat_seg_base zero_neq_numeral)

lemma init_seg_nth:
  assumes "length seg_arr = NUM_SEG" and "i < NUM_SEG"
  shows "init_seg seg_arr ! i = \<lparr>seg_used = (if i < 2 then 1 else 0), seg_address = seg_base i\<rparr>"
  using NUM_SEG_cases [OF assms(2)] assms(1)
  by (auto simp: init_seg_def seg_base_def NUM_SEG_def)

lemma init_seg_wf: "length seg_arr = NUM_SEG \<Longrightarrow> segs_wf (init_seg seg_arr)"
  by (simp add: segs_wf_def init_seg_nth) (simp add: init_seg_def)

lemma init_seg_busy: "length seg_arr = NUM_SEG \<Longrightarrow> segs_busy (init_seg seg_arr) = {..<2}"
proof -
  assume l: "length seg_arr = NUM_SEG"
  have "i < NUM_SEG \<and> seg_used (init_seg seg_arr ! i) \<noteq> 0 \<longleftrightarrow> i < 2" for i
    using init_seg_nth [OF l, of i] by (cases "i < 2") (simp_all add: NUM_SEG_def)
  then show ?thesis by (simp add: segs_busy_def lessThan_def)
qed

lemma get_free_seg_loop_found:
  "\<lbrakk>i \<le> j; j < NUM_SEG; \<And>k. i \<le> k \<Longrightarrow> k < j \<Longrightarrow> seg_used (seg_arr ! k) \<noteq> 0; seg_used (seg_arr ! j) = 0\<rbrakk>
   \<Longrightarrow> get_free_seg_loop seg seg_arr i
     = (seg_address (seg_arr ! j), seg_arr[j := (seg_arr ! j)\<lparr>seg_used := 1\<rparr>])"
proof (induction "j - i" arbitrary: i)
  case 0
  then show ?case by (subst get_free_seg_loop.simps) simp
next
  case (Suc n)
  then show ?case by (subst get_free_seg_loop.simps) simp
qed

lemma get_free_seg_loop_full:
  "(\<And>k. i \<le> k \<Longrightarrow> k < NUM_SEG \<Longrightarrow> seg_used (seg_arr ! k) \<noteq> 0) \<Longrightarrow>
   get_free_seg_loop seg seg_arr i = (seg, seg_arr)"
proof (induction "NUM_SEG - i" arbitrary: i)
  case 0
  then show ?case by (subst get_free_seg_loop.simps) simp
next
  case (Suc n)
  then show ?case by (subst get_free_seg_loop.simps) simp
qed

lemma release_seg_loop_found:
  "\<lbrakk>segs_wf seg_arr; i \<le> j; j < NUM_SEG\<rbrakk> \<Longrightarrow>
   release_seg_loop (seg_base j) seg_arr i = (j, seg_arr[j := (seg_arr ! j)\<lparr>seg_used := 0\<rparr>])"
proof (induction "j - i" arbitrary: i)
  case 0
  then show ?case by (subst release_seg_loop.simps) (simp add: segs_wf_def)
next
  case (Suc n)
  then show ?case by (subst release_seg_loop.simps) (simp add: segs_wf_def seg_base_inj)
qed

lemma get_free_seg_first:
  assumes "segs_wf seg_arr" and "i < NUM_SEG" and "i \<notin> segs_busy seg_arr" and "{..<i} \<subseteq> segs_busy seg_arr"
  shows "get_free_seg seg seg_arr = (seg_base i, seg_arr[i := (seg_arr ! i)\<lparr>seg_used := 1\<rparr>])"
  using assms unfolding get_free_seg_def
  by (subst get_free_seg_loop_found [where j = i]) (auto simp: segs_wf_def segs_busy_def)

lemma get_free_seg_full:
  "segs_busy seg_arr = {..<NUM_SEG} \<Longrightarrow> get_free_seg seg seg_arr = (seg, seg_arr)"
  unfolding get_free_seg_def segs_busy_def by (rule get_free_seg_loop_full) auto

lemma release_seg_known:
  "segs_wf seg_arr \<Longrightarrow> i < NUM_SEG \<Longrightarrow>
   release_seg (seg_base i) seg_arr = (i, seg_arr[i := (seg_arr ! i)\<lparr>seg_used := 0\<rparr>])"
  by (simp add: release_seg_def release_seg_loop_found)

lemma segs_wf_update:
  "segs_wf seg_arr \<Longrightarrow> segs_wf (seg_arr[i := (seg_arr ! i)\<lparr>seg_used := v\<rparr>])"
  by (cases "i < NUM_SEG") (auto simp: segs_wf_def nth_list_update)

lemma segs_busy_update:
  "segs_wf seg_arr \<Longrightarrow> i < NUM_SEG \<Longrightarrow>
   segs_busy (seg_arr[i := (seg_arr ! i)\<lparr>seg_used := v\<rparr>]) =
     (if v = 0 then segs_busy seg_arr - {i} else insert i (segs_busy seg_arr))"
  by (auto simp: segs_busy_def segs_wf_def nth_list_update)

lemma segs_free_case:
  assumes "segs_wf seg_arr"
  obtains (free) i where "i < NUM_SEG" "i \<notin> segs_busy seg_arr" "{..<i} \<subseteq> segs_busy seg_arr"
  | (full) "segs_busy seg_arr = {..<NUM_SEG}"
proof (cases "\<exists>i<NUM_SEG. i \<notin> segs_busy seg_arr")
  case True
  then show ?thesis by (rule least_gap) (rule free)
next
  case False
  then have "segs_busy seg_arr = {..<NUM_SEG}" by (auto simp: segs_busy_def)
  then show ?thesis by (rule full)
qed

lemma segs_wf_release_loop: "segs_wf seg_arr \<Longrightarrow> segs_wf (snd (release_seg_loop seg seg_arr i))"
proof (induction seg seg_arr i rule: release_seg_loop.induct)
  case (1 seg seg_arr i)
  then show ?case
    by (subst release_seg_loop.simps) (simp add: segs_wf_update)
qed

interpretation mm: slot_table NUM_SEG segs_wf segs_busy
  "\<lambda>seg_arr. snd (get_free_seg seg seg_arr)" "\<lambda>i seg_arr. snd (release_seg (seg_base i) seg_arr)"
  for seg
proof (unfold_locales, goal_cases)
  case (1 s)
  then show ?case by (auto simp: segs_busy_def)
next
  case (2 s i)
  then show ?case by (simp add: get_free_seg_first segs_busy_update)
next
  case (3 s)
  then show ?case by (simp add: get_free_seg_full)
next
  case (4 s i)
  then show ?case by (simp add: release_seg_known segs_busy_update)
next
  case (5 s)
  from 5 5 show ?case
    by (cases rule: segs_free_case)
      (simp_all add: get_free_seg_first get_free_seg_full segs_wf_update)
next
  case (6 s i)
  then show ?case by (simp add: release_seg_def segs_wf_release_loop)
qed

end
