(* ===== verification/Numbers.thy ===== *)
theory Numbers
  imports CString "HOL-Library.Signed_Division"
begin

text \<open>
  Number formatting: \<open>uitoa\<close> of kernel/kernio.c and \<open>itoa\<close>, \<open>ultoa\<close> of lib/stdlib.c.  Each writes
  the decimal digits backwards into a static buffer and returns a pointer \<open>p\<close> into it; the model
  passes the buffer and returns it with the offset \<open>p\<close>.  The reference is \<open>dec\<close>, with \<open>dec_value\<close>
  as its inverse.
\<close>

section \<open>The code\<close>

text \<open>\<open>do { *--p = '0' + (i % 10); i /= 10; } while (i != 0);\<close> on an unsigned \<open>i\<close>.  A store below
  the start of the buffer is a fault.\<close>

fun digits_loop :: "byte list \<Rightarrow> nat \<Rightarrow> nat \<Rightarrow> (byte list \<times> nat) res" where
  "digits_loop buf 0 i = Inl WritePast"
| "digits_loop buf (Suc p) i =
     rbind (store_byte buf p (48 + of_nat (i mod 10))) (\<lambda>buf'.
       if i div 10 \<noteq> 0 then digits_loop buf' p (i div 10) else Inr (buf', p))"

definition uitoa :: "byte list \<Rightarrow> u32 \<Rightarrow> (byte list \<times> nat) res" where
  "uitoa buf i = digits_loop buf (5 + 1) (unat i)"

text \<open>The loops of \<open>itoa\<close>, on a signed \<open>i\<close> with C's truncating division; the flag says whether the
  remainder is added to or subtracted from \<open>'0'\<close>.\<close>

fun itoa_loop :: "bool \<Rightarrow> byte list \<Rightarrow> nat \<Rightarrow> int \<Rightarrow> (byte list \<times> nat) res" where
  "itoa_loop neg buf 0 i = Inl WritePast"
| "itoa_loop neg buf (Suc p) i =
     rbind (store_byte buf p (word_of_int (if neg then 48 - i smod 10 else 48 + i smod 10))) (\<lambda>buf'.
       if i sdiv 10 \<noteq> 0 then itoa_loop neg buf' p (i sdiv 10) else Inr (buf', p))"

definition put_before :: "byte list \<Rightarrow> nat \<Rightarrow> byte \<Rightarrow> (byte list \<times> nat) res" where
  "put_before buf p c =
     (case p of 0 \<Rightarrow> Inl WritePast
      | Suc q \<Rightarrow> rbind (store_byte buf q c) (\<lambda>buf'. Inr (buf', q)))"

definition itoa :: "byte list \<Rightarrow> int \<Rightarrow> (byte list \<times> nat) res" where
  "itoa buf i =
     rbind (store_byte buf 6 0) (\<lambda>buf.
       if i \<ge> 0 then itoa_loop False buf (5 + 1) i
       else rbind (itoa_loop True buf (5 + 1) i) (\<lambda>(buf', p). put_before buf' p 45))"

text \<open>The second branch of \<open>ultoa\<close> is in the source too, under a test that an unsigned value never
  fails.\<close>

definition ultoa :: "byte list \<Rightarrow> u32 \<Rightarrow> (byte list \<times> nat) res" where
  "ultoa buf i =
     rbind (store_byte buf 11 0) (\<lambda>buf.
       if i \<ge> 0 then digits_loop buf (10 + 1) (unat i)
       else rbind (itoa_loop True buf (10 + 1) (uint i)) (\<lambda>(buf', p). put_before buf' p 45))"

section \<open>Decimal numerals\<close>

fun dec :: "nat \<Rightarrow> byte list" where
  "dec n = (if n < 10 then [48 + of_nat n] else dec (n div 10) @ [48 + of_nat (n mod 10)])"

declare dec.simps [simp del]

definition dec_value :: "byte list \<Rightarrow> nat" where
  "dec_value ds = foldl (\<lambda>a c. 10 * a + (unat c - 48)) 0 ds"

lemma unat_digit: "d < 10 \<Longrightarrow> unat (48 + of_nat d :: byte) = 48 + d"
  by (simp add: unat_word_ariths unat_of_nat)

lemma dec_step: "n \<ge> 10 \<Longrightarrow> dec n = dec (n div 10) @ [48 + of_nat (n mod 10)]"
  by (subst dec.simps) simp

lemma dec_digit: "n < 10 \<Longrightarrow> dec n = [48 + of_nat n]"
  by (subst dec.simps) simp

lemma dec_value_dec: "dec_value (dec n) = n"
proof (induction n rule: dec.induct)
  case (1 n)
  then show ?case
    by (cases "n < 10") (simp_all add: dec_digit dec_step dec_value_def unat_digit not_less)
qed

lemma dec_nonempty: "dec n \<noteq> []"
  by (subst dec.simps) simp

lemma dec_digits: "c \<in> set (dec n) \<Longrightarrow> 48 \<le> unat c \<and> unat c < 58"
proof (induction n rule: dec.induct)
  case (1 n)
  then show ?case
    by (cases "n < 10") (auto simp: dec_digit dec_step unat_digit not_less)
qed

lemma dec_no_NUL: "0 \<notin> set (dec n)"
  using dec_digits by fastforce

lemma dec_length: "length (dec n) \<le> Suc k \<longleftrightarrow> n < 10 ^ Suc k"
proof (induction k arbitrary: n)
  case 0
  show ?case
    by (cases "n < 10") (simp_all add: dec_digit dec_step dec_nonempty not_less Suc_le_eq)
next
  case (Suc k)
  show ?case
  proof (cases "n < 10")
    case True
    have "(10::nat) \<le> 10 ^ Suc (Suc k)"
      using one_le_power [of "10::nat" "Suc k"] by simp
    with True have "n < 10 ^ Suc (Suc k)" by (rule less_le_trans)
    with True show ?thesis by (simp add: dec_digit)
  next
    case False
    then show ?thesis
      using Suc.IH [of "n div 10"] by (simp add: dec_step div_less_iff_less_mult not_less mult.commute)
  qed
qed

section \<open>What the code computes\<close>

lemma digits_loop_eq:
  "p \<le> length buf \<Longrightarrow>
   digits_loop buf p n =
     (if length (dec n) \<le> p
      then Inr (take (p - length (dec n)) buf @ dec n @ drop p buf, p - length (dec n))
      else Inl WritePast)"
proof (induction p arbitrary: buf n)
  case 0
  then show ?case using dec_nonempty [of n] by simp
next
  case (Suc p)
  let ?b = "buf[p := 48 + of_nat (n mod 10)]"
  show ?case
  proof (cases "n < 10")
    case True
    then show ?thesis
      using Suc.prems by (simp add: dec_digit upd_conv_take_nth_drop)
  next
    case False
    then have d: "dec n = dec (n div 10) @ [48 + of_nat (n mod 10)]"
      by (simp add: dec_step)
    have "digits_loop buf (Suc p) n = digits_loop ?b p (n div 10)"
      using False Suc.prems by (simp add: div_eq_0_iff)
    also have "\<dots> = (if length (dec (n div 10)) \<le> p
        then Inr (take (p - length (dec (n div 10))) ?b @ dec (n div 10) @ drop p ?b,
                  p - length (dec (n div 10)))
        else Inl WritePast)"
      using Suc.prems by (intro Suc.IH) simp
    finally show ?thesis
      using Suc.prems by (simp add: d upd_conv_take_nth_drop)
  qed
qed

lemma sdiv_nat: "int n sdiv 10 = int (n div 10)" "int n smod 10 = int (n mod 10)"
  by (simp_all add: signed_divide_int_def signed_modulo_int_def sgn_if zdiv_int zmod_int)

lemma sdiv_neg_nat: "(- int n) sdiv 10 = - int (n div 10)" "(- int n) smod 10 = - int (n mod 10)"
  by (simp_all add: signed_divide_int_def signed_modulo_int_def sgn_if zdiv_int zmod_int)

lemma itoa_loop_eq:
  "itoa_loop False buf p (int n) = digits_loop buf p n"
  "itoa_loop True buf p (- int n) = digits_loop buf p n"
  by (induction p arbitrary: buf n) (simp_all add: sdiv_nat sdiv_neg_nat cong: if_cong)

text \<open>The string a formatting routine returns: the bytes from its pointer up to the NUL.\<close>

definition text_at :: "(byte list \<times> nat) \<Rightarrow> byte list" where
  "text_at r = cval (drop (snd r) (fst r))"

lemma uitoa_eq:
  assumes "length buf = 7" and "buf ! 6 = 0" and "unat i < 10 ^ 6"
  shows "\<exists>b p. uitoa buf i = Inr (b, p) \<and> length b = 7 \<and> b ! 6 = 0
    \<and> terminated (drop p b) \<and> cval (drop p b) = dec (unat i)"
proof -
  let ?l = "length (dec (unat i))"
  have d: "drop 6 buf = [0]"
    using assms by (simp add: drop_tail_cons)
  have l: "?l \<le> 6"
    using dec_length [of "unat i" 5] assms(3) by simp
  have u: "uitoa buf i = Inr (take (6 - ?l) buf @ dec (unat i) @ [0], 6 - ?l)"
    using assms d l by (simp add: uitoa_def digits_loop_eq)
  have m: "min 7 (6 - ?l) = 6 - ?l" by simp
  moreover have "(take (6 - ?l) buf @ dec (unat i) @ [0]) ! 6 = 0"
    using assms l by (auto simp: nth_append)
  ultimately show ?thesis
    unfolding u using l assms
    by (intro exI [of _ "take (6 - ?l) buf @ dec (unat i) @ [0]"] exI [of _ "6 - ?l"])
      (simp add: cval_append_NUL dec_no_NUL terminated_def)
qed

text \<open>C40: \<open>uitoa\<close> succeeds exactly on values of at most six digits: it then returns the decimal
  numeral, which reads back as the argument, and leaves the last byte of its buffer NUL for the
  next call.  A larger unsigned value makes it store below the start of its static buffer.\<close>

theorem uitoa_correct:
  assumes "length buf = 7" and "buf ! 6 = 0"
  shows "case uitoa buf i of
      Inr r \<Rightarrow> unat i < 10 ^ 6 \<and> text_at r = dec (unat i) \<and> dec_value (text_at r) = unat i
        \<and> terminated (drop (snd r) (fst r)) \<and> length (fst r) = 7 \<and> fst r ! 6 = 0
    | Inl f \<Rightarrow> 10 ^ 6 \<le> unat i \<and> f = WritePast"
proof -
  let ?n = "unat i" and ?l = "length (dec (unat i))"
  have d: "drop 6 buf = [0]"
    using assms by (simp add: drop_tail_cons)
  have l: "?l \<le> 6 \<longleftrightarrow> ?n < 10 ^ 6"
    using dec_length [of ?n 5] by simp
  show ?thesis
  proof (cases "?n < 10 ^ 6")
    case True
    with l have u: "uitoa buf i = Inr (take (6 - ?l) buf @ dec ?n @ [0], 6 - ?l)"
      using assms d by (simp add: uitoa_def digits_loop_eq)
    have "min 7 (6 - ?l) = 6 - ?l" by simp
    moreover have "(take (6 - ?l) buf @ dec ?n @ [0]) ! 6 = 0"
      using assms l True by (auto simp: nth_append)
    ultimately show ?thesis
      unfolding u using True l assms
      by (simp add: text_at_def cval_append_NUL dec_no_NUL dec_value_dec terminated_def)
  next
    case False
    with l assms show ?thesis by (simp add: uitoa_def digits_loop_eq)
  qed
qed

theorem uitoa_correct_witness:
  "(case uitoa (replicate 7 0) 224 of
      Inr r \<Rightarrow> unat (224 :: u32) < 10 ^ 6 \<and> text_at r = dec (unat (224 :: u32))
        \<and> dec_value (text_at r) = unat (224 :: u32)
        \<and> terminated (drop (snd r) (fst r)) \<and> length (fst r) = 7 \<and> fst r ! 6 = 0
    | Inl f \<Rightarrow> 10 ^ 6 \<le> unat (224 :: u32) \<and> f = WritePast)
   \<and> dec 224 = lit ''224''"
proof -
  have "length (replicate 7 (0 :: byte)) = 7" "replicate 7 (0 :: byte) ! 6 = 0" by simp_all
  from uitoa_correct [OF this, of 224] show ?thesis
    by (simp add: dec_step dec_digit)
qed

text \<open>The numeral of a signed number.\<close>

definition decimal :: "int \<Rightarrow> byte list" where
  "decimal i = (if i < 0 then 45 # dec (nat (- i)) else dec (nat i))"

lemma decimal_no_NUL: "0 \<notin> set (decimal i)"
  by (simp add: decimal_def dec_no_NUL)

lemma itoa_eq:
  assumes "length buf = 7"
  shows "if - (10 ^ 5) < i \<and> i < 10 ^ 6
    then \<exists>b p. itoa buf i = Inr (b, p) \<and> length b = 7 \<and> drop p b = decimal i @ [0]
    else itoa buf i = Inl WritePast"
proof -
  let ?b = "buf[6 := 0]" and ?n = "nat \<bar>i\<bar>"
  have d: "drop 6 ?b = [0]" and b: "length ?b = 7"
    using assms by (simp_all add: drop_tail_cons)
  have l6: "length (dec ?n) \<le> 6 \<longleftrightarrow> \<bar>i\<bar> < 10 ^ 6" and l5: "length (dec ?n) \<le> 5 \<longleftrightarrow> \<bar>i\<bar> < 10 ^ 5"
    using dec_length [of ?n 5] dec_length [of ?n 4] by (simp_all add: nat_less_iff)
  have loop: "digits_loop ?b 6 ?n = (if length (dec ?n) \<le> 6
      then Inr (take (6 - length (dec ?n)) ?b @ dec ?n @ [0], 6 - length (dec ?n)) else Inl WritePast)"
    using b d by (simp add: digits_loop_eq)
  show ?thesis
  proof (cases "0 \<le> i")
    case True
    then have "itoa buf i = digits_loop ?b 6 ?n"
      using itoa_loop_eq(1) [of ?b 6 ?n] assms by (simp add: itoa_def)
    with True show ?thesis
      unfolding loop using l6 b
      by (auto simp: decimal_def)
  next
    case False
    then have i: "itoa buf i = rbind (digits_loop ?b 6 ?n) (\<lambda>(buf', p). put_before buf' p 45)"
      using itoa_loop_eq(2) [of ?b 6 ?n] assms by (simp add: itoa_def)
    show ?thesis
    proof (cases "length (dec ?n) \<le> 5")
      case True
      define q where "q = 5 - length (dec ?n)"
      have q: "6 - length (dec ?n) = Suc q" "6 = Suc q + length (dec ?n)"
        using True by (simp_all add: q_def)
      let ?r = "(take (Suc q) ?b @ dec ?n @ [0])[q := 45]"
      have "put_before (take (Suc q) ?b @ dec ?n @ [0]) (Suc q) 45 = Inr (?r, q)"
        using b q by (simp add: put_before_def store_byte_def)
      then have "itoa buf i = Inr (?r, q)"
        unfolding i loop q(1) using True by simp
      moreover have "drop q ?r = 45 # dec ?n @ [0]"
        using b q by (simp add: upd_conv_take_nth_drop)
      moreover have "- (10 ^ 5) < i" "nat \<bar>i\<bar> = nat (- i)"
        using True False l5 by simp_all
      moreover have "length ?r = 7" using b q by simp
      ultimately show ?thesis
        using False by (auto simp: decimal_def)
    next
      case neg: False
      then show ?thesis
        unfolding i loop using False l5 by (simp add: put_before_def)
    qed
  qed
qed

text \<open>How a reader takes a numeral, from its first character on.\<close>

fun read_digits :: "int \<Rightarrow> byte list \<Rightarrow> int" where
  "read_digits acc [] = acc"
| "read_digits acc (c # cs) = read_digits (10 * acc + int (unat c) - 48) cs"

definition read_number :: "byte list \<Rightarrow> int" where
  "read_number t = (if t \<noteq> [] \<and> hd t = 45 then - read_digits 0 (tl t) else read_digits 0 t)"

lemma read_digits_value:
  "\<forall>c\<in>set ds. 48 \<le> unat c \<Longrightarrow> read_digits (int a) ds = int (foldl (\<lambda>a c. 10 * a + (unat c - 48)) a ds)"
proof (induction ds arbitrary: a)
  case (Cons c ds)
  then have "10 * int a + int (unat c) - 48 = int (10 * a + (unat c - 48))" by (simp add: of_nat_diff)
  with Cons show ?case by (simp del: of_nat_add of_nat_mult)
qed simp

lemma read_digits_dec: "read_digits 0 (dec n) = int n"
  using read_digits_value [of "dec n" 0] dec_digits dec_value_dec [of n] by (simp add: dec_value_def)

lemma read_number_decimal: "read_number (decimal i) = i"
proof -
  have "hd (dec n) \<noteq> 45" for n
    using dec_digits [of "hd (dec n)" n] dec_nonempty [of n] by auto
  then show ?thesis by (simp add: read_number_def decimal_def read_digits_dec dec_nonempty)
qed

text \<open>C36: the text \<open>itoa\<close> makes of a signed value reads back as that value, for every value of at most six digits, and of at most five
  behind a minus sign; beyond that \<open>itoa\<close> stores below its buffer of seven bytes.\<close>

theorem itoa_reads_back:
  assumes "length buf = 7"
  shows "case itoa buf i of
      Inr r \<Rightarrow> - (10 ^ 5) < i \<and> i < 10 ^ 6 \<and> read_number (text_at r) = i
    | Inl f \<Rightarrow> (i \<le> - (10 ^ 5) \<or> 10 ^ 6 \<le> i) \<and> f = WritePast"
  using itoa_eq [OF assms, of i]
  by (auto simp: text_at_def cval_append_NUL decimal_no_NUL read_number_decimal split: if_splits)

theorem itoa_reads_back_witness:
  "(case itoa (replicate 7 1) (- 307) of Inr r \<Rightarrow> read_number (text_at r) = - 307 | Inl f \<Rightarrow> False)
   \<and> itoa (replicate 7 1) (- 100000) = Inl WritePast"
  using itoa_reads_back [of "replicate 7 1" "- 307"] itoa_reads_back [of "replicate 7 1" "- 100000"]
  by (auto split: sum.splits)

lemma ultoa_eq:
  assumes "length buf = 12"
  shows "\<exists>b p. ultoa buf i = Inr (b, p) \<and> length b = 12 \<and> drop p b = dec (unat i) @ [0]"
proof -
  let ?b = "buf[11 := 0]" and ?n = "unat i"
  have d: "drop 11 ?b = [0]" and b: "length ?b = 12"
    using assms by (simp_all add: drop_tail_cons)
  have "?n < 10 ^ 11" using unat_lt_u32 [of i] by simp
  then have l: "length (dec ?n) \<le> 11" using dec_length [of ?n 10] by simp
  then have "ultoa buf i = Inr (take (11 - length (dec ?n)) ?b @ dec ?n @ [0], 11 - length (dec ?n))"
    using assms b d by (simp add: ultoa_def digits_loop_eq)
  then show ?thesis
    using b l by simp
qed

end
