(* ===== verification/Floppy.thy ===== *)
theory Floppy
  imports RML_Prelude
begin

text \<open>
  The floppy drive: sector addresses (\<open>lba_to_chs\<close> of kernel/kernio.c) and the BIOS the kernel
  calls through kernel/bios.c.  The BIOS, the disk behind it and the values of uninitialised
  locals are not code of the repository; \<open>env\<close> collects them as the parameter of the model.
\<close>

section \<open>Sector addresses\<close>

text \<open>The results go to \<open>unsigned char\<close> variables, in the order cylinder, head, sector.\<close>

definition lba_to_chs :: "u32 \<Rightarrow> byte \<Rightarrow> byte \<Rightarrow> byte \<Rightarrow> (byte \<times> byte \<times> byte) res" where
  "lba_to_chs lba cylinders heads sectors =
     (if sectors = 0 \<or> heads = 0 then Inl DivByZero
      else Inr (ucast (lba div (ucast sectors * ucast heads)),
                ucast ((lba + 1) div ucast sectors mod ucast heads),
                ucast (lba mod ucast sectors + 1)))"

text \<open>The 1.44 MB geometry of the code (80 cylinders, 2 heads, 18 sectors) and the numbering of its
  sectors: the reference for \<open>lba_to_chs\<close>.\<close>

definition chs_lba :: "byte \<times> byte \<times> byte \<Rightarrow> nat" where
  "chs_lba chs = (case chs of (c, h, s) \<Rightarrow> (unat c * 2 + unat h) * 18 + unat s - 1)"

definition lba_chs :: "nat \<Rightarrow> byte \<times> byte \<times> byte" where
  "lba_chs l = (of_nat (l div 36), of_nat (l div 18 mod 2), of_nat (l mod 18 + 1))"

text \<open>The sector the code addresses for a given number: it takes the head from the number plus one,
  so the last sector of each track is looked up on the other side.\<close>

definition chs_slip :: "nat \<Rightarrow> nat" where
  "chs_slip l = (if l mod 36 = 17 then l + 18 else if l mod 36 = 35 then l - 18 else l)"

lemma chs_lba_lba_chs:
  assumes "l < 2880"
  shows "chs_lba (lba_chs l) = l"
proof -
  have "l div 36 < 256" "l div 18 mod 2 < 256" "l mod 18 + 1 < 256"
    using assms by simp_all
  then have "chs_lba (lba_chs l) = (l div 36 * 2 + l div 18 mod 2) * 18 + (l mod 18 + 1) - 1"
    by (simp only: chs_lba_def lba_chs_def prod.case unat_byte_of_nat)
  also have "l div 36 * 2 + l div 18 mod 2 = l div 18"
    using div_mult2_eq [of l 18 2] by simp
  finally show ?thesis by simp
qed

lemma lba_chs_inj: "l < 2880 \<Longrightarrow> m < 2880 \<Longrightarrow> lba_chs l = lba_chs m \<longleftrightarrow> l = m"
  by (metis chs_lba_lba_chs)

lemma lba_to_chs_nat:
  assumes "l < 2880"
  shows "lba_to_chs (of_nat l) 80 2 18 =
    Inr (of_nat (l div 36), of_nat ((l + 1) div 18 mod 2), of_nat (l mod 18 + 1))"
proof -
  let ?w = "of_nat l :: u32"
  have w: "unat ?w = l" "unat (?w + 1) = l + 1"
    using assms by (simp_all add: unat_u32_of_nat unat_u32_add)
  have "unat (?w div 36) = l div 36" "unat ((?w + 1) div 18 mod 2) = (l + 1) div 18 mod 2"
    "unat (?w mod 18) = l mod 18"
    by (simp_all add: unat_div unat_mod w)
  moreover from this have "unat (?w mod 18 + 1) = l mod 18 + 1"
    by (simp add: unat_u32_add)
  ultimately show ?thesis
    unfolding lba_to_chs_def by (simp add: ucast_byte_unat del: of_nat_add of_nat_Suc)
qed

lemma track_arith:
  assumes "(x :: nat) < 36"
  shows "(36 * q + x) div 36 = q" "(36 * q + x) div 18 mod 2 = (if x < 18 then 0 else 1)"
    "(36 * q + x) mod 36 = x" "(36 * q + x) mod 18 = (if x < 18 then x else x - 18)"
proof -
  show "(36 * q + x) div 36 = q" "(36 * q + x) mod 36 = x"
    using assms by simp_all
  have d: "(36 * q + x) div 18 = 2 * q + x div 18" and m: "(36 * q + x) mod 18 = x mod 18"
    using div_mult_self2 [of 18 x "2 * q"] mod_mult_self2 [of x 18 "2 * q"]
    by (simp_all add: algebra_simps)
  show "(36 * q + x) div 18 mod 2 = (if x < 18 then 0 else 1)"
    unfolding d using assms by (auto simp: div_nat_eqI)
  show "(36 * q + x) mod 18 = (if x < 18 then x else x - 18)"
    unfolding m using assms by (auto simp: mod_if)
qed

lemma chs_slip_track:
  assumes "x < 36"
  shows "chs_slip (36 * q + x) = 36 * q + (if x = 17 then 35 else if x = 35 then 17 else x)"
  using track_arith(3) [OF assms, of q] by (auto simp: chs_slip_def)

lemma chs_slip_fixed: "chs_slip l = l \<longleftrightarrow> l mod 18 \<noteq> 17"
proof -
  define q x where "q = l div 36" and "x = l mod 36"
  have l: "l = 36 * q + x" and x: "x < 36" by (simp_all add: q_def x_def)
  show ?thesis
    unfolding l chs_slip_track [OF x] track_arith(4) [OF x] using x by auto
qed

lemma chs_slip_head:
  "lba_chs (chs_slip l) = (of_nat (l div 36), of_nat ((l + 1) div 18 mod 2), of_nat (l mod 18 + 1))"
proof -
  define q x where "q = l div 36" and "x = l mod 36"
  have l: "l = 36 * q + x" and x: "x < 36" by (simp_all add: q_def x_def)
  let ?y = "if x = 17 then 35 else if x = 35 then 17 else x :: nat"
  have y: "?y < 36" using x by simp
  have head: "(l + 1) div 18 mod 2 = (if ?y < 18 then 0 else 1)"
  proof (cases "x = 35")
    case True
    then have "l + 1 = 36 * (q + 1) + 0" by (simp add: l)
    then show ?thesis using track_arith(2) [of 0 "q + 1"] True by simp
  next
    case False
    then have "x + 1 < 36" using x by simp
    then show ?thesis
      using track_arith(2) [of "x + 1" q] False by (simp add: l)
  qed
  have "lba_chs (chs_slip l) = (of_nat q, of_nat (if ?y < 18 then 0 else 1), of_nat ((if ?y < 18 then ?y else ?y - 18) + 1))"
    unfolding lba_chs_def l chs_slip_track [OF x] track_arith [OF y] ..
  moreover have "(if ?y < 18 then ?y else ?y - 18) = l mod 18"
    unfolding l track_arith(4) [OF x] by auto
  moreover have "l div 36 = q" by (simp add: q_def)
  ultimately show ?thesis by (simp only: head)
qed

text \<open>C35: on a 1.44 MB floppy, \<open>lba_to_chs\<close> addresses the sector it is asked for, except the last
  sector of every track: sectors 17 and 35 of each cylinder are exchanged.\<close>

theorem lba_to_chs_swaps_last_sectors:
  assumes "l < 2880"
  shows "lba_to_chs (of_nat l) 80 2 18 = Inr (lba_chs (chs_slip l))
    \<and> (chs_slip l = l \<longleftrightarrow> l mod 18 \<noteq> 17)"
  unfolding lba_to_chs_nat [OF assms] chs_slip_head using chs_slip_fixed by simp

theorem lba_to_chs_swaps_last_sectors_witness:
  "lba_to_chs (of_nat 17) 80 2 18 = Inr (lba_chs 35) \<and> lba_to_chs (of_nat 35) 80 2 18 = Inr (lba_chs 17)
   \<and> lba_to_chs (of_nat 36) 80 2 18 = Inr (lba_chs 36)"
  using lba_to_chs_swaps_last_sectors [of 17] lba_to_chs_swaps_last_sectors [of 35]
    lba_to_chs_swaps_last_sectors [of 36]
  by (simp add: chs_slip_def)

end
