(* ===== verification/Kernel_State.thy ===== *)
theory Kernel_State
  imports Process_Table Segments Numbers Floppy
begin

text \<open>
  The kernel's global variables as one record, the environment the kernel runs in, and the BIOS
  services of kernel/bios.c.
\<close>

section \<open>The environment\<close>

text \<open>
  \<open>bios_int13 drive cylinder head sector\<close> is what BIOS service 13h/02h answers for one sector: the
  status in AH and the 512 bytes the buffer then holds.  The \<open>junk\<close> fields are what uninitialised
  locals and the stack behind \<open>sector_buf\<close> hold; the clock registers are those of service 1Ah.
\<close>

record env =
  bios_int13 :: "byte \<Rightarrow> byte \<Rightarrow> byte \<Rightarrow> byte \<Rightarrow> byte \<times> byte list"
  past_sector_buf :: "byte list"
  junk_bytes_read :: u32
  junk_seg :: u32
  junk_pid :: int
  junk_entries :: "byte list list"
  junk_clust_buf :: "byte list"
  junk_name :: "byte list"
  junk_ext :: "byte list"
  junk_fat_table :: "byte list"
  rtc_date :: "byte \<times> byte \<times> byte \<times> byte"
  rtc_time :: "byte \<times> byte \<times> byte"

text \<open>What the BIOS and the C memory layout document: a sector has 512 bytes, and the buffers have
  the size of their declarations.\<close>

definition env_ok :: "env \<Rightarrow> bool" where
  "env_ok e \<longleftrightarrow> (\<forall>d c h s. length (snd (bios_int13 e d c h s)) = 512)
     \<and> length (past_sector_buf e) = 512 \<and> length (junk_clust_buf e) = 4096
     \<and> length (junk_entries e) = 256 \<and> list_all (\<lambda>b. length b = 32) (junk_entries e)
     \<and> length (junk_name e) = 9 \<and> length (junk_ext e) = 4 \<and> length (junk_fat_table e) = 1024"

section \<open>The state\<close>

text \<open>What the outside sees of the kernel, in order.\<close>

datatype event = EvChar byte | EvHalt | EvReboot | EvSti | EvCli | EvOut u16 byte

record section_positions =
  fat_section_start :: u32
  data_section_start :: u32
  root_directory_start :: u32

text \<open>
  \<open>fd_list\<close> is declared with five entries and used with index 5 as well: \<open>fd_after\<close> is the memory
  of 48 bytes behind it, which the linker decides and the model takes to belong to no other
  variable.  \<open>bs\<close> is the 512-byte boot sector as read from disk, \<open>params\<close> the kernel's copy of a
  system call's parameters, \<open>ram\<close> the memory by physical address, \<open>kbd\<close> the keys still to come.
  \<open>init_name\<close> is the literal \<open>"init"\<close>, which \<open>load\<close> upper-cases in place.
  \<open>old_int8\<close> is the memory from \<open>b_int8_seg\<close> on: the two bytes reserved for it, the two of
  \<open>b_int8_offs\<close> (arch/8088/kernel/dispatch.asm) and two more.
\<close>

record kstate = sched_state +
  fd_list :: "fdesc list"
  fd_after :: fdesc
  seg_arr :: "mem_seg list"
  bs :: "byte list"
  s_pos :: section_positions
  drv :: int
  uitoa_buf :: "byte list"
  params :: "byte list"
  ram :: "nat \<Rightarrow> byte"
  init_name :: "byte list"
  old_int8 :: "byte list"
  kbd :: "byte list"
  console :: "event list"

section \<open>kernel/bios.c\<close>

definition emit :: "event \<Rightarrow> kstate \<Rightarrow> kstate" where
  "emit ev s = s\<lparr>console := console s @ [ev]\<rparr>"

definition b_putchar :: "byte \<Rightarrow> kstate \<Rightarrow> kstate" where
  "b_putchar c s = emit (EvChar c) s"

text \<open>\<open>b_getchar_sync\<close> waits for the next key; without one it does not return.\<close>

definition b_getchar_sync :: "kstate \<Rightarrow> (byte \<times> kstate) run" where
  "b_getchar_sync s = (case kbd s of [] \<Rightarrow> None | k # ks \<Rightarrow> ret (k, s\<lparr>kbd := ks\<rparr>))"

text \<open>\<open>b_getchar\<close> polls for a key before it takes it.\<close>

definition b_getchar :: "kstate \<Rightarrow> (byte \<times> kstate) run" where
  "b_getchar s = (if kbd s = [] then None else ret (hd (kbd s), s\<lparr>kbd := tl (kbd s)\<rparr>))"

text \<open>The branch for no key falls through into the one for a key.\<close>

definition b_query_kb_stat :: "kstate \<Rightarrow> byte" where
  "b_query_kb_stat s = (let result = (if kbd s = [] then 0 else 1 :: byte) in let result = 1 in result)"

definition reboot :: "kstate \<Rightarrow> kstate" where
  "reboot s = emit EvReboot s"

text \<open>\<open>hlt\<close> waits for an interrupt and continues.\<close>

definition halt :: "kstate \<Rightarrow> kstate" where
  "halt s = emit EvHalt s"

definition cli :: "kstate \<Rightarrow> kstate" where
  "cli s = emit EvCli s"

definition sti :: "kstate \<Rightarrow> kstate" where
  "sti s = emit EvSti s"

definition outb :: "u16 \<Rightarrow> byte \<Rightarrow> kstate \<Rightarrow> kstate" where
  "outb port val s = emit (EvOut port val) s"

text \<open>One sector into a buffer of the kernel segment, as every caller asks for; the returned status
  is nonzero on an error.\<close>

definition read_sectors :: "env \<Rightarrow> byte \<Rightarrow> byte \<Rightarrow> byte \<Rightarrow> byte \<Rightarrow> int \<times> byte list" where
  "read_sectors e cylinder sector head drive =
     (case bios_int13 e drive cylinder head sector of (ah, data) \<Rightarrow> (sint ah, data))"

text \<open>The clock registers are binary coded decimal.\<close>

definition bcd :: "byte \<Rightarrow> u32" where
  "bcd b = drop_bit 4 (ucast b AND 0xF0) * 10 + (ucast b AND 0x0F)"

definition read_RTC_time :: "env \<Rightarrow> u32 \<times> u32 \<times> u32" where
  "read_RTC_time e = (case rtc_time e of (h, m, s) \<Rightarrow> (bcd h, bcd m, bcd s))"

definition read_RTC_date :: "env \<Rightarrow> u32 \<times> u32 \<times> u32" where
  "read_RTC_date e = (case rtc_date e of (century, y, m, d) \<Rightarrow>
     (drop_bit 4 (ucast century AND 0xF0) * 1000 + (ucast century AND 0x0F) * 100
        + drop_bit 4 (ucast y AND 0xF0) * 10 + (ucast y AND 0x0F), bcd m, bcd d))"

section \<open>File tables\<close>

definition kfd_get :: "int \<Rightarrow> kstate \<Rightarrow> fdesc res" where
  "kfd_get fd s =
     (if 0 \<le> fd \<and> fd < 5 then Inr (fd_list s ! nat fd)
      else if fd = 5 then Inr (fd_after s) else Inl ReadPast)"

definition kfd_upd :: "int \<Rightarrow> (fdesc \<Rightarrow> fdesc) \<Rightarrow> kstate \<Rightarrow> kstate res" where
  "kfd_upd fd f s =
     (if 0 \<le> fd \<and> fd < 5 then Inr (s\<lparr>fd_list := (fd_list s)[nat fd := f (fd_list s ! nat fd)]\<rparr>)
      else if fd = 5 then Inr (s\<lparr>fd_after := f (fd_after s)\<rparr>) else Inl WritePast)"

text \<open>\<open>curr_fd_list\<close>: the kernel's table for pid 0, else that of the process.\<close>

definition cfd_upd :: "int \<Rightarrow> int \<Rightarrow> (fdesc \<Rightarrow> fdesc) \<Rightarrow> kstate \<Rightarrow> kstate res" where
  "cfd_upd pid fd f s = (if pid = 0 then kfd_upd fd f s else ftab_upd pid fd f s)"

section \<open>A concrete machine\<close>

text \<open>All variables zero, and a machine whose disk has the sector number plus the offset as its
  bytes: concrete inputs for the properties.\<close>

definition filler :: "nat \<Rightarrow> byte \<Rightarrow> byte list" where
  "filler n b = replicate n b"

definition zero_fd :: fdesc where
  "zero_fd = \<lparr>fd_pathname = replicate 32 0, fd_pos = 0, fd_size = 0, fd_pfd = 0, fd_pfd_offset = 0\<rparr>"

definition zero_proc :: proc where
  "zero_proc = \<lparr>p_pid = 0, p_name = replicate 32 0, p_ss = 0, p_ds = 0, p_cs = 0, p_ip = 0,
     p_ppid = 0, p_size = 0, p_state = READY, files_table = replicate 5 zero_fd\<rparr>"

definition zero_state :: kstate where
  "zero_state = \<lparr>processes = replicate 9 zero_proc, running_proc = 0, fd_list = replicate 5 zero_fd,
     fd_after = zero_fd, seg_arr = replicate 10 \<lparr>seg_used = 0, seg_address = 0\<rparr>, bs = filler 512 0,
     s_pos = \<lparr>fat_section_start = 0, data_section_start = 0, root_directory_start = 0\<rparr>, drv = 0,
     uitoa_buf = replicate 7 0, params = filler 576 0, ram = (\<lambda>_. 0), init_name = cstr ''init'', old_int8 = replicate 6 0, kbd = [], console = []\<rparr>"

definition sample_sector :: "byte \<Rightarrow> byte list" where
  "sample_sector b = map (\<lambda>i. b + of_nat i) [0..<512]"

definition sample_env :: env where
  "sample_env = \<lparr>bios_int13 = (\<lambda>d c h s. (0, sample_sector (c + h + s))),
     past_sector_buf = filler 512 0xEE, junk_bytes_read = 7, junk_seg = 0xBEEF, junk_pid = 77,
     junk_entries = replicate 256 (filler 32 0), junk_clust_buf = filler 4096 0,
     junk_name = replicate 9 0, junk_ext = replicate 4 0, junk_fat_table = filler 1024 0, rtc_date = (0x20, 0x19, 0x12, 0x31),
     rtc_time = (0x23, 0x59, 0x08)\<rparr>"

lemma filler_simps [simp]: "length (filler n b) = n" "take k (filler n b) = filler (min k n) b"
  "i < n \<Longrightarrow> filler n b ! i = b" "drop k (filler n b) = filler (n - k) b"
  by (simp_all add: filler_def)

lemma sample_sector_simps [simp]:
  "length (sample_sector b) = 512" "i < 512 \<Longrightarrow> sample_sector b ! i = b + of_nat i"
  by (simp_all add: sample_sector_def)

lemma zero_fd_wf [simp]: "fdesc_wf zero_fd"
  by (simp add: fdesc_wf_def zero_fd_def)

lemma zero_proc_wf [simp]: "proc_wf i zero_proc"
  by (simp add: zero_proc_def proc_wf_def NUM_FILES_def list_all_iff)

lemma zero_state_procs [simp]: "procs_wf zero_state"
proof -
  have "length (processes zero_state) = NUM_PROCESSES"
    "\<And>i. i < NUM_PROCESSES \<Longrightarrow> processes zero_state ! i = zero_proc"
    by (simp_all only: zero_state_def NUM_PROCESSES_def sched_state.simps length_replicate nth_replicate)
  then show ?thesis by (simp add: procs_wf_def)
qed

lemma sample_env_ok [simp]: "env_ok sample_env"
  by (simp add: env_ok_def sample_env_def list_all_iff)

end
