(* ===== verification/Kern_IO.thy ===== *)
theory Kern_IO
  imports Kernel_State
begin

text \<open>
  The file layer of kernel/kernio.c: \<open>open\<close>, \<open>close\<close>, \<open>lseek\<close>, \<open>read\<close>, \<open>write\<close>, \<open>printk\<close>.
\<close>

section \<open>Output\<close>

fun write_loop :: "byte list \<Rightarrow> nat \<Rightarrow> nat \<Rightarrow> kstate \<Rightarrow> kstate res" where
  "write_loop buf i 0 s = Inr s"
| "write_loop buf i (Suc n) s =
     rbind (load_byte buf i) (\<lambda>c. write_loop buf (Suc i) n (b_putchar c s))"

definition write_fd :: "int \<Rightarrow> byte list \<Rightarrow> u32 \<Rightarrow> int \<Rightarrow> kstate \<Rightarrow> (u32 \<times> kstate) res" where
  "write_fd fd buf count pid s =
     (if fd = 1 \<or> fd = 2
      then rbind (write_loop buf 0 (unat count) s) (\<lambda>s. Inr (count, s))
      else Inr (count, s))"

definition printk :: "byte list \<Rightarrow> kstate \<Rightarrow> kstate res" where
  "printk str s =
     rbind (strlen str) (\<lambda>n. rbind (write_fd 1 str (of_nat n) 0 s) (\<lambda>(_, s). Inr s))"

definition kuitoa :: "u32 \<Rightarrow> kstate \<Rightarrow> (byte list \<times> kstate) res" where
  "kuitoa i s = rbind (uitoa (uitoa_buf s) i) (\<lambda>(b, p). Inr (drop p b, s\<lparr>uitoa_buf := b\<rparr>))"

definition print_num :: "u32 \<Rightarrow> kstate \<Rightarrow> kstate res" where
  "print_num i s = rbind (kuitoa i s) (\<lambda>(str, s). printk str s)"

section \<open>Opening, closing, seeking\<close>

definition get_root_size :: "kstate \<Rightarrow> u32" where
  "get_root_size s = data_section_start (s_pos s) - root_directory_start (s_pos s)"

definition get_root_offset :: "kstate \<Rightarrow> u32" where
  "get_root_offset s = root_directory_start (s_pos s)"

definition device_fd :: "fdesc \<Rightarrow> fdesc" where
  "device_fd d = d\<lparr>fd_pos := 0, fd_pfd := -1, fd_size := 65535\<rparr>"

definition stream_fd :: "fdesc \<Rightarrow> fdesc" where
  "stream_fd d = d\<lparr>fd_pos := 0, fd_size := 0, fd_pfd := -1, fd_pfd_offset := 0\<rparr>"

definition root_fd :: "kstate \<Rightarrow> fdesc \<Rightarrow> fdesc" where
  "root_fd s d = d\<lparr>fd_pos := 0, fd_size := get_root_size s, fd_pfd := 4,
                   fd_pfd_offset := get_root_offset s\<rparr>"

definition open_fd :: "byte list \<Rightarrow> int \<Rightarrow> int \<Rightarrow> kstate \<Rightarrow> (int \<times> kstate) res" where
  "open_fd pathname flags pid s =
     (let setup = (\<lambda>fd f. rbind (cfd_upd pid fd f s) (\<lambda>s. Inr (fd, s))) in
      rbind (strcmp pathname (cstr ''/dev/fda'')) (\<lambda>c. if c = 0 then setup 3 device_fd else
      rbind (strcmp pathname (cstr ''/dev/stdin'')) (\<lambda>c. if c = 0 then setup 0 stream_fd else
      rbind (strcmp pathname (cstr ''/dev/stdout'')) (\<lambda>c. if c = 0 then setup 1 stream_fd else
      rbind (strcmp pathname (cstr ''/dev/fdb'')) (\<lambda>c. if c = 0 then setup 4 device_fd else
      rbind (strcmp pathname (cstr ''/'')) (\<lambda>c. if c = 0 then setup 5 (root_fd s) else
      Inr (-1, s)))))))"

definition close_fd :: "int \<Rightarrow> int \<Rightarrow> kstate \<Rightarrow> (int \<times> kstate) res" where
  "close_fd fd pid s =
     rbind (cfd_upd pid fd (\<lambda>d. d\<lparr>fd_pathname := (fd_pathname d)[0 := 0], fd_pfd := 0,
              fd_pfd_offset := 0, fd_pos := 0, fd_size := 0\<rparr>) s) (\<lambda>s. Inr (0, s))"

definition lseek :: "int \<Rightarrow> u32 \<Rightarrow> int \<Rightarrow> int \<Rightarrow> kstate \<Rightarrow> (u32 \<times> kstate) res" where
  "lseek fd offset whence pid s =
     rbind (cfd_upd pid fd (\<lambda>d. d\<lparr>fd_pos := offset\<rparr>) s) (\<lambda>s. Inr (offset, s))"

section \<open>Reading\<close>

text \<open>\<open>memcpy(new_buf, sector_buf + sector_offset, n)\<close> with \<open>new_buf\<close> at offset \<open>at\<close> of the caller's
  buffer.  The source runs into the stack behind \<open>sector_buf\<close>.\<close>

definition memcpy_at :: "byte list \<Rightarrow> nat \<Rightarrow> byte list \<Rightarrow> int \<Rightarrow> byte list res" where
  "memcpy_at buf at src n = rbind (memcpy (drop at buf) src n) (\<lambda>d. Inr (take at buf @ d))"

definition read_error_msg :: "byte list" where
  "read_error_msg = lit ''error reading sectors!'' @ [13, 10, 0]"

text \<open>
  One iteration per sector.  The arguments are the loop's variables: cylinder, head, sector,
  sectors left, \<open>num_bytes\<close>, the buffer with \<open>new_buf\<close>'s offset, and \<open>sector_offset\<close>.
\<close>

fun read_loop :: "env \<Rightarrow> byte \<Rightarrow> byte \<Rightarrow> byte \<Rightarrow> byte \<Rightarrow> nat \<Rightarrow> u32 \<Rightarrow> byte list \<Rightarrow> nat \<Rightarrow> u32 \<Rightarrow>
    kstate \<Rightarrow> (byte list \<times> kstate) res" where
  "read_loop e drive cylinder head sector 0 num_bytes buf at sector_offset s = Inr (buf, s)"
| "read_loop e drive cylinder head sector (Suc num_sectors) num_bytes buf at sector_offset s =
     (let (cylinder, head, sector) =
        (if 18 < sector
         then (if (head + 1) mod 2 = 0 then cylinder + 1 else cylinder, (head + 1) mod 2, 1)
         else (cylinder, head, sector));
        (status, sector_buf) = read_sectors e cylinder sector head drive
      in
        rbind (if status \<noteq> 0
               then rbind (printk read_error_msg s) (\<lambda>s. Inr (halt s))
               else Inr s) (\<lambda>s.
        rbind (memcpy_at buf at (drop (unat sector_offset) (sector_buf @ past_sector_buf e))
                 (if 512 < num_bytes then 512 else uint num_bytes)) (\<lambda>buf.
        read_loop e drive cylinder head (sector + 1) num_sectors
          (if 512 < num_bytes then num_bytes - (512 - sector_offset) else 0)
          buf (at + (512 - unat sector_offset)) 0 s)))"

text \<open>The floppy branch: drive 0 is file descriptor 3, drive 1 is 4, both 1.44 MB.\<close>

definition read_floppy :: "env \<Rightarrow> int \<Rightarrow> u32 \<Rightarrow> byte list \<Rightarrow> u32 \<Rightarrow> kstate \<Rightarrow> (byte list \<times> kstate) res" where
  "read_floppy e fd pos buf count s =
     rbind (lba_to_chs (pos div 512) 80 2 18) (\<lambda>(cylinder, head, sector).
     read_loop e (if fd = 3 then 0 else 1) cylinder head sector
       (if count = 0 then 0 else unat ((count - 1) div 512 + 1)) count buf 0 (pos mod 512) s)"

text \<open>The keyboard branch.\<close>

fun kbd_loop :: "byte list \<Rightarrow> nat \<Rightarrow> nat \<Rightarrow> kstate \<Rightarrow> (byte list \<times> kstate) run" where
  "kbd_loop buf i 0 s = ret (buf, s)"
| "kbd_loop buf i (Suc n) s =
     obind (b_getchar_sync s) (\<lambda>(c, s).
     obind (Some (store_byte buf i c)) (\<lambda>buf. kbd_loop buf (Suc i) n s))"

definition read_done :: "int \<Rightarrow> u32 \<Rightarrow> byte list \<Rightarrow> kstate \<Rightarrow> (u32 \<times> byte list \<times> kstate) run" where
  "read_done fd bytes_read buf s =
     Some (rbind (kfd_upd fd (\<lambda>d. d\<lparr>fd_pos := fd_pos d + bytes_read\<rparr>) s)
       (\<lambda>s. Inr (bytes_read, buf, s)))"

text \<open>The branch for a device of its own: the result is \<open>bytes_read\<close>, the buffer and the state.\<close>

definition read_device ::
    "env \<Rightarrow> int \<Rightarrow> fdesc \<Rightarrow> byte list \<Rightarrow> u32 \<Rightarrow> kstate \<Rightarrow> (u32 \<times> byte list \<times> kstate) run" where
  "read_device e fd d buf count s =
     (if fd = 3 \<or> fd = 4
      then obind (Some (read_floppy e fd (fd_pos d) buf count s)) (\<lambda>(buf, s). ret (count, buf, s))
      else if fd = 0 then obind (kbd_loop buf 0 (unat count) s) (\<lambda>(buf, s). ret (0, buf, s))
      else ret (junk_bytes_read e, buf, s))"

text \<open>
  \<open>read\<close> itself.  It consults the kernel's table whatever the pid; a descriptor with a parent moves
  the parent's position in the table of the caller and reads through the parent as pid 0.
\<close>

partial_function (option) read_fd ::
    "env \<Rightarrow> int \<Rightarrow> byte list \<Rightarrow> u32 \<Rightarrow> int \<Rightarrow> kstate \<Rightarrow> (u32 \<times> byte list \<times> kstate) run" where
  "read_fd e fd buf count pid s =
     obind (Some (kfd_get fd s)) (\<lambda>d.
     obind (if fd_pfd d \<noteq> -1
            then obind (Some (lseek (fd_pfd d) (fd_pfd_offset d + fd_pos d) 0 pid s)) (\<lambda>r.
                 read_fd e (fd_pfd d) buf count 0 (snd r))
            else read_device e fd d buf count s) (\<lambda>r.
     read_done fd (fst r) (fst (snd r)) (snd (snd r))))"

end
