(* ===== verification/Disk_Access.thy ===== *)
theory Disk_Access
  imports Kern_IO
begin

text \<open>
  What the file layer delivers: output reaches the console in order, and a read from a floppy
  descriptor is compared with the bytes of the disk behind the BIOS.
\<close>

section \<open>Output\<close>

definition shown :: "byte list \<Rightarrow> kstate \<Rightarrow> kstate" where
  "shown t s = s\<lparr>console := console s @ map EvChar t\<rparr>"

lemma shown_Nil [simp]: "shown [] s = s"
  by (simp add: shown_def)

lemma shown_shown [simp]: "shown u (shown t s) = shown (t @ u) s"
  by (simp add: shown_def)

lemma shown_sel [simp]:
  "processes (shown t s) = processes s" "running_proc (shown t s) = running_proc s"
  "fd_list (shown t s) = fd_list s" "fd_after (shown t s) = fd_after s"
  "seg_arr (shown t s) = seg_arr s" "bs (shown t s) = bs s" "s_pos (shown t s) = s_pos s"
  "drv (shown t s) = drv s" "uitoa_buf (shown t s) = uitoa_buf s" "params (shown t s) = params s"
  "ram (shown t s) = ram s" "old_int8 (shown t s) = old_int8 s" "init_name (shown t s) = init_name s" "kbd (shown t s) = kbd s"
  "console (shown t s) = console s @ map EvChar t"
  by (simp_all add: shown_def)

lemma shown_buf [simp]: "(shown t s)\<lparr>uitoa_buf := b\<rparr> = shown t (s\<lparr>uitoa_buf := b\<rparr>)"
  by (simp add: shown_def)

lemma write_loop_eq:
  "i + n \<le> length buf \<Longrightarrow> write_loop buf i n s = Inr (shown (take n (drop i buf)) s)"
proof (induction n arbitrary: i s)
  case 0
  then show ?case by simp
next
  case (Suc n)
  then have "b_putchar (buf ! i) s = shown [buf ! i] s"
    by (simp add: b_putchar_def emit_def shown_def)
  with Suc show ?case by (simp add: drop_tail_cons [of i buf])
qed

lemma write_fd_eq:
  "fd \<in> {1, 2} \<Longrightarrow> unat count \<le> length buf \<Longrightarrow>
   write_fd fd buf count pid s = Inr (count, shown (take (unat count) buf) s)"
  by (auto simp: write_fd_def write_loop_eq)

lemma write_fd_other: "fd \<notin> {1, 2} \<Longrightarrow> write_fd fd buf count pid s = Inr (count, s)"
  by (simp add: write_fd_def)

lemma printk_eq:
  assumes "terminated str" and "length str < 2 ^ 32"
  shows "printk str s = Inr (shown (cval str) s)"
proof -
  have l: "length (cval str) < length str" by (rule cval_length) fact
  then have u: "unat (of_nat (length (cval str)) :: u32) = length (cval str)"
    using assms(2) by (intro unat_u32_of_nat) simp
  have "take (length (cval str)) str = cval str"
    unfolding cval_def by (rule takeWhile_eq_take [symmetric])
  with l u assms(1) show ?thesis by (simp add: printk_def write_fd_eq)
qed

lemma printk_lit:
  "0 \<notin> set t \<Longrightarrow> length t < 1000 \<Longrightarrow> printk (t @ [0]) s = Inr (shown t s)"
  by (subst printk_eq) (simp_all add: cval_append_NUL)

lemma printk_cstr: "0 \<notin> set (lit t) \<Longrightarrow> length t < 1000 \<Longrightarrow> printk (cstr t) s = Inr (shown (lit t) s)"
  unfolding cstr_def by (rule printk_lit) (simp_all add: lit_def)

text \<open>The number buffer ends in a NUL; every number the kernel prints keeps it.\<close>

definition num_ok :: "byte list \<Rightarrow> bool" where
  "num_ok b \<longleftrightarrow> length b = 7 \<and> b ! 6 = 0"

lemma print_num_eq:
  assumes "num_ok (uitoa_buf s)" and "unat i < 10 ^ 6"
  shows "\<exists>b. num_ok b \<and> print_num i s = Inr (shown (dec (unat i)) (s\<lparr>uitoa_buf := b\<rparr>))"
proof -
  obtain b p where u: "uitoa (uitoa_buf s) i = Inr (b, p)" "length b = 7" "b ! 6 = 0"
      "terminated (drop p b)" "cval (drop p b) = dec (unat i)"
    using uitoa_eq [of "uitoa_buf s" i] assms by (auto simp: num_ok_def)
  then have "print_num i s = Inr (shown (dec (unat i)) (s\<lparr>uitoa_buf := b\<rparr>))"
    by (simp add: print_num_def kuitoa_def printk_eq)
  with u show ?thesis by (auto simp: num_ok_def)
qed

section \<open>The disk\<close>

definition disk_sector :: "env \<Rightarrow> byte \<Rightarrow> nat \<Rightarrow> byte list" where
  "disk_sector e drive l = (case lba_chs l of (c, h, s) \<Rightarrow> snd (bios_int13 e drive c h s))"

definition disk_byte :: "env \<Rightarrow> byte \<Rightarrow> nat \<Rightarrow> byte" where
  "disk_byte e drive p = disk_sector e drive (p div 512) ! (p mod 512)"

definition disk_bytes :: "env \<Rightarrow> byte \<Rightarrow> nat \<Rightarrow> nat \<Rightarrow> byte list" where
  "disk_bytes e drive p n = map (disk_byte e drive) [p..<p + n]"

text \<open>No sector of the drive reports an error.\<close>

definition disk_ok :: "env \<Rightarrow> byte \<Rightarrow> bool" where
  "disk_ok e drive \<longleftrightarrow>
     (\<forall>l<2880. case lba_chs l of (c, h, s) \<Rightarrow> fst (bios_int13 e drive c h s) = 0)"

lemma disk_bytes_length [simp]: "length (disk_bytes e drive p n) = n"
  by (simp add: disk_bytes_def)

lemma disk_bytes_append:
  "disk_bytes e drive p m @ disk_bytes e drive (p + m) n = disk_bytes e drive p (m + n)"
proof -
  have "[p..<p + (m + n)] = [p..<p + m] @ [p + m..<p + (m + n)]"
    using upt_add_eq_append [of p "p + m" n] by (simp add: add.assoc)
  then show ?thesis by (simp add: disk_bytes_def add.assoc)
qed

lemma disk_sector_length: "env_ok e \<Longrightarrow> length (disk_sector e drive l) = 512"
  by (simp add: env_ok_def disk_sector_def split: prod.splits)

lemma disk_bytes_in_sector:
  assumes "env_ok e" and "off + n \<le> 512"
  shows "disk_bytes e drive (512 * l + off) n = take n (drop off (disk_sector e drive l))"
proof (rule nth_equalityI)
  show "length (disk_bytes e drive (512 * l + off) n) = length (take n (drop off (disk_sector e drive l)))"
    using assms by (simp add: disk_sector_length)
next
  fix i assume "i < length (disk_bytes e drive (512 * l + off) n)"
  then have i: "i < n" "off + i < 512" using assms by simp_all
  have "(512 * l + (off + i)) div 512 = l" "(512 * l + (off + i)) mod 512 = off + i"
    using i by simp_all
  then show "disk_bytes e drive (512 * l + off) n ! i = take n (drop off (disk_sector e drive l)) ! i"
    using i assms by (simp add: disk_bytes_def disk_byte_def disk_sector_length add.assoc)
qed

section \<open>The sector loop\<close>

text \<open>The head and cylinder step at the start of an iteration.\<close>

definition chs_norm :: "byte \<times> byte \<times> byte \<Rightarrow> byte \<times> byte \<times> byte" where
  "chs_norm chs = (case chs of (c, h, s) \<Rightarrow>
     if 18 < s then (if (h + 1) mod 2 = 0 then c + 1 else c, (h + 1) mod 2, 1) else (c, h, s))"

definition track_sector :: "nat \<Rightarrow> nat" where
  "track_sector x = (if x < 18 then x else x - 18) + 1"

lemma lba_chs_track:
  assumes "x < 36"
  shows "lba_chs (36 * q + x) = (of_nat q, if x < 18 then 0 else 1, of_nat (track_sector x))"
  unfolding lba_chs_def track_arith [OF assms] track_sector_def by simp

lemma byte_less_nat: "n < 256 \<Longrightarrow> 18 < (of_nat n :: byte) \<longleftrightarrow> 18 < n"
  by (simp add: word_less_nat_alt unat_of_nat take_bit_nat_eq_self)

lemma track_sector_bound: "x < 36 \<Longrightarrow> track_sector x \<le> 18"
  by (auto simp: track_sector_def)

lemma chs_norm_lba: "chs_norm (lba_chs l) = lba_chs l"
proof -
  define q x where "q = l div 36" and "x = l mod 36"
  have l: "l = 36 * q + x" and x: "x < 36" by (simp_all add: q_def x_def)
  have "\<not> 18 < (of_nat (track_sector x) :: byte)"
    using track_sector_bound [OF x] by (subst byte_less_nat) auto
  then show ?thesis
    unfolding l lba_chs_track [OF x] by (simp add: chs_norm_def)
qed

lemma chs_norm_next:
  assumes "lba_chs l = (c, h, s)"
  shows "chs_norm (c, h, s + 1) = lba_chs (l + 1)"
proof -
  define q x where "q = l div 36" and "x = l mod 36"
  have l: "l = 36 * q + x" and x: "x < 36" by (simp_all add: q_def x_def)
  have chs: "c = of_nat q" "h = (if x < 18 then 0 else 1)" "s + 1 = of_nat (Suc (track_sector x))"
    using assms unfolding l lba_chs_track [OF x] by auto
  have big: "18 < s + 1 \<longleftrightarrow> x = 17 \<or> x = 35"
    unfolding chs(3) using x by (subst byte_less_nat) (auto simp: track_sector_def)
  show ?thesis
  proof (cases "x = 35")
    case True
    then have "l + 1 = 36 * (q + 1) + 0" by (simp add: l)
    then have "lba_chs (l + 1) = (of_nat (q + 1), 0, 1)"
      using lba_chs_track [of 0 "q + 1"] by (simp add: track_sector_def)
    with True big show ?thesis by (simp add: chs_norm_def chs(1,2))
  next
    case False
    with x have x1: "x + 1 < 36" by simp
    have l1: "l + 1 = 36 * q + (x + 1)" by (simp add: l)
    show ?thesis
    proof (cases "x = 17")
      case True
      with big show ?thesis
        unfolding l1 lba_chs_track [OF x1] by (simp add: chs_norm_def chs(1,2) track_sector_def)
    next
      case ne: False
      then have "Suc (track_sector x) = track_sector (x + 1)" "x < 18 \<longleftrightarrow> x + 1 < 18"
        by (auto simp: track_sector_def)
      moreover from ne False big have "chs_norm (c, h, s + 1) = (c, h, s + 1)"
        by (simp add: chs_norm_def)
      ultimately show ?thesis
        unfolding l1 lba_chs_track [OF x1] chs by simp
    qed
  qed
qed

lemma memcpy_at_eq:
  "m \<le> length src \<Longrightarrow> at + m \<le> length buf \<Longrightarrow>
   memcpy_at buf at src (int m) = Inr (take at buf @ take m src @ drop (at + m) buf)"
  by (simp add: memcpy_at_def memcpy_eq add.commute)

text \<open>One iteration, at any offset into the sector.\<close>

lemma read_loop_step:
  assumes e: "env_ok e" "disk_ok e drive" and l: "l < 2880" "chs_norm (c, h, s) = lba_chs l"
    and off: "unat off < 512" and m: "m = min 512 (unat nb)" "at + m \<le> length buf"
    and chs: "lba_chs l = (c', h', s')"
  shows "read_loop e drive c h s (Suc k) nb buf at off st =
    read_loop e drive c' h' (s' + 1) k (if 512 < nb then nb - (512 - off) else 0)
      (take at buf @ take m (drop (unat off) (disk_sector e drive l @ past_sector_buf e)) @ drop (at + m) buf)
      (at + (512 - unat off)) 0 st"
proof -
  have sec: "disk_sector e drive l = snd (bios_int13 e drive c' h' s')"
    by (simp add: disk_sector_def chs)
  have ok: "fst (bios_int13 e drive c' h' s') = 0"
    using e(2) l(1) chs unfolding disk_ok_def by fastforce
  have read: "read_sectors e c' s' h' drive = (0, disk_sector e drive l)"
    using ok by (cases "bios_int13 e drive c' h' s'") (simp add: read_sectors_def sec)
  have "m \<le> length (drop (unat off) (disk_sector e drive l @ past_sector_buf e))"
    using e(1) off m(1) by (simp add: disk_sector_length) (simp add: env_ok_def)
  then have "memcpy_at buf at (drop (unat off) (disk_sector e drive l @ past_sector_buf e)) (int m) =
    Inr (take at buf @ take m (drop (unat off) (disk_sector e drive l @ past_sector_buf e)) @ drop (at + m) buf)"
    using m(2) by (rule memcpy_at_eq)
  moreover have "(if 512 < nb then 512 else uint nb) = int m"
    unfolding m(1) by (auto simp: word_less_nat_alt min_def)
  ultimately show ?thesis
    using l(2) by (auto simp: Let_def chs read chs_norm_def)
qed

text \<open>A run of whole iterations from the start of a sector.\<close>

lemma read_loop_run:
  assumes e: "env_ok e" "disk_ok e drive"
  shows "\<lbrakk>l + k \<le> 2880; chs_norm (c, h, s) = lba_chs l; unat nb \<le> 512 * k; 512 * k < unat nb + 512;
    at + unat nb \<le> length buf\<rbrakk> \<Longrightarrow>
    read_loop e drive c h s k nb buf at 0 st =
      Inr (take at buf @ disk_bytes e drive (512 * l) (unat nb) @ drop (at + unat nb) buf, st)"
proof (induction k arbitrary: l c h s nb at buf)
  case 0
  then show ?case by (simp add: disk_bytes_def)
next
  case (Suc k)
  obtain c' h' s' where chs: "lba_chs l = (c', h', s')" by (cases "lba_chs l")
  define m where "m = min 512 (unat nb)"
  let ?nb = "if 512 < nb then nb - (512 - 0) else 0"
  let ?buf = "take at buf @ take m (drop (unat (0 :: u32)) (disk_sector e drive l @ past_sector_buf e)) @ drop (at + m) buf"
  have at: "at + m \<le> length buf" using Suc.prems by (simp add: m_def)
  have sector: "take m (drop (unat (0 :: u32)) (disk_sector e drive l @ past_sector_buf e))
      = disk_bytes e drive (512 * l) m"
    using disk_bytes_in_sector [OF e(1), where off = 0 and n = m and l = l and drive = drive] disk_sector_length [OF e(1)]
    by (simp add: m_def)
  have step: "read_loop e drive c h s (Suc k) nb buf at 0 st =
      read_loop e drive c' h' (s' + 1) k ?nb ?buf (at + 512) 0 st"
    using read_loop_step [OF e _ Suc.prems(2), where off = 0 and nb = nb and buf = buf and k = k and st = st] Suc.prems at chs
    by (simp add: m_def)
  have nb: "unat ?nb = unat nb - m"
    by (auto simp: m_def word_less_nat_alt unat_sub word_le_nat_alt)
  show ?case
  proof (cases k)
    case 0
    with Suc.prems have "unat nb = m" by (simp add: m_def)
    then show ?thesis
      unfolding step unfolding 0 sector by simp
  next
    case (Suc j)
    with Suc.prems have m512: "m = 512" by (simp add: m_def)
    have "read_loop e drive c' h' (s' + 1) k ?nb ?buf (at + 512) 0 st =
        Inr (take (at + 512) ?buf @ disk_bytes e drive (512 * (l + 1)) (unat ?nb)
             @ drop (at + 512 + unat ?nb) ?buf, st)"
    proof (rule Suc.IH)
      show "l + 1 + k \<le> 2880" using Suc.prems by simp
      show "chs_norm (c', h', s' + 1) = lba_chs (l + 1)" by (rule chs_norm_next [OF chs])
    qed (use Suc.prems at Suc disk_sector_length [OF e(1)] in \<open>simp_all add: nb m512\<close>)
    also have "take (at + 512) ?buf = take at buf @ disk_bytes e drive (512 * l) 512"
      using at unfolding sector unfolding m512 by simp
    also have "drop (at + 512 + unat ?nb) ?buf = drop (at + unat nb) buf"
      using at Suc Suc.prems unfolding sector unfolding m512 by (simp add: nb m_def algebra_simps)
    also have "(take at buf @ disk_bytes e drive (512 * l) 512)
        @ disk_bytes e drive (512 * (l + 1)) (unat ?nb) @ drop (at + unat nb) buf
      = take at buf @ disk_bytes e drive (512 * l) (unat nb) @ drop (at + unat nb) buf"
      using disk_bytes_append [of e drive "512 * l" 512 "unat ?nb"] m512 by (simp add: nb m_def algebra_simps)
    finally show ?thesis unfolding step .
  qed
qed

section \<open>Reads from a floppy descriptor\<close>

definition floppy_drive :: "int \<Rightarrow> byte" where
  "floppy_drive fd = (if fd = 3 then 0 else 1)"

lemma pos_sector:
  assumes "unat pos div 512 < 2880"
  shows "lba_to_chs (pos div 512) 80 2 18 = Inr (lba_chs (chs_slip (unat pos div 512)))"
proof -
  have "pos div 512 = of_nat (unat pos div 512)"
    by (simp add: word_unat_eq_iff unat_div unat_of_nat take_bit_nat_eq_self)
       (use unat_lt_u32 [of pos] in simp)
  then show ?thesis
    by (simp only: lba_to_chs_nat [OF assms] chs_slip_head)
qed

lemma sector_count:
  assumes "count \<noteq> 0"
  shows "unat ((count - 1) div 512 + 1 :: u32) = (unat count - 1) div 512 + 1"
proof -
  have u: "unat (count - 1) = unat count - 1"
    using assms by (simp add: unat_minus_one)
  have "unat ((count - 1) div 512) = (unat count - 1) div 512"
    by (simp add: unat_div u)
  moreover have "(unat count - 1) div 512 + 1 < 2 ^ 32"
    using unat_lt_u32 [of count] by simp
  ultimately show ?thesis by (simp add: unat_u32_add)
qed

lemma read_floppy_aligned:
  assumes e: "env_ok e" "disk_ok e (floppy_drive fd)"
    and al: "unat pos mod 512 = 0" "unat pos div 512 < 2880"
    and fit: "chs_slip (unat pos div 512) + (unat count + 511) div 512 \<le> 2880" "unat count \<le> length buf"
  shows "read_floppy e fd pos buf count s =
    Inr (disk_bytes e (floppy_drive fd) (512 * chs_slip (unat pos div 512)) (unat count)
         @ drop (unat count) buf, s)"
proof -
  let ?l = "chs_slip (unat pos div 512)" and ?n = "unat count"
  obtain c h sec where chs: "lba_chs ?l = (c, h, sec)" by (cases "lba_chs ?l")
  define k where "k = (if count = 0 then 0 else unat ((count - 1) div 512 + 1))"
  have k: "k = (?n + 511) div 512"
  proof (cases "count = 0")
    case False
    then have "0 < ?n" by (simp add: unat_gt_0)
    then have "?n + 511 = (?n - 1) + 512" by simp
    then have "(?n + 511) div 512 = (?n - 1) div 512 + 1" by (simp only: div_add_self2)
    with False show ?thesis by (simp add: k_def sector_count)
  qed (simp add: k_def)
  have off: "pos mod 512 = 0"
    using al(1) by (simp add: word_unat_eq_iff unat_mod)
  have "read_loop e (floppy_drive fd) c h sec k count buf 0 0 s =
      Inr (take 0 buf @ disk_bytes e (floppy_drive fd) (512 * ?l) ?n @ drop (0 + ?n) buf, s)"
  proof (rule read_loop_run [OF e])
    show "?l + k \<le> 2880" using fit by (simp add: k)
    show "chs_norm (c, h, sec) = lba_chs ?l" using chs_norm_lba [of ?l] chs by simp
    show "?n \<le> 512 * k" "512 * k < ?n + 512" unfolding k by simp_all
    show "0 + ?n \<le> length buf" using fit by simp
  qed
  then show ?thesis
    by (simp add: read_floppy_def pos_sector [OF al(2)] chs off k_def floppy_drive_def)
qed

lemma read_floppy_one:
  assumes e: "env_ok e" "disk_ok e (floppy_drive fd)"
    and p: "unat pos div 512 < 2880" and n: "0 < unat count" "unat count \<le> 512"
    and fit: "unat count \<le> length buf"
  shows "read_floppy e fd pos buf count s =
    Inr (take (unat count) (drop (unat pos mod 512)
           (disk_sector e (floppy_drive fd) (chs_slip (unat pos div 512)) @ past_sector_buf e))
         @ drop (unat count) buf, s)"
proof -
  let ?l = "chs_slip (unat pos div 512)"
  obtain c h sec where chs: "lba_chs ?l = (c, h, sec)" by (cases "lba_chs ?l")
  have l: "?l < 2880"
  proof -
    define q x where "q = unat pos div 512 div 36" and "x = unat pos div 512 mod 36"
    have eq: "unat pos div 512 = 36 * q + x" and x: "x < 36" by (simp_all add: q_def x_def)
    have "q < 80" using p unfolding q_def by simp
    then show ?thesis unfolding eq chs_slip_track [OF x] using x by auto
  qed
  have "count \<noteq> 0" using n by auto
  then have one: "unat ((count - 1) div 512 + 1) = Suc 0" "count \<noteq> 0"
    using n by (auto simp: sector_count)
  have off: "unat (pos mod 512) = unat pos mod 512" by (simp add: unat_mod)
  show ?thesis
    using read_loop_step [OF e l, of c h sec "pos mod 512" "unat count" count 0 buf c h sec 0 s]
      chs_norm_lba [of ?l] chs n fit
    by (simp add: read_floppy_def pos_sector [OF p] one off floppy_drive_def)
qed

definition advance :: "int \<Rightarrow> u32 \<Rightarrow> kstate \<Rightarrow> kstate" where
  "advance fd n s =
     s\<lparr>fd_list := (fd_list s)[nat fd := (fd_list s ! nat fd)\<lparr>fd_pos := fd_pos (fd_list s ! nat fd) + n\<rparr>]\<rparr>"

lemma advance_sel [simp]:
  "processes (advance fd n s) = processes s" "running_proc (advance fd n s) = running_proc s"
  "fd_after (advance fd n s) = fd_after s" "seg_arr (advance fd n s) = seg_arr s"
  "bs (advance fd n s) = bs s" "s_pos (advance fd n s) = s_pos s"
  "drv (advance fd n s) = drv s" "uitoa_buf (advance fd n s) = uitoa_buf s"
  "params (advance fd n s) = params s" "ram (advance fd n s) = ram s" "old_int8 (advance fd n s) = old_int8 s" "init_name (advance fd n s) = init_name s" "kbd (advance fd n s) = kbd s"
  "console (advance fd n s) = console s" "length (fd_list (advance fd n s)) = length (fd_list s)"
  by (simp_all add: advance_def)

lemma read_fd_floppy:
  assumes "fd \<in> {3, 4}" and "fd_pfd (fd_list s ! nat fd) = -1"
    and "read_floppy e fd (fd_pos (fd_list s ! nat fd)) buf count s = Inr (buf', s)"
  shows "read_fd e fd buf count pid s = ret (count, buf', advance fd count s)"
  using assms
  by (auto simp: read_fd.simps [of e fd] kfd_get_def read_device_def read_done_def kfd_upd_def advance_def)

text \<open>Where on the disk the code looks for position \<open>p\<close>.\<close>

definition floppy_pos :: "nat \<Rightarrow> nat" where
  "floppy_pos p = 512 * chs_slip (p div 512) + p mod 512"

lemma floppy_pos_fixed: "floppy_pos p = p \<longleftrightarrow> p div 512 mod 18 \<noteq> 17"
proof -
  have "floppy_pos p = p \<longleftrightarrow> 512 * chs_slip (p div 512) + p mod 512 = 512 * (p div 512) + p mod 512"
    by (simp add: floppy_pos_def)
  also have "\<dots> \<longleftrightarrow> chs_slip (p div 512) = p div 512" by linarith
  finally show ?thesis using chs_slip_fixed by simp
qed

text \<open>The reads the code gets right, up to \<open>floppy_pos\<close>: from the start of a sector, or within one.\<close>

definition readable :: "nat \<Rightarrow> nat \<Rightarrow> bool" where
  "readable p n \<longleftrightarrow> p < 1474560 \<and> floppy_pos p + n \<le> 1474560 \<and> (p mod 512 = 0 \<or> p mod 512 + n \<le> 512)"

lemma read_floppy_correct:
  assumes e: "env_ok e" "disk_ok e (floppy_drive fd)"
    and r: "readable (unat pos) (unat count)" and n: "unat count \<le> length buf"
  shows "read_floppy e fd pos buf count s =
    Inr (disk_bytes e (floppy_drive fd) (floppy_pos (unat pos)) (unat count) @ drop (unat count) buf, s)"
proof -
  let ?l = "unat pos div 512" and ?n = "unat count" and ?o = "unat pos mod 512"
  have pos: "floppy_pos (unat pos) = 512 * chs_slip ?l + ?o" by (simp add: floppy_pos_def)
  have "unat pos < 2880 * 512" using r by (simp add: readable_def)
  then have track: "?l < 2880" by (rule less_mult_imp_div_less)
  show ?thesis
  proof (cases "?o = 0")
    case True
    have "512 * chs_slip ?l + ?n + 511 < 1474560 + 512" using r pos True by (simp add: readable_def)
    then have "chs_slip ?l + (?n + 511) div 512 \<le> 2880" by linarith
    with read_floppy_aligned [OF e True track, of count buf s] n True pos show ?thesis by simp
  next
    case False
    with r have o: "?o + ?n \<le> 512" by (simp add: readable_def)
    show ?thesis
    proof (cases "count = 0")
      case True
      obtain c h sec where "lba_chs (chs_slip ?l) = (c, h, sec)" by (cases "lba_chs (chs_slip ?l)")
      with True show ?thesis by (simp add: read_floppy_def pos_sector [OF track] disk_bytes_def)
    next
      case ne: False
      then have "0 < ?n" by (simp add: unat_gt_0)
      with o n have "read_floppy e fd pos buf count s =
        Inr (take ?n (drop ?o (disk_sector e (floppy_drive fd) (chs_slip ?l) @ past_sector_buf e)) @ drop ?n buf, s)"
        using read_floppy_one [OF e track, of count buf s] by simp
      also have "take ?n (drop ?o (disk_sector e (floppy_drive fd) (chs_slip ?l) @ past_sector_buf e))
          = disk_bytes e (floppy_drive fd) (512 * chs_slip ?l + ?o) ?n"
        using disk_bytes_in_sector [OF e(1) o, of "floppy_drive fd" "chs_slip ?l"] disk_sector_length [OF e(1)] o
        by simp
      finally show ?thesis unfolding pos .
    qed
  qed
qed

text \<open>C13: a \<open>read\<close> on a floppy descriptor that starts at a sector boundary, or stays within one
  sector, delivers consecutive bytes of the disk, leaves the rest of the buffer, and moves the
  position by the count.  The bytes are those at the position, unless it lies in the last sector
  of a track: then the whole read comes from the other side.\<close>

theorem floppy_read_correct:
  assumes "env_ok e" "disk_ok e (floppy_drive fd)" "fd \<in> {3, 4}" "fd_pfd (fd_list s ! nat fd) = -1"
    and "pos = unat (fd_pos (fd_list s ! nat fd))" "n = unat count" "readable pos n" "n \<le> length buf"
  shows "read_fd e fd buf count pid s =
      ret (count, disk_bytes e (floppy_drive fd) (floppy_pos pos) n @ drop n buf, advance fd count s)
    \<and> (floppy_pos pos = pos \<longleftrightarrow> pos div 512 mod 18 \<noteq> 17)"
  using assms floppy_pos_fixed by (auto intro!: read_fd_floppy read_floppy_correct)

text \<open>C32: a \<open>read\<close> of at most a sector that straddles two sectors delivers the tail of the first
  sector and then what lies behind \<open>sector_buf\<close> on the stack, never the second sector.\<close>

theorem straddling_read_leaks_stack:
  assumes "env_ok e" "disk_ok e (floppy_drive fd)" "fd \<in> {3, 4}" "fd_pfd (fd_list s ! nat fd) = -1"
    and "pos = unat (fd_pos (fd_list s ! nat fd))" "n = unat count"
    and "pos < 1474560" "0 < n" "n \<le> 512" "n \<le> length buf"
    and "512 \<le> pos mod 512 + n" "pos div 512 mod 18 \<noteq> 17"
  shows "read_fd e fd buf count pid s =
    ret (count, disk_bytes e (floppy_drive fd) pos (512 - pos mod 512)
                @ take (n - (512 - pos mod 512)) (past_sector_buf e) @ drop n buf, advance fd count s)"
proof (rule read_fd_floppy [OF assms(3,4)])
  let ?l = "pos div 512" and ?o = "pos mod 512"
  have slip: "chs_slip ?l = ?l" using assms(12) chs_slip_fixed by blast
  have "512 * ?l + ?o = pos" by simp
  then have "disk_bytes e (floppy_drive fd) pos (512 - ?o) = drop ?o (disk_sector e (floppy_drive fd) ?l)"
    using disk_bytes_in_sector [OF assms(1), of ?o "512 - ?o" "floppy_drive fd" ?l]
      disk_sector_length [OF assms(1)] by simp
  moreover have "take n (drop ?o (disk_sector e (floppy_drive fd) ?l @ past_sector_buf e)) =
      drop ?o (disk_sector e (floppy_drive fd) ?l) @ take (n - (512 - ?o)) (past_sector_buf e)"
    using disk_sector_length [OF assms(1)] assms(11) by simp
  moreover have "read_floppy e fd (fd_pos (fd_list s ! nat fd)) buf count s =
    Inr (take n (drop ?o (disk_sector e (floppy_drive fd) (chs_slip ?l) @ past_sector_buf e)) @ drop n buf, s)"
    unfolding assms(5,6)
  proof (rule read_floppy_one [OF assms(1,2)])
    show "unat (fd_pos (fd_list s ! nat fd)) div 512 < 2880"
      using assms(7) unfolding assms(5) by simp
  qed (use assms(8-10) in \<open>simp_all only: assms(6)\<close>)
  ultimately show "read_floppy e fd (fd_pos (fd_list s ! nat fd)) buf count s =
    Inr (disk_bytes e (floppy_drive fd) pos (512 - ?o)
         @ take (n - (512 - ?o)) (past_sector_buf e) @ drop n buf, s)"
    by (simp only: slip append_assoc)
qed

text \<open>A machine with both floppies open in the kernel's table, the second at byte 510.\<close>

definition floppy_state :: kstate where
  "floppy_state = zero_state\<lparr>fd_list := [stream_fd zero_fd, stream_fd zero_fd, zero_fd,
     device_fd zero_fd, (device_fd zero_fd)\<lparr>fd_pos := 510\<rparr>]\<rparr>"

lemma sample_disk_ok [simp]: "disk_ok sample_env drive"
  by (simp add: disk_ok_def sample_env_def split: prod.splits)

lemma floppy_state_fds:
  "fd_pos (fd_list floppy_state ! 4) = 510" "fd_pfd (fd_list floppy_state ! 4) = -1"
  by (simp_all add: floppy_state_def device_fd_def)

lemma two_zeros: "replicate 2 (0 :: byte) = [0, 0]"
  by (simp add: numeral_2_eq_2)

lemma sample_bytes: "disk_bytes sample_env (floppy_drive 4) 510 2 = [0xFF, 0]"
  by (simp add: disk_bytes_def disk_byte_def disk_sector_def lba_chs_def sample_env_def)

lemma sample_positions [simp]: "floppy_pos 510 = 510" "floppy_pos 9792 = 9792" "readable 510 2" "readable 9792 2"
  by (simp_all add: readable_def floppy_pos_def chs_slip_def)

theorem floppy_read_correct_witness:
  "read_fd sample_env 4 (replicate 4 0) 2 1 floppy_state =
     ret (2, [0xFF, 0, 0, 0], advance 4 2 floppy_state)"
proof -
  have "read_fd sample_env 4 (replicate 4 0) 2 1 floppy_state =
     ret (2, disk_bytes sample_env (floppy_drive 4) (floppy_pos 510) 2 @ drop 2 (replicate 4 0), advance 4 2 floppy_state)
     \<and> (floppy_pos 510 = 510 \<longleftrightarrow> 510 div 512 mod 18 \<noteq> (17 :: nat))"
    by (rule floppy_read_correct) (simp_all add: floppy_state_fds)
  then show ?thesis by (simp add: sample_bytes two_zeros)
qed

theorem straddling_read_leaks_stack_witness:
  "read_fd sample_env 4 (replicate 6 0) 4 1 floppy_state =
     ret (4, [0xFF, 0, 0xEE, 0xEE, 0, 0], advance 4 4 floppy_state)"
proof -
  have "read_fd sample_env 4 (replicate 6 0) 4 1 floppy_state =
     ret (4, disk_bytes sample_env (floppy_drive 4) 510 (512 - 510 mod 512)
        @ take (4 - (512 - 510 mod 512)) (past_sector_buf sample_env) @ drop 4 (replicate 6 0),
        advance 4 4 floppy_state)"
    by (rule straddling_read_leaks_stack) (simp_all add: floppy_state_fds)
  moreover have "take 2 (past_sector_buf sample_env) = [0xEE, 0xEE]"
    by (simp add: sample_env_def) (simp add: filler_def numeral_2_eq_2)
  ultimately show ?thesis by (simp add: sample_bytes two_zeros)
qed

section \<open>Whose file table\<close>

lemma cfd_upd_kernel:
  "0 \<le> fd \<Longrightarrow> fd < 5 \<Longrightarrow>
   cfd_upd 0 fd f s = Inr (s\<lparr>fd_list := (fd_list s)[nat fd := f (fd_list s ! nat fd)]\<rparr>)"
  by (simp add: cfd_upd_def kfd_upd_def)

text \<open>A process' own table is a field of its descriptor.\<close>

lemma cfd_upd_user:
  assumes "1 \<le> pid" "pid \<le> 9" "0 \<le> fd" "fd < 5"
  obtains ps where "cfd_upd pid fd f s = Inr (s\<lparr>processes := ps\<rparr>)"
  using assms by (auto simp: cfd_upd_def ftab_upd_def upd_proc_def NUM_FILES_def NUM_PROCESSES_def)

text \<open>C34: a process' \<open>lseek\<close> on the floppy has no effect on its \<open>read\<close>: the data come from the position
  in the kernel's table.\<close>

theorem user_lseek_ignored_by_read:
  assumes "env_ok e" "disk_ok e (floppy_drive fd)" "fd \<in> {3, 4}" "fd_pfd (fd_list s ! nat fd) = -1"
    and "pos = unat (fd_pos (fd_list s ! nat fd))" "n = unat count" "readable pos n" "n \<le> length buf"
    and "1 \<le> pid" "pid \<le> 9"
  shows "\<exists>s'. lseek fd offset whence pid s = Inr (offset, s') \<and>
    read_fd e fd buf count pid s' =
      ret (count, disk_bytes e (floppy_drive fd) (floppy_pos pos) n @ drop n buf, advance fd count s')"
proof -
  obtain ps where ps: "cfd_upd pid fd (\<lambda>d. d\<lparr>fd_pos := offset\<rparr>) s = Inr (s\<lparr>processes := ps\<rparr>)"
    by (rule cfd_upd_user [of pid fd]) (use assms(3,9,10) in auto)
  let ?s' = "s\<lparr>processes := ps\<rparr>"
  have "lseek fd offset whence pid s = Inr (offset, ?s')" by (simp add: lseek_def ps)
  moreover have "read_fd e fd buf count pid ?s' =
      ret (count, disk_bytes e (floppy_drive fd) (floppy_pos pos) n @ drop n buf, advance fd count ?s')"
    using read_floppy_correct [OF assms(1,2), of "fd_pos (fd_list s ! nat fd)" count buf ?s'] assms(3-8)
    by (intro read_fd_floppy) auto
  ultimately show ?thesis by blast
qed

theorem user_lseek_ignored_by_read_witness:
  "\<exists>s'. lseek 4 1024 0 1 floppy_state = Inr (1024, s') \<and>
    read_fd sample_env 4 (replicate 4 0) 2 1 s' = ret (2, [0xFF, 0, 0, 0], advance 4 2 s')"
proof -
  have "\<exists>s'. lseek 4 1024 0 1 floppy_state = Inr (1024, s') \<and>
    read_fd sample_env 4 (replicate 4 0) 2 1 s' =
      ret (2, disk_bytes sample_env (floppy_drive 4) (floppy_pos 510) 2 @ drop 2 (replicate 4 0), advance 4 2 s')"
    by (rule user_lseek_ignored_by_read) (simp_all add: floppy_state_fds)
  then show ?thesis by (simp add: sample_bytes two_zeros)
qed

section \<open>Does \<open>read\<close> return\<close>

text \<open>The file table as the kernel sets it up: no chain of parents leads round.\<close>

definition fds_ready :: "kstate \<Rightarrow> bool" where
  "fds_ready s \<longleftrightarrow> length (fd_list s) = 5 \<and> fd_pfd (fd_list s ! 0) = -1 \<and> fd_pfd (fd_list s ! 1) = -1
     \<and> fd_pfd (fd_list s ! 2) \<in> {-1, 0} \<and> fd_pfd (fd_list s ! 3) \<in> {-1, 0}
     \<and> fd_pfd (fd_list s ! 4) = -1 \<and> fd_pfd (fd_after s) = 4"

lemma fds_ready_leaf:
  "fds_ready s \<Longrightarrow> k \<in> {0, 4} \<Longrightarrow> \<exists>d. kfd_get k s = Inr d \<and> fd_pfd d = -1"
  by (auto simp: fds_ready_def kfd_get_def)

lemma fds_ready_chain:
  assumes "fds_ready s" "0 \<le> fd" "fd \<le> 5" "kfd_get fd s = Inr d" "fd_pfd d \<noteq> -1"
  shows "fd_pfd d \<in> {0, 4}"
proof -
  consider "fd = 0" | "fd = 1" | "fd = 2" | "fd = 3" | "fd = 4" | "fd = 5"
    using assms(2,3) by linarith
  then show ?thesis
    using assms(1,4,5) by cases (auto simp: kfd_get_def fds_ready_def)
qed

section \<open>Standard input\<close>

text \<open>The keyboard branch takes its keys one after the other.\<close>

lemma kbd_loop_eq:
  "i + n \<le> length buf \<Longrightarrow> kbd_loop buf i n s =
     (if n \<le> length (kbd s)
      then ret (take i buf @ take n (kbd s) @ drop (i + n) buf, s\<lparr>kbd := drop n (kbd s)\<rparr>) else None)"
proof (induction n arbitrary: i buf s)
  case (Suc n)
  show ?case
  proof (cases "kbd s")
    case (Cons k ks)
    let ?s = "s\<lparr>kbd := ks\<rparr>" and ?b = "buf[i := k]"
    have "kbd_loop buf i (Suc n) s = kbd_loop ?b (Suc i) n ?s"
      using Suc.prems Cons by (simp add: b_getchar_sync_def)
    also have "\<dots> = (if n \<le> length ks
        then ret (take (Suc i) ?b @ take n ks @ drop (Suc i + n) ?b, ?s\<lparr>kbd := drop n ks\<rparr>) else None)"
      using Suc.IH [of "Suc i" ?b ?s] Suc.prems by simp
    finally show ?thesis
      using Suc.prems Cons by (simp add: take_Suc_conv_app_nth)
  qed (simp add: b_getchar_sync_def)
qed simp

text \<open>C33: a \<open>read\<close> on an open standard input, by any process, waits until as many keys have been typed as it is asked for, echoes
  nothing, and takes no key beyond them: with fewer keys to come it never returns.  When it returns, the buffer starts with the
  keys, and the value it returns is 0 and not their number.\<close>

theorem read_stdin_waits:
  assumes "length (fd_list s) = 5" "fd_pfd (fd_list s ! 0) = -1" "unat count \<le> length buf"
  shows "read_fd e 0 buf count pid s =
    (if unat count \<le> length (kbd s)
     then ret (0, take (unat count) (kbd s) @ drop (unat count) buf, s\<lparr>kbd := drop (unat count) (kbd s)\<rparr>) else None)"
proof -
  have "read_done 0 0 b s' = ret (0, b, s')" if "length (fd_list s') = 5" for b s'
    by (simp add: read_done_def kfd_upd_def)
  then show ?thesis
    using assms by (subst read_fd.simps) (simp add: kfd_get_def read_device_def kbd_loop_eq)
qed

theorem read_stdin_waits_witness:
  "read_fd sample_env 0 [7, 7, 7] 2 3 (floppy_state\<lparr>kbd := [108, 115, 13]\<rparr>) = ret (0, [108, 115, 7], floppy_state\<lparr>kbd := [13]\<rparr>)
   \<and> read_fd sample_env 0 [7, 7, 7] 2 3 (floppy_state\<lparr>kbd := [108]\<rparr>) = None"
proof -
  have f: "length (fd_list (floppy_state\<lparr>kbd := ks\<rparr>)) = 5" "fd_pfd (fd_list (floppy_state\<lparr>kbd := ks\<rparr>) ! 0) = -1" for ks
    by (simp_all add: floppy_state_def stream_fd_def device_fd_def zero_fd_def)
  have two: "unat (2 :: u32) = Suc (Suc 0)" by simp
  show ?thesis
    using read_stdin_waits [OF f, of 2 "[7, 7, 7]" sample_env 3 "[108, 115, 13]"] read_stdin_waits [OF f, of 2 "[7, 7, 7]" sample_env 3 "[108]"]
    by (simp add: two)
qed

text \<open>The root directory at sector 19, its descriptor two entries into it.\<close>

definition root_state :: kstate where
  "root_state =
     floppy_state\<lparr>fd_after := zero_fd\<lparr>fd_pfd := 4, fd_pfd_offset := 9728, fd_pos := 64\<rparr>\<rparr>"

lemma root_state_ready [simp]: "fds_ready root_state"
  by (simp add: fds_ready_def root_state_def floppy_state_def stream_fd_def device_fd_def zero_fd_def)

lemma root_state_after:
  "fd_pfd_offset (fd_after root_state) = 9728" "fd_pos (fd_after root_state) = 64"
  "fd_list root_state = fd_list floppy_state"
  by (simp_all add: root_state_def)

text \<open>A run of \<open>read\<close> on a descriptor that is its own parent would need a run of the parent first.\<close>

lemma read_fd_self_diverges:
  assumes "read_fd e fd buf count pid s = Some r" "fd = 0" "length (fd_list s) = 5"
    "fd_pfd (fd_list s ! 0) = 0" "0 \<le> pid" "pid \<le> 9"
  shows False
proof -
  have "fd = 0 \<longrightarrow> length (fd_list s) = 5 \<longrightarrow> fd_pfd (fd_list s ! 0) = 0 \<longrightarrow> 0 \<le> pid \<longrightarrow> pid \<le> 9 \<longrightarrow> False"
  proof (rule read_fd.raw_induct [where P = "\<lambda>e fd buf count pid s r. fd = 0 \<longrightarrow> length (fd_list s) = 5 \<longrightarrow>
      fd_pfd (fd_list s ! 0) = 0 \<longrightarrow> 0 \<le> pid \<longrightarrow> pid \<le> 9 \<longrightarrow> False", OF _ assms(1)], intro impI)
    fix f :: "env \<Rightarrow> int \<Rightarrow> byte list \<Rightarrow> u32 \<Rightarrow> int \<Rightarrow> kstate \<Rightarrow> (u32 \<times> byte list \<times> kstate) run"
    fix e fd buf count pid s r
    assume IH: "\<And>e fd buf count pid s r. f e fd buf count pid s = Some r \<Longrightarrow> fd = 0 \<longrightarrow>
        length (fd_list s) = 5 \<longrightarrow> fd_pfd (fd_list s ! 0) = 0 \<longrightarrow> 0 \<le> pid \<longrightarrow> pid \<le> 9 \<longrightarrow> False"
      and eq: "obind (Some (kfd_get fd s)) (\<lambda>d.
        obind (if fd_pfd d \<noteq> -1
          then obind (Some (lseek (fd_pfd d) (fd_pfd_offset d + fd_pos d) 0 pid s)) (\<lambda>r.
               f e (fd_pfd d) buf count 0 (snd r))
          else read_device e fd d buf count s) (\<lambda>r.
        read_done fd (fst r) (fst (snd r)) (snd (snd r)))) = Some r"
      and 0: "fd = 0" "length (fd_list s) = 5" "fd_pfd (fd_list s ! 0) = 0" "0 \<le> pid" "pid \<le> 9"
    let ?d = "fd_list s ! 0"
    have "\<exists>off s'. lseek 0 (fd_pfd_offset ?d + fd_pos ?d) 0 pid s = Inr (off, s')"
      using 0 by (cases "pid = 0") (auto simp: lseek_def cfd_upd_def kfd_upd_def ftab_upd_def upd_proc_def
          NUM_FILES_def NUM_PROCESSES_def)
    then obtain off s' where s': "lseek 0 (fd_pfd_offset ?d + fd_pos ?d) 0 pid s = Inr (off, s')" by blast
    then have "length (fd_list s') = 5" "fd_pfd (fd_list s' ! 0) = 0"
      using 0 by (auto simp: lseek_def cfd_upd_def kfd_upd_def ftab_upd_def upd_proc_def rbind_Inr_iff
          split: if_splits)
    with IH [of e 0 buf count 0 s'] have "f e 0 buf count 0 s' = None"
      by (cases "f e 0 buf count 0 s'") auto
    with eq 0 s' show False by (simp add: kfd_get_def)
  qed
  with assms show False by blast
qed

text \<open>C8: As long as nothing has opened standard input, its descriptor names itself as its parent, and
  a \<open>read\<close> on it, by the kernel or by a process, never returns.\<close>

theorem read_unopened_stdin_diverges:
  assumes "length (fd_list s) = 5" "fd_pfd (fd_list s ! 0) = 0" "0 \<le> pid" "pid \<le> 9"
  shows "read_fd e 0 buf count pid s = None"
  using read_fd_self_diverges [OF _ refl assms] by (cases "read_fd e 0 buf count pid s") auto

theorem read_unopened_stdin_diverges_witness:
  "read_fd sample_env 0 [0, 0] 1 1 zero_state = None"
  by (rule read_unopened_stdin_diverges) (simp_all add: zero_state_def zero_fd_def)

section \<open>The root directory descriptor\<close>

definition root_read_state :: "u32 \<Rightarrow> u32 \<Rightarrow> kstate \<Rightarrow> kstate" where
  "root_read_state at count s =
     s\<lparr>fd_list := (fd_list s)[4 := (fd_list s ! 4)\<lparr>fd_pos := at + count\<rparr>],
       fd_after := (fd_after s)\<lparr>fd_pos := fd_pos (fd_after s) + count\<rparr>\<rparr>"

lemma root_read_state_sel [simp]:
  "processes (root_read_state p n s) = processes s" "running_proc (root_read_state p n s) = running_proc s"
  "seg_arr (root_read_state p n s) = seg_arr s" "bs (root_read_state p n s) = bs s"
  "s_pos (root_read_state p n s) = s_pos s" "drv (root_read_state p n s) = drv s"
  "uitoa_buf (root_read_state p n s) = uitoa_buf s" "params (root_read_state p n s) = params s"
  "ram (root_read_state p n s) = ram s" "old_int8 (root_read_state p n s) = old_int8 s" "init_name (root_read_state p n s) = init_name s" "kbd (root_read_state p n s) = kbd s"
  "console (root_read_state p n s) = console s"
  "length (fd_list (root_read_state p n s)) = length (fd_list s)"
  "fd_after (root_read_state p n s) = (fd_after s)\<lparr>fd_pos := fd_pos (fd_after s) + n\<rparr>"
  by (simp_all add: root_read_state_def)

lemma root_read_state_ready [simp]: "fds_ready (root_read_state p n s) = fds_ready s"
  by (auto simp: fds_ready_def root_read_state_def)

lemma read_fd_root_kernel:
  assumes "fds_ready s" and at: "at = fd_pfd_offset (fd_after s) + fd_pos (fd_after s)"
    and fl: "\<And>s. read_floppy e 4 at buf count s = Inr (buf', s)"
  shows "read_fd e 5 buf count 0 s = ret (count, buf', root_read_state at count s)"
proof -
  let ?s = "s\<lparr>fd_list := (fd_list s)[4 := (fd_list s ! 4)\<lparr>fd_pos := at\<rparr>]\<rparr>"
  have fds: "length (fd_list s) = 5" "fd_pfd (fd_list s ! 4) = -1" "fd_pfd (fd_after s) = 4"
    using assms(1) by (simp_all add: fds_ready_def)
  then have "read_fd e 4 buf count 0 ?s = ret (count, buf', advance 4 count ?s)"
    using fl by (intro read_fd_floppy) simp_all
  moreover have "lseek 4 at 0 0 s = Inr (at, ?s)"
    by (simp add: lseek_def cfd_upd_kernel)
  ultimately show ?thesis
    using fds by (subst read_fd.simps)
      (simp add: kfd_get_def at read_done_def kfd_upd_def advance_def root_read_state_def)
qed

text \<open>the kernel's \<open>read\<close> on the root directory's descriptor delivers the disk's bytes at the
  directory's offset plus the position, and moves that position.\<close>

theorem root_read_correct:
  assumes "env_ok e" "disk_ok e 1" "fds_ready s"
    and "at = fd_pfd_offset (fd_after s) + fd_pos (fd_after s)" "pos = unat at" "n = unat count" "readable pos n" "n \<le> length buf"
  shows "read_fd e 5 buf count 0 s =
    ret (count, disk_bytes e 1 (floppy_pos pos) n @ drop n buf, root_read_state at count s)"
  using assms read_floppy_correct [of e 4 "at" count buf]
  by (intro read_fd_root_kernel) (auto simp: floppy_drive_def)

theorem root_read_correct_witness:
  "read_fd sample_env 5 (replicate 4 0) 2 0 root_state = ret (2, [67, 68, 0, 0], root_read_state 9792 2 root_state)"
proof -
  have "read_fd sample_env 5 (replicate 4 0) 2 0 root_state =
      ret (2, disk_bytes sample_env 1 (floppy_pos 9792) 2 @ drop 2 (replicate 4 0), root_read_state 9792 2 root_state)"
    by (rule root_read_correct) (simp_all add: root_state_after)
  moreover have "disk_bytes sample_env 1 9792 2 = [67, 68]"
    by (simp add: disk_bytes_def disk_byte_def disk_sector_def lba_chs_def sample_env_def)
  ultimately show ?thesis by (simp add: two_zeros)
qed

text \<open>the same call by a process delivers the bytes at the position of the kernel's floppy
  descriptor instead: neither the directory's offset nor its position has any influence, because
  the seek went to the table of the process.\<close>

theorem user_root_read_misses:
  assumes "env_ok e" "disk_ok e 1" "fds_ready s" "1 \<le> pid" "pid \<le> 9"
    and "pos = unat (fd_pos (fd_list s ! 4))" "n = unat count" "readable pos n" "n \<le> length buf"
  shows "\<exists>s'. read_fd e 5 buf count pid s = ret (count, disk_bytes e 1 (floppy_pos pos) n @ drop n buf, s')"
proof -
  let ?at = "fd_pfd_offset (fd_after s) + fd_pos (fd_after s)"
  obtain ps where ps: "cfd_upd pid 4 (\<lambda>d. d\<lparr>fd_pos := ?at\<rparr>) s = Inr (s\<lparr>processes := ps\<rparr>)"
    by (rule cfd_upd_user [of pid 4]) (use assms(4,5) in auto)
  let ?s = "s\<lparr>processes := ps\<rparr>"
  have fds: "fd_pfd (fd_list s ! 4) = -1" "fd_pfd (fd_after s) = 4"
    using assms(3) by (simp_all add: fds_ready_def)
  have "read_fd e 4 buf count 0 ?s = ret (count, disk_bytes e 1 (floppy_pos pos) n @ drop n buf, advance 4 count ?s)"
    using read_floppy_correct [of e 4 "fd_pos (fd_list s ! 4)" count buf ?s] assms fds
    by (intro read_fd_floppy) (auto simp: floppy_drive_def)
  then show ?thesis
    using fds ps by (subst read_fd.simps) (simp add: kfd_get_def lseek_def read_done_def kfd_upd_def)
qed

theorem user_root_read_misses_witness:
  "\<exists>s'. read_fd sample_env 5 (replicate 4 0) 2 1 root_state = ret (2, [0xFF, 0, 0, 0], s')"
proof -
  have "\<exists>s'. read_fd sample_env 5 (replicate 4 0) 2 1 root_state =
      ret (2, disk_bytes sample_env 1 (floppy_pos 510) 2 @ drop 2 (replicate 4 0), s')"
    by (rule user_root_read_misses) (simp_all add: root_state_after floppy_state_fds)
  moreover have "disk_bytes sample_env 1 510 2 = [0xFF, 0]"
    using sample_bytes by (simp add: floppy_drive_def)
  ultimately show ?thesis by (simp add: two_zeros)
qed

end
