(* ===== verification/Fat_Entry.thy ===== *)
theory Fat_Entry
  imports CString
begin

text \<open>
  Directory entries of the FAT file system: the packed structures of include/fs/fs.h and the
  functions of fs/msdos/fs.c that look at one entry.
\<close>

section \<open>\<open>Fat16Entry\<close>\<close>

record Fat16Entry =
  filename :: "byte list"
  ext :: "byte list"
  attributes :: byte
  reserved :: "byte list"
  modify_time :: u16
  modify_date :: u16
  starting_cluster :: u16
  file_size :: u32

definition entry_wf :: "Fat16Entry \<Rightarrow> bool" where
  "entry_wf f \<longleftrightarrow> length (filename f) = 8 \<and> length (ext f) = 3 \<and> length (reserved f) = 10"

text \<open>The structure is packed: its 32 bytes in memory and on disk.\<close>

definition entry_bytes :: "Fat16Entry \<Rightarrow> byte list" where
  "entry_bytes f = filename f @ ext f @ [attributes f] @ reserved f @ bytes16 (modify_time f)
     @ bytes16 (modify_date f) @ bytes16 (starting_cluster f) @ bytes32 (file_size f)"

definition entry_of :: "byte list \<Rightarrow> Fat16Entry" where
  "entry_of b = \<lparr>filename = take 8 b, ext = take 3 (drop 8 b), attributes = b ! 11,
     reserved = take 10 (drop 12 b), modify_time = le16 (take 2 (drop 22 b)),
     modify_date = le16 (take 2 (drop 24 b)), starting_cluster = le16 (take 2 (drop 26 b)),
     file_size = le32 (take 4 (drop 28 b))\<rparr>"

lemma entry_bytes_length: "entry_wf f \<Longrightarrow> length (entry_bytes f) = 32"
  by (simp add: entry_bytes_def entry_wf_def)

lemma entry_of_bytes: "entry_wf f \<Longrightarrow> entry_of (entry_bytes f) = f"
  by (simp add: entry_of_def entry_bytes_def entry_wf_def nth_append)

lemma entry_of_wf: "length b = 32 \<Longrightarrow> entry_wf (entry_of b)"
  by (simp add: entry_of_def entry_wf_def)

text \<open>A list of known length split after \<open>n\<close> elements.\<close>

lemma take_drop_split: "m \<le> n \<Longrightarrow> drop m b = take (n - m) (drop m b) @ drop n b"
  by (metis append_take_drop_id drop_drop le_add_diff_inverse2)

lemma entry_bytes_of:
  assumes "length b = 32"
  shows "entry_bytes (entry_of b) = b"
proof -
  have "b = take 8 b @ drop 8 b" by simp
  also have "drop 8 b = take 3 (drop 8 b) @ drop 11 b" using take_drop_split [of 8 11 b] by simp
  also have "drop 11 b = b ! 11 # drop 12 b" using assms by (simp add: drop_tail_cons)
  also have "drop 12 b = take 10 (drop 12 b) @ drop 22 b" using take_drop_split [of 12 22 b] by simp
  also have "drop 22 b = take 2 (drop 22 b) @ drop 24 b" using take_drop_split [of 22 24 b] by simp
  also have "drop 24 b = take 2 (drop 24 b) @ drop 26 b" using take_drop_split [of 24 26 b] by simp
  also have "drop 26 b = take 2 (drop 26 b) @ drop 28 b" using take_drop_split [of 26 28 b] by simp
  also have "drop 28 b = take 4 (drop 28 b)" using assms by simp
  finally have b: "b = take 8 b @ take 3 (drop 8 b) @ b ! 11 # take 10 (drop 12 b)
      @ take 2 (drop 22 b) @ take 2 (drop 24 b) @ take 2 (drop 26 b) @ take 4 (drop 28 b)" .
  have "entry_bytes (entry_of b) = take 8 b @ take 3 (drop 8 b) @ b ! 11 # take 10 (drop 12 b)
      @ take 2 (drop 22 b) @ take 2 (drop 24 b) @ take 2 (drop 26 b) @ take 4 (drop 28 b)"
    using assms by (simp add: entry_bytes_def entry_of_def bytes16_le16 bytes32_le32)
  with b show ?thesis by simp
qed

section \<open>Attributes and the kind of an entry\<close>

record fileAttrib =
  read_only :: byte
  hidden :: byte
  system_file :: byte
  volume_label :: byte
  subdirectory :: byte
  archive :: byte

definition file_attrib :: "Fat16Entry \<Rightarrow> fileAttrib" where
  "file_attrib file = \<lparr>read_only = attributes file AND 0x01, hidden = attributes file AND 0x02,
     system_file = attributes file AND 0x04, volume_label = attributes file AND 0x08,
     subdirectory = attributes file AND 0x10, archive = attributes file AND 0x20\<rparr>"

datatype entry_type = TYPE_VFAT | TYPE_DELETED | TYPE_NONE | TYPE_VOLLABEL | TYPE_FILE

definition get_entry_type :: "Fat16Entry \<Rightarrow> entry_type" where
  "get_entry_type entry =
     (let attrib = file_attrib entry in
      if filename entry ! 0 = 0xE5 then TYPE_DELETED
      else if filename entry ! 0 = 0 then TYPE_NONE
      else if starting_cluster entry = 0 \<and> reserved entry ! 0 = 0 \<and> attributes entry = 0x0F
              \<and> filename entry ! 0 AND 0x41 = 0x41 then TYPE_VFAT
      else if volume_label attrib \<noteq> 0 then TYPE_VOLLABEL
      else TYPE_FILE)"

lemma and_bit_nonzero: "(x :: byte) AND push_bit k 1 = 0 \<longleftrightarrow> k < 8 \<longrightarrow> \<not> bit x k"
proof
  assume h: "x AND push_bit k 1 = 0"
  show "k < 8 \<longrightarrow> \<not> bit x k"
  proof
    assume "k < 8"
    then have "bit (x AND push_bit k 1) k \<longleftrightarrow> bit x k"
      by (simp add: bit_simps)
    with h show "\<not> bit x k" by simp
  qed
next
  assume "k < 8 \<longrightarrow> \<not> bit x k"
  then show "x AND push_bit k 1 = 0"
    by (intro bit_word_eqI) (auto simp: bit_simps)
qed

lemma attribute_bits:
  "(x :: byte) AND 0x01 = 0 \<longleftrightarrow> \<not> bit x 0" "x AND 0x02 = 0 \<longleftrightarrow> \<not> bit x 1" "x AND 0x08 = 0 \<longleftrightarrow> \<not> bit x 3"
  "x AND 0x10 = 0 \<longleftrightarrow> \<not> bit x 4"
  using and_bit_nonzero [of x 0] and_bit_nonzero [of x 1] and_bit_nonzero [of x 3] and_bit_nonzero [of x 4]
  by (simp_all add: push_bit_eq_mult)

lemma entry_type_file:
  "get_entry_type f = TYPE_FILE \<longleftrightarrow>
     filename f ! 0 \<noteq> 0xE5 \<and> filename f ! 0 \<noteq> 0 \<and> \<not> bit (attributes f) 3"
proof -
  have "bit (0x0F :: byte) 3" by (simp add: bit_numeral_rec)
  then show ?thesis
    by (auto simp: get_entry_type_def file_attrib_def attribute_bits Let_def)
qed

text \<open>an entry counts as a file exactly when its first byte marks it neither deleted nor unused
  and its volume-label bit is clear; a long-name entry has that bit set, so the separate test for
  it only decides which of the two skipped kinds is reported.\<close>

theorem entry_type_file_iff:
  "get_entry_type f = TYPE_FILE \<longleftrightarrow>
     filename f ! 0 \<noteq> 0xE5 \<and> filename f ! 0 \<noteq> 0 \<and> \<not> bit (attributes f) 3"
  by (rule entry_type_file)

section \<open>Names\<close>

text \<open>The space-padded fields become strings; the buffers of the caller have nine and four bytes.
  \<open>file->filename\<close> is the start of the structure and \<open>file->ext\<close> its byte 8.\<close>

fun blank_loop :: "byte list \<Rightarrow> nat \<Rightarrow> nat \<Rightarrow> byte list res" where
  "blank_loop s i 0 = Inr s"
| "blank_loop s i (Suc n) =
     rbind (load_byte s i) (\<lambda>c.
     rbind (if c = 32 then store_byte s i 0 else Inr s) (\<lambda>s. blank_loop s (Suc i) n))"

definition extract_file_name :: "Fat16Entry \<Rightarrow> byte list \<Rightarrow> byte list \<Rightarrow> (byte list \<times> byte list) run" where
  "extract_file_name file fname fext =
     obind (strncpy fname (entry_bytes file) 8) (\<lambda>fname.
     obind (Some (store_byte fname 8 0)) (\<lambda>fname.
     obind (strncpy fext (drop 8 (entry_bytes file)) 3) (\<lambda>fext.
     obind (Some (store_byte fext 3 0)) (\<lambda>fext.
     obind (Some (blank_loop fname 0 8)) (\<lambda>fname.
     obind (Some (blank_loop fext 0 3)) (\<lambda>fext. ret (fname, fext)))))))"

definition blank :: "byte \<Rightarrow> byte" where
  "blank c = (if c = 32 then 0 else c)"

lemma blank_loop_eq:
  "i + n \<le> length s \<Longrightarrow>
   blank_loop s i n = Inr (take i s @ map blank (take n (drop i s)) @ drop (i + n) s)"
proof (induction n arbitrary: s i)
  case 0
  then show ?case by simp
next
  case (Suc n)
  have d: "drop i s = s ! i # drop (Suc i) s" using Suc.prems by (intro drop_tail_cons) simp
  let ?s = "s[i := blank (s ! i)]"
  have "blank_loop s i (Suc n) = blank_loop ?s (Suc i) n"
    using Suc.prems by (simp add: blank_def)
  also have "\<dots> = Inr (take (Suc i) ?s @ map blank (take n (drop (Suc i) ?s)) @ drop (Suc i + n) ?s)"
    using Suc.prems by (intro Suc.IH) simp
  also have "take (Suc i) ?s = take i s @ [blank (s ! i)]"
    using Suc.prems by (simp add: take_Suc_conv_app_nth)
  finally show ?case
    using Suc.prems by (simp add: d drop_update_cancel)
qed

text \<open>What the caller then reads as a string: the field up to its first space.\<close>

definition field_text :: "byte list \<Rightarrow> byte list" where
  "field_text b = takeWhile (\<lambda>c. c \<noteq> 32) b"

lemma cval_blank: "0 \<notin> set b \<Longrightarrow> cval (map blank b @ 0 # r) = field_text b"
  by (induction b) (auto simp: field_text_def cval_Cons blank_def)

lemma extract_file_name_eq:
  assumes "entry_wf f" "0 \<notin> set (filename f)" "0 \<notin> set (ext f)" "length fname = 9" "length fext = 4"
  shows "extract_file_name f fname fext = ret (map blank (filename f) @ [0], map blank (ext f) @ [0])"
proof -
  let ?b = "entry_bytes f"
  have l: "length ?b = 32" using assms(1) by (rule entry_bytes_length)
  have n: "take 8 ?b = filename f" and e: "take 3 (drop 8 ?b) = ext f"
    using assms(1) by (simp_all add: entry_bytes_def entry_wf_def)
  have "strncpy fname ?b 8 = ret (take (Suc 8) ?b @ drop (Suc 8) fname)"
    using assms(2,4) l n by (intro strncpy_full) simp_all
  also have "take (Suc 8) ?b = filename f @ [?b ! 8]"
    using l n by (subst take_Suc_conv_app_nth) simp_all
  finally have 1: "strncpy fname ?b 8 = ret (filename f @ [?b ! 8])" using assms(4) by simp
  have "strncpy fext (drop 8 ?b) 3 = ret (take (Suc 3) (drop 8 ?b) @ drop (Suc 3) fext)"
    using assms(3,5) l e by (intro strncpy_full) simp_all
  also have "take (Suc 3) (drop 8 ?b) = ext f @ [drop 8 ?b ! 3]"
    using l e by (subst take_Suc_conv_app_nth) simp_all
  finally have 2: "strncpy fext (drop 8 ?b) 3 = ret (ext f @ [drop 8 ?b ! 3])" using assms(5) by simp
  have len: "length (filename f) = 8" "length (ext f) = 3" using assms(1) by (simp_all add: entry_wf_def)
  show ?thesis
    unfolding extract_file_name_def 1 2 using len
    by (simp add: 2 list_update_append blank_loop_eq)
qed

text \<open>A file for the concrete inputs.\<close>

definition ls_entry :: Fat16Entry where
  "ls_entry = \<lparr>filename = lit ''LS      '', ext = lit ''BIN'', attributes = 0x20, reserved = replicate 10 0,
     modify_time = 0x7D1C, modify_date = 0x4F9F, starting_cluster = 5, file_size = 700\<rparr>"

lemma ls_entry_wf [simp]: "entry_wf ls_entry"
  by (simp add: entry_wf_def ls_entry_def)

text \<open>A field without an early NUL, and the string the blanked field is.\<close>

lemma early_NUL: "k \<le> length b \<Longrightarrow> Suc k \<le> Suc (length (cval b)) \<longleftrightarrow> 0 \<notin> set (take k b)"
proof -
  assume k: "k \<le> length b"
  have "k \<le> length (cval b) \<longleftrightarrow> length (cval (take k b)) = k"
    by (auto simp: cval_take)
  also have "\<dots> \<longleftrightarrow> cval (take k b) = take k b"
    using k unfolding cval_def by (metis length_take min.absorb2 takeWhile_eq_take take_all_iff order_refl)
  also have "\<dots> \<longleftrightarrow> 0 \<notin> set (take k b)"
    unfolding cval_def by (auto simp: takeWhile_eq_all_conv)
  finally show ?thesis by simp
qed

lemma cval_map_blank: "cval (map blank b @ [0]) = takeWhile (\<lambda>c. c \<noteq> 0 \<and> c \<noteq> 32) b"
  by (induction b) (auto simp: cval_Cons blank_def)

text \<open>C7: \<open>extract_file_name\<close> on a directory entry: as long as a NUL in either name field can only be its last byte, it returns, and the two
  buffers hold the name and the extension as terminated strings, each up to the first space or NUL of its field; an entry with an earlier NUL, which
  a disk may well hold, makes \<open>strncpy\<close> pad without end.\<close>

theorem extract_file_name_exact:
  assumes "entry_wf f" "length fname = 9" "length fext = 4"
  shows "if 0 \<notin> set (take 7 (filename f)) \<and> 0 \<notin> set (take 2 (ext f))
    then \<exists>n x. extract_file_name f fname fext = ret (n, x)
      \<and> terminated n \<and> cval n = takeWhile (\<lambda>c. c \<noteq> 0 \<and> c \<noteq> 32) (filename f)
      \<and> terminated x \<and> cval x = takeWhile (\<lambda>c. c \<noteq> 0 \<and> c \<noteq> 32) (ext f)
    else extract_file_name f fname fext = None"
proof -
  let ?b = "entry_bytes f"
  have l: "length ?b = 32" using assms(1) by (rule entry_bytes_length)
  have len: "length (filename f) = 8" "length (ext f) = 3" using assms(1) by (simp_all add: entry_wf_def)
  have n: "take 8 ?b = filename f" and e: "take 3 (drop 8 ?b) = ext f"
    using len by (simp_all add: entry_bytes_def)
  have n8: "8 \<le> Suc (length (cval (take 8 ?b))) \<longleftrightarrow> 0 \<notin> set (take 7 (filename f))"
    using early_NUL [of 7 "filename f"] len n by simp
  have e3: "3 \<le> Suc (length (cval (take 3 (drop 8 ?b)))) \<longleftrightarrow> 0 \<notin> set (take 2 (ext f))"
    using early_NUL [of 2 "ext f"] len e by simp
  consider "0 \<in> set (take 7 (filename f))" | "0 \<notin> set (take 7 (filename f))" "0 \<in> set (take 2 (ext f))"
    | "0 \<notin> set (take 7 (filename f))" "0 \<notin> set (take 2 (ext f))" by blast
  then show ?thesis
  proof cases
    case 1
    then have "strncpy fname ?b 8 = None" using n8 l assms by (intro strncpy_diverges) auto
    with 1 show ?thesis by (simp add: extract_file_name_def)
  next
    case 2
    then obtain n' where "strncpy fname ?b 8 = ret n'" "length n' = 9"
      using n8 l assms strncpy_takes [of 8 ?b fname] by auto
    moreover have "strncpy fext (drop 8 ?b) 3 = None" using 2 e3 l assms by (intro strncpy_diverges) auto
    ultimately show ?thesis using 2 by (simp add: extract_file_name_def)
  next
    case 3
    obtain n' where n': "strncpy fname ?b 8 = ret n'" "length n' = 9" "take 8 n' = filename f"
      using 3 n8 l n assms strncpy_takes [of 8 ?b fname] by auto
    obtain x where x: "strncpy fext (drop 8 ?b) 3 = ret x" "length x = 4" "take 3 x = ext f"
      using 3 e3 l e assms strncpy_takes [of 3 "drop 8 ?b" fext] by auto
    have "n'[8 := 0] = filename f @ [0]" "x[3 := 0] = ext f @ [0]"
      using n'(2,3) x(2,3) by (simp_all add: upd_conv_take_nth_drop)
    then have "extract_file_name f fname fext = ret (map blank (filename f) @ [0], map blank (ext f) @ [0])"
      using len n' x by (simp add: extract_file_name_def blank_loop_eq)
    with 3 show ?thesis by (simp add: cval_map_blank)
  qed
qed

theorem extract_file_name_exact_witness:
  "(\<exists>n x. extract_file_name ls_entry (replicate 9 1) (replicate 4 1) = ret (n, x)
      \<and> terminated n \<and> cval n = lit ''LS'' \<and> terminated x \<and> cval x = lit ''BIN'')
   \<and> extract_file_name (ls_entry\<lparr>filename := cstr ''LS'' @ lit ''     ''\<rparr>) (replicate 9 1) (replicate 4 1) = None"
  using extract_file_name_exact [of ls_entry "replicate 9 1" "replicate 4 1"]
    extract_file_name_exact [of "ls_entry\<lparr>filename := cstr ''LS'' @ lit ''     ''\<rparr>" "replicate 9 1" "replicate 4 1"]
  by (simp add: ls_entry_def entry_wf_def cstr_def)

end
