(* ===== verification/Fat_Volume.thy ===== *)
theory Fat_Volume
  imports Disk_Access Fat_Entry
begin

text \<open>
  The volume on the second floppy, fs/msdos/fs.c: the boot sector and the sections it locates,
  clusters, and the FAT12 chain.
\<close>

section \<open>The boot sector\<close>

text \<open>Fields of \<open>Fat16BootSector\<close>, a packed structure of 512 bytes.\<close>

definition bs_sector_size :: "kstate \<Rightarrow> u16" where
  "bs_sector_size s = le16 (take 2 (drop 11 (bs s)))"

definition bs_sectors_per_cluster :: "kstate \<Rightarrow> byte" where
  "bs_sectors_per_cluster s = bs s ! 13"

definition bs_reserved_sectors :: "kstate \<Rightarrow> u16" where
  "bs_reserved_sectors s = le16 (take 2 (drop 14 (bs s)))"

definition bs_number_of_fats :: "kstate \<Rightarrow> byte" where
  "bs_number_of_fats s = bs s ! 16"

definition bs_root_dir_entries :: "kstate \<Rightarrow> u16" where
  "bs_root_dir_entries s = le16 (take 2 (drop 17 (bs s)))"

definition bs_fat_size_sectors :: "kstate \<Rightarrow> u16" where
  "bs_fat_size_sectors s = le16 (take 2 (drop 22 (bs s)))"

text \<open>Every access of the volume is a seek followed by a read, as pid 0; both results are ignored.\<close>

definition seek_read :: "env \<Rightarrow> int \<Rightarrow> u32 \<Rightarrow> byte list \<Rightarrow> u32 \<Rightarrow> kstate \<Rightarrow> (byte list \<times> kstate) run" where
  "seek_read e fd off buf n s =
     obind (Some (lseek fd off 0 0 s)) (\<lambda>r.
     obind (read_fd e fd buf n 0 (snd r)) (\<lambda>r. ret (snd r)))"

definition open_drive :: "kstate \<Rightarrow> (int \<times> kstate) res" where
  "open_drive s = rbind (open_fd (cstr ''/dev/fdb'') 0 0 s) (\<lambda>(fd, s). Inr (fd, s\<lparr>drv := fd\<rparr>))"

definition section_starts :: "kstate \<Rightarrow> section_positions res" where
  "section_starts s =
     (if bs_sector_size s = 0 then Inl DivByZero
      else let sector_size = ucast (bs_sector_size s);
               root_sectors = ucast (bs_root_dir_entries s) * 32 div sector_size;
               fat_start = sector_size * ucast (bs_reserved_sectors s);
               root_start = fat_start
                 + sector_size * ucast (bs_fat_size_sectors s) * ucast (bs_number_of_fats s)
           in Inr \<lparr>fat_section_start = fat_start,
                   data_section_start = root_start + sector_size * root_sectors,
                   root_directory_start = root_start\<rparr>)"

definition read_boot_sector :: "env \<Rightarrow> kstate \<Rightarrow> kstate run" where
  "read_boot_sector e s =
     obind (seek_read e 4 0 (bs s) 512 s) (\<lambda>(b, s). let s = s\<lparr>bs := b\<rparr> in
     obind (Some (section_starts s)) (\<lambda>p. ret (s\<lparr>s_pos := p\<rparr>)))"

text \<open>The number of bytes asked for is the number of sectors of the tables.\<close>

definition read_fat :: "env \<Rightarrow> byte list \<Rightarrow> kstate \<Rightarrow> (byte list \<times> kstate) run" where
  "read_fat e fatcache s =
     seek_read e 4 (fat_section_start (s_pos s)) fatcache
       (ucast (bs_number_of_fats s) * ucast (bs_fat_size_sectors s)) s"

definition read_root_dir :: "env \<Rightarrow> byte list \<Rightarrow> kstate \<Rightarrow> (byte list \<times> kstate) run" where
  "read_root_dir e rootcache s =
     seek_read e 4 (root_directory_start (s_pos s)) rootcache (32 * ucast (bs_root_dir_entries s)) s"

section \<open>Clusters\<close>

definition cluster_size :: "kstate \<Rightarrow> u32" where
  "cluster_size s = ucast (bs_sector_size s) * ucast (bs_sectors_per_cluster s)"

definition read_cluster :: "env \<Rightarrow> byte list \<Rightarrow> u32 \<Rightarrow> kstate \<Rightarrow> (byte list \<times> kstate) run" where
  "read_cluster e buffer cluster_num s =
     (let seek_pos = data_section_start (s_pos s) + cluster_size s * (cluster_num - 2)
      in seek_read e 4 seek_pos buffer (cluster_size s) s)"

definition get_next_cluster :: "env \<Rightarrow> u32 \<Rightarrow> kstate \<Rightarrow> (u32 \<times> kstate) run" where
  "get_next_cluster e curr_cluster s =
     (let cluster_entry = curr_cluster + curr_cluster div 2 in
      obind (seek_read e 4 (fat_section_start (s_pos s) + cluster_entry) (bytes32 0) 2 s) (\<lambda>(b, s).
      let next_cluster = le32 b in
      ret (if curr_cluster AND 1 \<noteq> 0 then drop_bit 4 next_cluster else next_cluster AND 0x0FFF, s)))"

section \<open>Loading into a segment\<close>

text \<open>\<open>load_to_memory\<close> copies words with \<open>lodsw\<close>/\<open>stosw\<close> and \<open>loop\<close>: \<open>CX\<close>, \<open>ES\<close> and \<open>DI\<close> take the low
  16 bits, and a count of zero words stands for 65536.\<close>

definition phys :: "u32 \<Rightarrow> u32 \<Rightarrow> nat" where
  "phys segment offs = unat (ucast segment :: u16) * 16 + unat (ucast offs :: u16)"

fun load_bytes :: "u32 \<Rightarrow> u32 \<Rightarrow> byte list \<Rightarrow> nat \<Rightarrow> nat \<Rightarrow> kstate \<Rightarrow> kstate res" where
  "load_bytes segment offs buffer i 0 s = Inr s"
| "load_bytes segment offs buffer i (Suc n) s =
     rbind (load_byte buffer i) (\<lambda>b.
     load_bytes segment (offs + 1) buffer (Suc i) n (s\<lparr>ram := (ram s)(phys segment offs := b)\<rparr>))"

definition load_to_memory :: "u32 \<Rightarrow> u32 \<Rightarrow> byte list \<Rightarrow> u32 \<Rightarrow> kstate \<Rightarrow> kstate res" where
  "load_to_memory segment prog_offset buffer count s =
     (let cx = unat (ucast (count div 2) :: u16);
          words = (if cx = 0 then 65536 else cx)
      in load_bytes segment prog_offset buffer 0 (2 * words) s)"

text \<open>The loops over a file's chain run until an end mark: on a chain that leads round they do not
  end.\<close>

partial_function (option) load_file_loop ::
    "env \<Rightarrow> u32 \<Rightarrow> byte list \<Rightarrow> u32 \<Rightarrow> u32 \<Rightarrow> kstate \<Rightarrow> kstate run" where
  "load_file_loop e segment clust_buf offs curr_cluster s =
     obind (read_cluster e clust_buf curr_cluster s) (\<lambda>r.
     obind (Some (load_to_memory segment offs (fst r) 4096 (snd r))) (\<lambda>s.
     obind (get_next_cluster e curr_cluster s) (\<lambda>n.
     if fst n < 0x0FF8 then load_file_loop e segment (fst r) (offs + 4096) (fst n) (snd n)
     else ret (snd n))))"

definition load_file_content :: "env \<Rightarrow> Fat16Entry \<Rightarrow> u32 \<Rightarrow> u32 \<Rightarrow> kstate \<Rightarrow> kstate run" where
  "load_file_content e file segment offs s =
     load_file_loop e segment (junk_clust_buf e) offs (ucast (starting_cluster file)) s"

partial_function (option) print_file_loop :: "env \<Rightarrow> byte list \<Rightarrow> u32 \<Rightarrow> kstate \<Rightarrow> kstate run" where
  "print_file_loop e clust_buf curr_cluster s =
     obind (read_cluster e clust_buf curr_cluster s) (\<lambda>r.
     obind (Some (store_byte (fst r) 4096 0)) (\<lambda>b.
     obind (Some (printk b (snd r))) (\<lambda>s.
     obind (get_next_cluster e curr_cluster s) (\<lambda>n.
     if fst n < 0x0FF8 then print_file_loop e b (fst n) (snd n) else ret (snd n)))))"

definition print_file :: "env \<Rightarrow> Fat16Entry \<Rightarrow> kstate \<Rightarrow> kstate run" where
  "print_file e file s =
     obind (print_file_loop e (junk_clust_buf e @ [0]) (ucast (starting_cluster file)) s) (\<lambda>s.
     Some (printk ([13, 10] @ lit ''EOF'' @ [13, 10, 0]) s))"

section \<open>Seeking and reading\<close>

definition seek_state :: "u32 \<Rightarrow> u32 \<Rightarrow> kstate \<Rightarrow> kstate" where
  "seek_state off n s = s\<lparr>fd_list := (fd_list s)[4 := (fd_list s ! 4)\<lparr>fd_pos := off + n\<rparr>]\<rparr>"

lemma seek_state_sel [simp]:
  "processes (seek_state p n s) = processes s" "running_proc (seek_state p n s) = running_proc s"
  "fd_after (seek_state p n s) = fd_after s" "seg_arr (seek_state p n s) = seg_arr s"
  "bs (seek_state p n s) = bs s" "s_pos (seek_state p n s) = s_pos s" "drv (seek_state p n s) = drv s"
  "uitoa_buf (seek_state p n s) = uitoa_buf s" "params (seek_state p n s) = params s"
  "ram (seek_state p n s) = ram s" "old_int8 (seek_state p n s) = old_int8 s" "init_name (seek_state p n s) = init_name s" "kbd (seek_state p n s) = kbd s"
  "console (seek_state p n s) = console s" "length (fd_list (seek_state p n s)) = length (fd_list s)"
  by (simp_all add: seek_state_def)

lemma seek_state_ready [simp]: "fds_ready (seek_state p n s) = fds_ready s"
  by (auto simp: fds_ready_def seek_state_def)

lemma seek_state_twice [simp]:
  "length (fd_list s) = 5 \<Longrightarrow> seek_state p n (seek_state p' n' s) = seek_state p n s"
  by (simp add: seek_state_def)

lemma seek_state_ram [simp]:
  "length (fd_list s) = 5 \<Longrightarrow>
   seek_state q m ((seek_state p n s)\<lparr>ram := r\<rparr>) = seek_state q m (s\<lparr>ram := r\<rparr>)"
  by (simp add: seek_state_def)

text \<open>The drive's own descriptor is open; the table as a whole may not be ready yet.\<close>

definition drive_ready :: "kstate \<Rightarrow> bool" where
  "drive_ready s \<longleftrightarrow> length (fd_list s) = 5 \<and> fd_pfd (fd_list s ! 4) = -1"

lemma fds_ready_drive: "fds_ready s \<Longrightarrow> drive_ready s"
  by (simp add: fds_ready_def drive_ready_def)

lemma seek_state_drive [simp]: "drive_ready (seek_state p n s) = drive_ready s"
  by (auto simp: drive_ready_def seek_state_def)

lemma seek_read_4:
  assumes "env_ok e" "disk_ok e 1" "drive_ready s" "readable (unat off) (unat n)" "unat n \<le> length buf"
  shows "seek_read e 4 off buf n s =
    ret (disk_bytes e 1 (floppy_pos (unat off)) (unat n) @ drop (unat n) buf, seek_state off n s)"
proof -
  let ?s = "s\<lparr>fd_list := (fd_list s)[4 := (fd_list s ! 4)\<lparr>fd_pos := off\<rparr>]\<rparr>"
  have fds: "length (fd_list s) = 5" "fd_pfd (fd_list s ! 4) = -1"
    using assms(3) by (simp_all add: drive_ready_def)
  have "read_fd e 4 buf n 0 ?s =
      ret (n, disk_bytes e 1 (floppy_pos (unat off)) (unat n) @ drop (unat n) buf, advance 4 n ?s)"
    using fds assms read_floppy_correct [of e 4 off n buf ?s]
    by (intro read_fd_floppy) (simp_all add: floppy_drive_def)
  moreover have "advance 4 n ?s = seek_state off n s"
    using fds by (simp add: advance_def seek_state_def)
  ultimately show ?thesis
    by (simp add: seek_read_def lseek_def cfd_upd_kernel)
qed

section \<open>The FAT12 chain\<close>

text \<open>The reference: a table of 12-bit entries laid out in bytes, two entries in three bytes.\<close>

fun fat12_bytes :: "12 word list \<Rightarrow> byte list" where
  "fat12_bytes [] = []"
| "fat12_bytes [a] = [ucast a, ucast (drop_bit 8 a)]"
| "fat12_bytes (a # b # es) =
     [ucast a, ucast (drop_bit 8 a) OR push_bit 4 (ucast b), ucast (drop_bit 4 b)] @ fat12_bytes es"

text \<open>How the code takes an entry out of the two bytes it reads.\<close>

definition fat12_decode :: "bool \<Rightarrow> u32 \<Rightarrow> u32" where
  "fat12_decode oddc w = (if oddc then drop_bit 4 w else w AND 0x0FFF)"

lemma bit_12_high [simp]: "12 \<le> n \<Longrightarrow> \<not> bit (a :: 12 word) n"
  using bit_imp_le_length [of a n] by auto

lemma mask12: "(w :: u32) AND 0x0FFF = take_bit 12 w"
  by (simp add: take_bit_eq_mask mask_eq_exp_minus_1)

lemma fat12_even:
  "fat12_decode False (le32 [ucast (a :: 12 word), ucast (drop_bit 8 a) OR push_bit 4 (b :: byte), 0, 0]) = ucast a"
  unfolding fat12_decode_def le32_def if_False list.case mask12
proof (rule bit_word_eqI)
  fix n assume "n < LENGTH(32)"
  then consider "n < 8" | "8 \<le> n" "n < 12" | "12 \<le> n" by fastforce
  then show "bit (take_bit 12 (ucast (ucast a :: byte) OR push_bit 8 (ucast (ucast (drop_bit 8 a) OR push_bit 4 b))
      OR push_bit 16 (ucast (0 :: byte)) OR push_bit 24 (ucast (0 :: byte))) :: u32) n \<longleftrightarrow> bit (ucast a :: u32) n"
    by cases (auto simp: bit_simps)
qed

lemma fat12_odd:
  "fat12_decode True (le32 [x OR push_bit 4 (ucast (b :: 12 word)), ucast (drop_bit 4 b), 0, 0]) = ucast b"
  if x: "\<And>n. 4 \<le> n \<Longrightarrow> \<not> bit (x :: byte) n"
  unfolding fat12_decode_def le32_def if_True list.case
proof (rule bit_word_eqI)
  fix n assume "n < LENGTH(32)"
  then consider "n < 4" | "4 \<le> n" "n < 12" | "12 \<le> n" by fastforce
  then show "bit (drop_bit 4 (ucast (x OR push_bit 4 (ucast b)) OR push_bit 8 (ucast (ucast (drop_bit 4 b) :: byte))
      OR push_bit 16 (ucast (0 :: byte)) OR push_bit 24 (ucast (0 :: byte))) :: u32) n \<longleftrightarrow> bit (ucast b :: u32) n"
    by cases (auto simp: bit_simps x)
qed
lemma drop_bit_8_high: "4 \<le> n \<Longrightarrow> \<not> bit (ucast (drop_bit 8 (a :: 12 word)) :: byte) n"
  by (auto simp: bit_simps)

lemma fat12_lookup:
  "c < length es \<Longrightarrow> c + c div 2 + 1 < length (fat12_bytes es) \<and>
   fat12_decode (odd c) (le32 [fat12_bytes es ! (c + c div 2), fat12_bytes es ! (c + c div 2 + 1), 0, 0])
     = ucast (es ! c)"
proof (induction es arbitrary: c rule: fat12_bytes.induct)
  case 1
  then show ?case by simp
next
  case (2 a)
  then show ?case using fat12_even [of a 0] by simp
next
  case (3 a b es)
  consider "c = 0" | "c = 1" | d where "c = Suc (Suc d)"
    by (metis One_nat_def not0_implies_Suc)
  then show ?case
  proof cases
    case 1
    then show ?thesis using fat12_even [of a "ucast b"] by simp
  next
    case 2
    then show ?thesis using fat12_odd [of "ucast (drop_bit 8 a)" b] drop_bit_8_high by simp
  next
    case 3
    with "3.prems" "3.IH" [of d] show ?thesis by simp
  qed
qed

lemma disk_bytes_nth: "i < n \<Longrightarrow> disk_bytes e drive p n ! i = disk_byte e drive (p + i)"
  by (simp add: disk_bytes_def)

lemma odd_cluster: "(c :: u32) AND 1 \<noteq> 0 \<longleftrightarrow> odd (unat c)"
  by (simp add: and_one_eq odd_iff_mod_2_eq_one word_unat_eq_iff unat_mod)

text \<open>The volume: a table of entries on the disk, where the code looks for it, within the floppy.\<close>

definition fat_at :: "env \<Rightarrow> nat \<Rightarrow> 12 word list \<Rightarrow> bool" where
  "fat_at e p es \<longleftrightarrow> disk_bytes e 1 p (length (fat12_bytes es)) = fat12_bytes es
     \<and> p + length (fat12_bytes es) \<le> 1474560"

text \<open>The entries the code can reach: not split over two sectors, and in no last sector of a track.\<close>

definition entry_reachable :: "nat \<Rightarrow> nat \<Rightarrow> bool" where
  "entry_reachable p c \<longleftrightarrow>
     (p + (c + c div 2)) mod 512 \<noteq> 511 \<and> (p + (c + c div 2)) div 512 mod 18 \<noteq> 17"

lemma two_in_sector: "x mod 512 \<noteq> 511 \<Longrightarrow> x mod 512 + 2 \<le> (512 :: nat)"
  using mod_less_divisor [of 512 x] by linarith

lemma get_next_cluster_eq:
  assumes "env_ok e" "disk_ok e 1" "fds_ready s" "fat_at e (unat (fat_section_start (s_pos s))) es"
    and c: "unat c < length es" "entry_reachable (unat (fat_section_start (s_pos s))) (unat c)"
  shows "get_next_cluster e c s =
    ret (ucast (es ! unat c), seek_state (fat_section_start (s_pos s) + (c + c div 2)) 2 s)"
proof -
  let ?F = "unat (fat_section_start (s_pos s))" and ?k = "unat c + unat c div 2"
  let ?off = "fat_section_start (s_pos s) + (c + c div 2)"
  have k: "?k + 1 < length (fat12_bytes es)" using fat12_lookup [OF c(1)] by simp
  have F: "?F + length (fat12_bytes es) \<le> 1474560" using assms(4) by (simp add: fat_at_def)
  have "unat (c div 2) = unat c div 2" by (simp add: unat_div)
  then have "unat (c + c div 2) = ?k" using k F by (subst unat_u32_add) simp_all
  then have off: "unat ?off = ?F + ?k" using k F by (subst unat_u32_add) simp_all
  have fixed: "floppy_pos (?F + ?k) = ?F + ?k"
    using c(2) by (subst floppy_pos_fixed) (simp add: entry_reachable_def)
  have "(?F + ?k) mod 512 + 2 \<le> 512"
    using c(2) by (intro two_in_sector) (simp add: entry_reachable_def)
  then have r: "readable (unat ?off) (unat (2 :: u32))"
    unfolding readable_def off fixed using k F by simp
  have byte: "disk_byte e 1 (?F + i) = fat12_bytes es ! i" if "i < length (fat12_bytes es)" for i
    using assms(4) disk_bytes_nth [OF that, of e 1 ?F] by (simp add: fat_at_def)
  have "disk_bytes e 1 (?F + ?k) 2 = [fat12_bytes es ! ?k, fat12_bytes es ! (?k + 1)]"
    using byte [of ?k] byte [of "?k + 1"] k by (simp add: disk_bytes_def add.assoc)
  moreover have "drop 2 (bytes32 0) = [0, 0]" by (simp add: bytes32_def)
  ultimately have "seek_read e 4 ?off (bytes32 0) 2 s =
      ret ([fat12_bytes es ! ?k, fat12_bytes es ! (?k + 1), 0, 0], seek_state ?off 2 s)"
    using seek_read_4 [OF assms(1,2) fds_ready_drive [OF assms(3)] r, of "bytes32 0"] unfolding off fixed by simp
  moreover have "fat12_decode (c AND 1 \<noteq> 0) (le32 [fat12_bytes es ! ?k, fat12_bytes es ! (?k + 1), 0, 0]) = ucast (es ! unat c)"
    using fat12_lookup [OF c(1)] unfolding odd_cluster by simp
  ultimately show ?thesis
    by (simp add: get_next_cluster_def fat12_decode_def Let_def)
qed

text \<open>C5: \<open>get_next_cluster\<close> returns the entry of the cluster in the FAT12 table on the disk, whichever
  half of its three bytes the entry lies in, for every entry that is not split over two sectors
  (and not in the last sector of a track).\<close>

theorem get_next_cluster_correct:
  assumes "env_ok e" "disk_ok e 1" "fds_ready s" "fat_at e (unat (fat_section_start (s_pos s))) es"
    and c: "unat c < length es" "entry_reachable (unat (fat_section_start (s_pos s))) (unat c)"
  shows "get_next_cluster e c s =
    ret (ucast (es ! unat c), seek_state (fat_section_start (s_pos s) + (c + c div 2)) 2 s)"
  using assms by (rule get_next_cluster_eq)

text \<open>C31: the entry that is split over two sectors is put together from the last byte of the first
  sector and whatever lies behind the sector buffer on the stack.\<close>

theorem split_entry_reads_stack:
  assumes "env_ok e" "disk_ok e 1" "fds_ready s"
    and "p = unat (fat_section_start (s_pos s) + (c + c div 2))" "p < 1474560"
    and "p mod 512 = 511" "p div 512 mod 18 \<noteq> 17"
  shows "get_next_cluster e c s =
    ret (fat12_decode (odd (unat c)) (le32 [disk_byte e 1 p, past_sector_buf e ! 0, 0, 0]),
         seek_state (fat_section_start (s_pos s) + (c + c div 2)) 2 s)"
proof -
  let ?off = "fat_section_start (s_pos s) + (c + c div 2)" and ?l = "p div 512"
  let ?s = "s\<lparr>fd_list := (fd_list s)[4 := (fd_list s ! 4)\<lparr>fd_pos := ?off\<rparr>]\<rparr>"
  have fds: "length (fd_list s) = 5" "fd_pfd (fd_list s ! 4) = -1"
    using assms(3) by (simp_all add: fds_ready_def)
  have slip: "chs_slip ?l = ?l" using assms(7) chs_slip_fixed by blast
  have "p < 2880 * 512" using assms(5) by simp
  then have l: "?l < 2880" by (rule less_mult_imp_div_less)
  have "length (past_sector_buf e) = 512" using assms(1) by (simp add: env_ok_def)
  then obtain j js where j: "past_sector_buf e = j # js" by (cases "past_sector_buf e") auto
  have last: "drop 511 (disk_sector e 1 ?l) = [disk_byte e 1 p]"
    using disk_sector_length [OF assms(1), of 1 ?l] assms(6)
    by (simp add: drop_tail_cons disk_byte_def)
  have "read_floppy e 4 ?off (bytes32 0) 2 ?s = Inr (take 2 (drop 511 (disk_sector e 1 ?l @ past_sector_buf e))
      @ drop 2 (bytes32 0), ?s)"
    using read_floppy_one [OF assms(1), of 4 ?off 2 "bytes32 0" ?s] assms(2,4,6) l slip
    by (simp add: floppy_drive_def)
  also have "take 2 (drop 511 (disk_sector e 1 ?l @ past_sector_buf e)) = [disk_byte e 1 p, past_sector_buf e ! 0]"
    using last disk_sector_length [OF assms(1), of 1 ?l] by (simp add: j numeral_2_eq_2)
  also have "[disk_byte e 1 p, past_sector_buf e ! 0] @ drop 2 (bytes32 0) = [disk_byte e 1 p, past_sector_buf e ! 0, 0, 0]"
    by (simp add: bytes32_def)
  finally have "read_fd e 4 (bytes32 0) 2 0 ?s =
      ret (2, [disk_byte e 1 p, past_sector_buf e ! 0, 0, 0], advance 4 2 ?s)"
    using fds by (intro read_fd_floppy) simp_all
  moreover have "advance 4 2 ?s = seek_state ?off 2 s"
    using fds by (simp add: advance_def seek_state_def)
  ultimately have "seek_read e 4 ?off (bytes32 0) 2 s =
      ret ([disk_byte e 1 p, past_sector_buf e ! 0, 0, 0], seek_state ?off 2 s)"
    by (simp add: seek_read_def lseek_def cfd_upd_kernel)
  then show ?thesis
    by (simp add: get_next_cluster_def fat12_decode_def Let_def odd_cluster [symmetric])
qed

section \<open>Clusters in memory\<close>

text \<open>The positions of the disk whose bytes the driver delivers: a read it handles that does not start in
  the last sector of a track, which \<open>lba_to_chs\<close> takes for another one.\<close>

definition in_place :: "nat \<Rightarrow> nat \<Rightarrow> bool" where
  "in_place p n \<longleftrightarrow> readable p n \<and> p div 512 mod 18 \<noteq> 17"

lemma in_placeD: "in_place p n \<Longrightarrow> readable p n" "in_place p n \<Longrightarrow> floppy_pos p = p"
  using floppy_pos_fixed by (simp_all add: in_place_def)

text \<open>The geometry the loader relies on: 4096-byte clusters, and a chain of clusters each of which the
  code can read, from where it is, and follow.\<close>

definition vol_ok :: "env \<Rightarrow> 12 word list \<Rightarrow> kstate \<Rightarrow> bool" where
  "vol_ok e es s \<longleftrightarrow> env_ok e \<and> disk_ok e 1 \<and> fds_ready s
     \<and> fat_at e (unat (fat_section_start (s_pos s))) es \<and> cluster_size s = 4096"

definition cluster_pos :: "kstate \<Rightarrow> nat \<Rightarrow> nat" where
  "cluster_pos s c = unat (data_section_start (s_pos s)) + 4096 * (c - 2)"

definition cluster_ok :: "12 word list \<Rightarrow> kstate \<Rightarrow> nat \<Rightarrow> bool" where
  "cluster_ok es s c \<longleftrightarrow> 2 \<le> c \<and> c < length es \<and> c < 0x0FF8
     \<and> entry_reachable (unat (fat_section_start (s_pos s))) c \<and> in_place (cluster_pos s c) 4096"

text \<open>The data of a cluster, at its own place on the disk.\<close>

definition cluster_bytes :: "env \<Rightarrow> kstate \<Rightarrow> nat \<Rightarrow> byte list" where
  "cluster_bytes e s c = disk_bytes e 1 (cluster_pos s c) 4096"

lemma cluster_bytes_length [simp]: "length (cluster_bytes e s c) = 4096"
  by (simp add: cluster_bytes_def)

lemma cluster_size_seek [simp]: "cluster_size (seek_state p n s) = cluster_size s"
  "cluster_size (s\<lparr>ram := m\<rparr>) = cluster_size s"
  by (simp_all add: cluster_size_def bs_sector_size_def bs_sectors_per_cluster_def)

lemma fds_ready_ram [simp]: "fds_ready (s\<lparr>ram := m\<rparr>) = fds_ready s"
  by (simp add: fds_ready_def)

lemma vol_stable [simp]:
  "vol_ok e es (seek_state p n s) = vol_ok e es s" "vol_ok e es (s\<lparr>ram := m\<rparr>) = vol_ok e es s"
  "cluster_ok es (seek_state p n s) c = cluster_ok es s c" "cluster_ok es (s\<lparr>ram := m\<rparr>) c = cluster_ok es s c"
  "cluster_bytes e (seek_state p n s) = cluster_bytes e s" "cluster_bytes e (s\<lparr>ram := m\<rparr>) = cluster_bytes e s"
  by (simp_all add: vol_ok_def cluster_ok_def cluster_bytes_def cluster_pos_def fun_eq_iff)

lemma read_cluster_eq:
  assumes v: "vol_ok e es s" and c: "cluster_ok es s (unat c)" and b: "4096 \<le> length buf"
  shows "\<exists>p. read_cluster e buf c s = ret (cluster_bytes e s (unat c) @ drop 4096 buf, seek_state p 4096 s)"
proof -
  define off where "off = data_section_start (s_pos s) + 4096 * (c - 2)"
  have c2: "2 \<le> unat c" "unat c < 0x0FF8" using c by (simp_all add: cluster_ok_def)
  have "unat (2 :: u32) \<le> unat c" using c2 by simp
  then have "unat (c - 2) = unat c - 2" by (subst unat_sub) (simp_all add: word_le_nat_alt)
  then have m: "unat (4096 * (c - 2)) = 4096 * (unat c - 2)"
    using c2 by (subst unat_u32_mult) simp_all
  have r: "readable (cluster_pos s (unat c)) 4096" "floppy_pos (cluster_pos s (unat c)) = cluster_pos s (unat c)"
    using c in_placeD [of "cluster_pos s (unat c)" 4096] by (simp_all add: cluster_ok_def)
  then have "cluster_pos s (unat c) < 1474560" by (simp add: readable_def)
  then have p: "unat off = cluster_pos s (unat c)"
    unfolding cluster_pos_def m [symmetric] off_def by (subst unat_u32_add) simp_all
  have "seek_read e 4 off buf 4096 s = ret (disk_bytes e 1 (floppy_pos (unat off)) (unat (4096 :: u32))
      @ drop (unat (4096 :: u32)) buf, seek_state off 4096 s)"
    using v r b unfolding vol_ok_def by (intro seek_read_4) (simp_all add: p fds_ready_drive)
  moreover have "read_cluster e buf c s = seek_read e 4 off buf 4096 s"
    using v by (simp only: read_cluster_def vol_ok_def Let_def off_def)
  ultimately show ?thesis
    unfolding p r(2) by (auto simp: cluster_bytes_def)
qed

lemma next_cluster_eq:
  assumes v: "vol_ok e es s" and c: "cluster_ok es s (unat c)"
  shows "\<exists>p. get_next_cluster e c s = ret (ucast (es ! unat c), seek_state p 2 s)"
proof -
  have "get_next_cluster e c s =
      ret (ucast (es ! unat c), seek_state (fat_section_start (s_pos s) + (c + c div 2)) 2 s)"
    by (rule get_next_cluster_eq) (use v c in \<open>simp_all add: vol_ok_def cluster_ok_def\<close>)
  then show ?thesis by blast
qed

text \<open>Memory with a run of bytes stored at an address.\<close>

definition store_ram :: "nat \<Rightarrow> byte list \<Rightarrow> (nat \<Rightarrow> byte) \<Rightarrow> (nat \<Rightarrow> byte)" where
  "store_ram a b m = (\<lambda>x. if a \<le> x \<and> x < a + length b then b ! (x - a) else m x)"

lemma store_ram_Nil [simp]: "store_ram a [] m = m"
  by (auto simp: store_ram_def fun_eq_iff)

lemma store_ram_Cons: "store_ram (Suc a) b (m(a := c)) = store_ram a (c # b) m"
  by (auto simp: store_ram_def fun_eq_iff nth_Cons' not_less_eq_eq Suc_le_eq)

lemma store_ram_append: "store_ram (a + length b) b' (store_ram a b m) = store_ram a (b @ b') m"
  by (auto simp: store_ram_def fun_eq_iff nth_append)

lemma unat_ucast16: "unat (x :: u32) < 65536 \<Longrightarrow> unat (ucast x :: u16) = unat x"
  by (simp add: unsigned_ucast_eq take_bit_nat_eq_self)

lemma phys_eq: "unat offs < 65536 \<Longrightarrow> phys segment offs = unat (ucast segment :: u16) * 16 + unat offs"
  by (simp add: phys_def unat_ucast16)

lemma load_bytes_eq:
  "\<lbrakk>unat offs + n \<le> 65536; i + n \<le> length buffer\<rbrakk> \<Longrightarrow>
   load_bytes segment offs buffer i n s = Inr (s\<lparr>ram := store_ram (phys segment offs) (take n (drop i buffer)) (ram s)\<rparr>)"
proof (induction n arbitrary: offs i s)
  case 0
  then show ?case by simp
next
  case (Suc n)
  have o1: "unat (offs + 1) = unat offs + 1" using Suc.prems by (simp add: unat_u32_add)
  let ?s = "s\<lparr>ram := (ram s)(phys segment offs := buffer ! i)\<rparr>"
  have d: "drop i buffer = buffer ! i # drop (Suc i) buffer" using Suc.prems by (intro drop_tail_cons) simp
  have "load_bytes segment offs buffer i (Suc n) s = load_bytes segment (offs + 1) buffer (Suc i) n ?s"
    using Suc.prems by simp
  also have "\<dots> = Inr (?s\<lparr>ram := store_ram (phys segment (offs + 1)) (take n (drop (Suc i) buffer)) (ram ?s)\<rparr>)"
    using Suc.prems o1 by (intro Suc.IH) simp_all
  also have "store_ram (phys segment (offs + 1)) (take n (drop (Suc i) buffer)) (ram ?s)
      = store_ram (phys segment offs) (take (Suc n) (drop i buffer)) (ram s)"
  proof (cases n)
    case 0
    then show ?thesis by (simp add: d store_ram_Cons [symmetric])
  next
    case (Suc k)
    with Suc.prems o1 have "phys segment (offs + 1) = Suc (phys segment offs)"
      by (simp add: phys_eq)
    then show ?thesis by (simp add: d store_ram_Cons)
  qed
  finally show ?case by simp
qed

lemma load_to_memory_4096:
  assumes "unat offs + 4096 \<le> 65536" "length buffer = 4096"
  shows "load_to_memory segment offs buffer 4096 s = Inr (s\<lparr>ram := store_ram (phys segment offs) buffer (ram s)\<rparr>)"
proof -
  have "unat (ucast ((4096 :: u32) div 2) :: u16) = 2048" by simp
  then show ?thesis
    using load_bytes_eq [of offs 4096 0 buffer segment s] assms by (simp add: load_to_memory_def)
qed

section \<open>Loading a file\<close>

text \<open>A cluster chain of the table, from the first cluster of a file to its end mark.\<close>

fun chain :: "12 word list \<Rightarrow> nat list \<Rightarrow> bool" where
  "chain es [] = False"
| "chain es [c] \<longleftrightarrow> 0x0FF8 \<le> unat (es ! c)"
| "chain es (c # d # cs) \<longleftrightarrow> unat (es ! c) = d \<and> d < 0x0FF8 \<and> chain es (d # cs)"

lemma unat_entry: "unat (ucast (x :: 12 word) :: u32) = unat x"
proof -
  have "unat x < 2 ^ LENGTH(12)" by (rule unsigned_less)
  then show ?thesis by (simp add: unsigned_ucast_eq take_bit_nat_eq_self)
qed

lemma entry_end: "(ucast (x :: 12 word) :: u32) < 0x0FF8 \<longleftrightarrow> unat x < 0x0FF8"
  by (simp add: word_less_nat_alt unat_entry)

text \<open>One round of the loop.\<close>

lemma load_file_loop_step:
  assumes "vol_ok e es s" "cluster_ok es s (unat c)" "length buf = 4096" "unat offs + 4096 \<le> 65536"
  shows "\<exists>p. load_file_loop e segment buf offs c s =
    (let b = cluster_bytes e s (unat c);
         s' = seek_state p 2 (s\<lparr>ram := store_ram (phys segment offs) b (ram s)\<rparr>);
         n = ucast (es ! unat c)
     in if n < 0x0FF8 then load_file_loop e segment b (offs + 4096) n s' else ret s')"
proof -
  let ?b = "cluster_bytes e s (unat c)"
  let ?m = "store_ram (phys segment offs) ?b (ram s)"
  obtain p where p: "read_cluster e buf c s = ret (?b, seek_state p 4096 s)"
    using read_cluster_eq [OF assms(1,2), of buf] assms(3) by auto
  let ?s1 = "(seek_state p 4096 s)\<lparr>ram := ?m\<rparr>"
  obtain q where q: "get_next_cluster e c ?s1 = ret (ucast (es ! unat c), seek_state q 2 ?s1)"
    using next_cluster_eq [of e es ?s1 c] assms(1,2) by auto
  have len: "length (fd_list s) = 5" using assms(1) by (simp add: vol_ok_def fds_ready_def)
  have "seek_state q 2 ?s1 = seek_state q 2 (s\<lparr>ram := ?m\<rparr>)"
    using len by (simp add: seek_state_def)
  with p q assms(4) show ?thesis
    by (intro exI [of _ q], subst load_file_loop.simps) (simp add: load_to_memory_4096 Let_def)
qed

lemma load_file_loop_chain:
  "\<lbrakk>vol_ok e es s; chain es (c # cs); \<forall>d\<in>set (c # cs). cluster_ok es s d; length buf = 4096;
    unat offs + 4096 * length (c # cs) \<le> 65536\<rbrakk> \<Longrightarrow>
   \<exists>p. load_file_loop e segment buf offs (of_nat c) s = ret (seek_state p 2
     (s\<lparr>ram := store_ram (phys segment offs) (concat (map (cluster_bytes e s) (c # cs))) (ram s)\<rparr>))"
proof (induction cs arbitrary: c s buf offs)
  case (Nil c s buf offs)
  then have u: "unat (of_nat c :: u32) = c" by (intro unat_u32_of_nat) (auto simp: cluster_ok_def)
  obtain p where "load_file_loop e segment buf offs (of_nat c) s =
    (let b = cluster_bytes e s (unat (of_nat c :: u32));
         s' = seek_state p 2 (s\<lparr>ram := store_ram (phys segment offs) b (ram s)\<rparr>);
         n = ucast (es ! unat (of_nat c :: u32))
     in if n < 0x0FF8 then load_file_loop e segment b (offs + 4096) n s' else ret s')"
    using load_file_loop_step [of e es s "of_nat c" buf offs segment] Nil u by auto
  with Nil u show ?case by (auto simp: Let_def entry_end)
next
  case (Cons d cs c s buf offs)
  then have u: "unat (of_nat c :: u32) = c" by (intro unat_u32_of_nat) (auto simp: cluster_ok_def)
  let ?b = "cluster_bytes e s c"
  let ?s = "\<lambda>p. seek_state p 2 (s\<lparr>ram := store_ram (phys segment offs) ?b (ram s)\<rparr>)"
  have d: "(ucast (es ! c) :: u32) = of_nat d" "(ucast (es ! c) :: u32) < 0x0FF8"
    using Cons.prems(2) unat_entry [of "es ! c"] entry_end [of "es ! c"] by (auto simp: word_unat_eq_iff)
  obtain p where p: "load_file_loop e segment buf offs (of_nat c) s =
      load_file_loop e segment ?b (offs + 4096) (of_nat d) (?s p)"
    using load_file_loop_step [of e es s "of_nat c" buf offs segment] Cons.prems u d by (auto simp: Let_def)
  have o1: "unat (offs + 4096) = unat offs + 4096" using Cons.prems(5) by (subst unat_u32_add) simp_all
  obtain q where q: "load_file_loop e segment ?b (offs + 4096) (of_nat d) (?s p) = ret (seek_state q 2
      ((?s p)\<lparr>ram := store_ram (phys segment (offs + 4096)) (concat (map (cluster_bytes e (?s p)) (d # cs))) (ram (?s p))\<rparr>))"
    using Cons.IH [of "?s p" d ?b "offs + 4096"] Cons.prems o1 by auto
  have len: "length (fd_list s) = 5" using Cons.prems(1) by (simp add: vol_ok_def fds_ready_def)
  have ph: "phys segment (offs + 4096) = phys segment offs + length ?b"
    using Cons.prems(5) o1 by (simp add: phys_eq)
  show ?case
    unfolding p q ph using len by (intro exI [of _ q]) (simp add: store_ram_append [of _ "cluster_bytes e s c", simplified])
qed

lemma load_file_content_eq:
  assumes "vol_ok e es s" "length (junk_clust_buf e) = 4096" "unat (starting_cluster f) = c"
    and "chain es (c # cs)" "\<forall>d\<in>set (c # cs). cluster_ok es s d" "length (c # cs) \<le> 16"
  shows "\<exists>p. load_file_content e f segment 0 s = ret (seek_state p 2
    (s\<lparr>ram := store_ram (unat (ucast segment :: u16) * 16) (concat (map (cluster_bytes e s) (c # cs))) (ram s)\<rparr>))"
proof -
  have "(ucast (starting_cluster f) :: u32) = of_nat c"
    unfolding assms(3) [symmetric] by (simp add: word_unat_eq_iff unsigned_ucast_eq unsigned_of_nat)
  moreover have "phys segment 0 = unat (ucast segment :: u16) * 16" by (simp add: phys_eq)
  ultimately show ?thesis
    using load_file_loop_chain [OF assms(1,4,5,2), of 0 segment] assms(6) by (simp add: load_file_content_def)
qed

text \<open>C4: loading a file whose clusters the code can read and follow, none of which starts in the last sector of a
  track (the code takes another sector for it: C13, C35), ends, and places the bytes of its
  clusters, each from its own place on the disk, in the order of the chain, at consecutive addresses of the segment (up to the 64K of a
  segment), and nothing else changes but the position of the disk's descriptor.\<close>

theorem load_file_content_correct:
  assumes "vol_ok e es s" "length (junk_clust_buf e) = 4096" "unat (starting_cluster f) = c"
    and "chain es (c # cs)" "\<forall>d\<in>set (c # cs). cluster_ok es s d" "length (c # cs) \<le> 16"
  shows "\<exists>p. load_file_content e f segment 0 s = ret (seek_state p 2
    (s\<lparr>ram := store_ram (unat (ucast segment :: u16) * 16) (concat (map (cluster_bytes e s) (c # cs))) (ram s)\<rparr>))"
  using assms by (rule load_file_content_eq)

text \<open>A round that the chain continues, at any offset: the copy always succeeds, with 16-bit
  addresses.\<close>

lemma load_bytes_total:
  "i + n \<le> length buffer \<Longrightarrow> \<exists>m. load_bytes segment offs buffer i n s = Inr (s\<lparr>ram := m\<rparr>)"
proof (induction n arbitrary: offs i s)
  case 0
  show ?case by (auto intro: exI [of _ "ram s"])
next
  case (Suc n)
  then show ?case using Suc.IH [of "Suc i" "offs + 1" "s\<lparr>ram := _\<rparr>"] by simp
qed

lemma load_file_loop_round:
  assumes "vol_ok e es s" "cluster_ok es s (unat c)" "length buf = 4096" "unat (es ! unat c) < 0x0FF8"
  shows "\<exists>p m. (\<forall>f. obind (read_cluster e buf c s) (\<lambda>r.
     obind (Some (load_to_memory segment offs (fst r) 4096 (snd r))) (\<lambda>s.
     obind (get_next_cluster e c s) (\<lambda>n.
     if fst n < 0x0FF8 then f e segment (fst r) (offs + 4096) (fst n) (snd n) else ret (snd n))))
    = f e segment (cluster_bytes e s (unat c)) (offs + 4096) (ucast (es ! unat c)) (seek_state p 2 (s\<lparr>ram := m\<rparr>)))"
proof -
  let ?b = "cluster_bytes e s (unat c)"
  obtain p where p: "read_cluster e buf c s = ret (?b, seek_state p 4096 s)"
    using read_cluster_eq [OF assms(1,2), of buf] assms(3) by auto
  have "unat (ucast ((4096 :: u32) div 2) :: u16) = 2048" by simp
  then obtain m where m: "load_to_memory segment offs ?b 4096 (seek_state p 4096 s) = Inr ((seek_state p 4096 s)\<lparr>ram := m\<rparr>)"
    using load_bytes_total [of 0 4096 ?b segment offs "seek_state p 4096 s"] by (auto simp: load_to_memory_def)
  let ?s1 = "(seek_state p 4096 s)\<lparr>ram := m\<rparr>"
  obtain q where q: "get_next_cluster e c ?s1 = ret (ucast (es ! unat c), seek_state q 2 ?s1)"
    using next_cluster_eq [of e es ?s1 c] assms(1,2) by auto
  have "length (fd_list s) = 5" using assms(1) by (simp add: vol_ok_def fds_ready_def)
  with p m q assms(4) show ?thesis by (intro exI [of _ q] exI [of _ m]) (simp add: entry_end)
qed

lemma load_file_loop_cycle:
  assumes "load_file_loop e segment buf offs c s = Some r"
    and "vol_ok e es s" "length buf = 4096" "unat c \<in> C"
    and "\<forall>d\<in>C. cluster_ok es s d \<and> unat (es ! d) \<in> C"
  shows False
proof -
  have "vol_ok e es s \<longrightarrow> length buf = 4096 \<longrightarrow> unat c \<in> C \<longrightarrow> (\<forall>d\<in>C. cluster_ok es s d \<and> unat (es ! d) \<in> C) \<longrightarrow> False"
  proof (rule load_file_loop.raw_induct [where P = "\<lambda>e segment buf offs c s r. vol_ok e es s \<longrightarrow> length buf = 4096 \<longrightarrow>
      unat c \<in> C \<longrightarrow> (\<forall>d\<in>C. cluster_ok es s d \<and> unat (es ! d) \<in> C) \<longrightarrow> False", OF _ assms(1)], intro impI)
    fix f :: "env \<Rightarrow> u32 \<Rightarrow> byte list \<Rightarrow> u32 \<Rightarrow> u32 \<Rightarrow> kstate \<Rightarrow> kstate run"
    fix e segment buf offs c s r
    assume IH: "\<And>e segment buf offs c s r. f e segment buf offs c s = Some r \<Longrightarrow> vol_ok e es s \<longrightarrow> length buf = 4096 \<longrightarrow>
        unat c \<in> C \<longrightarrow> (\<forall>d\<in>C. cluster_ok es s d \<and> unat (es ! d) \<in> C) \<longrightarrow> False"
      and eq: "obind (read_cluster e buf c s) (\<lambda>r.
         obind (Some (load_to_memory segment offs (fst r) 4096 (snd r))) (\<lambda>s.
         obind (get_next_cluster e c s) (\<lambda>n.
         if fst n < 0x0FF8 then f e segment (fst r) (offs + 4096) (fst n) (snd n) else ret (snd n)))) = Some r"
      and h: "vol_ok e es s" "length buf = 4096" "unat c \<in> C" "\<forall>d\<in>C. cluster_ok es s d \<and> unat (es ! d) \<in> C"
    have c: "cluster_ok es s (unat c)" "unat (es ! unat c) \<in> C" using h by auto
    then have "unat (es ! unat c) < 0x0FF8" using h(4) by (auto simp: cluster_ok_def)
    then obtain p m where "f e segment (cluster_bytes e s (unat c)) (offs + 4096) (ucast (es ! unat c))
        (seek_state p 2 (s\<lparr>ram := m\<rparr>)) = Some r"
      using load_file_loop_round [OF h(1) c(1) h(2), of segment offs] eq by auto
    from IH [OF this] show False using h c by (auto simp: unat_entry)
  qed
  with assms(2-5) show False by blast
qed

text \<open>C30: a file whose chain leads into a set of clusters that it never leaves is loaded forever.\<close>

theorem load_file_content_cycle_diverges:
  assumes "vol_ok e es s" "length (junk_clust_buf e) = 4096"
    and "unat (starting_cluster f) \<in> C" "\<forall>d\<in>C. cluster_ok es s d \<and> unat (es ! d) \<in> C"
  shows "load_file_content e f segment offs s = None"
proof -
  have "unat (ucast (starting_cluster f) :: u32) \<in> C"
    using assms(3) unat_lt_u16 [of "starting_cluster f"] by (simp add: unsigned_ucast_eq take_bit_nat_eq_self)
  then show ?thesis
    using load_file_loop_cycle [OF _ assms(1,2) _ assms(4)]
    by (cases "load_file_content e f segment offs s") (auto simp: load_file_content_def)
qed

section \<open>Reading the boot sector\<close>

lemma ucast_u16_of_nat: "(ucast (x :: u16) :: u32) = of_nat (unat x)"
  by (simp add: word_unat_eq_iff unsigned_ucast_eq unsigned_of_nat)

lemma ucast_byte_of_nat: "(ucast (x :: byte) :: u32) = of_nat (unat x)"
  by (simp add: word_unat_eq_iff unsigned_ucast_eq unsigned_of_nat)

text \<open>The geometry of a volume as numbers, and the positions the FAT layout gives its sections: after
  the reserved sectors the tables, then the root directory of 32-byte entries, then the data.\<close>

record geometry =
  g_sector :: nat
  g_reserved :: nat
  g_fats :: nat
  g_fat_sectors :: nat
  g_entries :: nat

definition geometry_of :: "byte list \<Rightarrow> geometry" where
  "geometry_of b = \<lparr>g_sector = unat (le16 (take 2 (drop 11 b))), g_reserved = unat (le16 (take 2 (drop 14 b))),
     g_fats = unat (b ! 16), g_fat_sectors = unat (le16 (take 2 (drop 22 b))),
     g_entries = unat (le16 (take 2 (drop 17 b)))\<rparr>"

definition fat_pos :: "geometry \<Rightarrow> nat" where
  "fat_pos g = g_sector g * g_reserved g"

definition root_pos :: "geometry \<Rightarrow> nat" where
  "root_pos g = fat_pos g + g_sector g * (g_fats g * g_fat_sectors g)"

definition data_pos :: "geometry \<Rightarrow> nat" where
  "data_pos g = root_pos g + 32 * g_entries g"

lemma section_starts_correct:
  assumes g: "g = geometry_of (bs s)" and "g_sector g \<noteq> 0" "g_sector g dvd 32 * g_entries g" "data_pos g < 2 ^ 32"
  shows "\<exists>p. section_starts s = Inr p \<and> unat (fat_section_start p) = fat_pos g
    \<and> unat (root_directory_start p) = root_pos g \<and> unat (data_section_start p) = data_pos g"
proof -
  have fields: "unat (bs_sector_size s) = g_sector g" "unat (bs_reserved_sectors s) = g_reserved g"
    "unat (bs_fat_size_sectors s) = g_fat_sectors g" "unat (bs_number_of_fats s) = g_fats g"
    "unat (bs_root_dir_entries s) = g_entries g"
    unfolding g by (simp_all add: geometry_of_def bs_sector_size_def bs_reserved_sectors_def
        bs_fat_size_sectors_def bs_number_of_fats_def bs_root_dir_entries_def)
  have nz: "bs_sector_size s \<noteq> 0" using assms(2) fields(1) by auto
  have "g_sector g < 65536" "g_entries g < 65536"
    using unat_lt_u16 [of "bs_sector_size s"] unat_lt_u16 [of "bs_root_dir_entries s"] fields by simp_all
  then have small: "32 * g_entries g < 2 ^ 32" "g_sector g < 2 ^ 32" by simp_all
  from small(1) have "32 * g_entries g div g_sector g < 2 ^ 32"
    by (rule le_less_trans [OF div_le_dividend])
  moreover have "(of_nat (g_entries g) :: u32) * 32 = of_nat (32 * g_entries g)" by (simp add: mult.commute)
  ultimately have sectors: "(of_nat (g_entries g) :: u32) * 32 div of_nat (g_sector g) = of_nat (32 * g_entries g div g_sector g)"
    using small by (simp only: word_unat_eq_iff unat_div unat_u32_of_nat)
  have root: "(of_nat (g_sector g) :: u32) * of_nat (g_reserved g)
      + of_nat (g_sector g) * of_nat (g_fat_sectors g) * of_nat (g_fats g) = of_nat (root_pos g)"
    by (simp add: root_pos_def fat_pos_def mult.commute mult.left_commute)
  have data: "of_nat (root_pos g) + of_nat (g_sector g) * of_nat (32 * g_entries g div g_sector g) = (of_nat (data_pos g) :: u32)"
    using assms(3) by (simp add: data_pos_def flip: of_nat_mult)
  have "fat_pos g < 2 ^ 32" "root_pos g < 2 ^ 32"
    using assms(4) by (simp_all add: data_pos_def root_pos_def)
  then show ?thesis
    using assms(4) nz unfolding section_starts_def Let_def ucast_u16_of_nat ucast_byte_of_nat fields
    by (simp add: sectors root data unat_u32_of_nat del: of_nat_mult of_nat_add)
       (simp add: fat_pos_def unat_u32_of_nat flip: of_nat_mult)
qed

lemma read_boot_sector_eq:
  assumes "env_ok e" "disk_ok e 1" "drive_ready s" "length (bs s) = 512" "g = geometry_of (disk_sector e 1 0)"
    and "g_sector g \<noteq> 0" "g_sector g dvd 32 * g_entries g" "data_pos g < 2 ^ 32"
  obtains p where
    "read_boot_sector e s = ret ((seek_state 0 512 s)\<lparr>bs := disk_sector e 1 0, s_pos := p\<rparr>)"
    "unat (fat_section_start p) = fat_pos g" "unat (root_directory_start p) = root_pos g"
    "unat (data_section_start p) = data_pos g"
proof -
  let ?s = "(seek_state 0 512 s)\<lparr>bs := disk_sector e 1 0\<rparr>"
  have "disk_bytes e 1 0 512 = disk_sector e 1 0"
    using disk_bytes_in_sector [OF assms(1), of 0 512 1 0] disk_sector_length [OF assms(1), of 1 0] by simp
  moreover have "readable 0 512" "floppy_pos 0 = 0" by (simp_all add: readable_def floppy_pos_def chs_slip_def)
  ultimately have r: "seek_read e 4 0 (bs s) 512 s = ret (disk_sector e 1 0, seek_state 0 512 s)"
    using seek_read_4 [OF assms(1-3), of 0 512 "bs s"] assms(4) by simp
  obtain p where p: "section_starts ?s = Inr p" "unat (fat_section_start p) = fat_pos g"
    "unat (root_directory_start p) = root_pos g" "unat (data_section_start p) = data_pos g"
    using section_starts_correct [of g ?s] assms by auto
  with r have "read_boot_sector e s = ret (?s\<lparr>s_pos := p\<rparr>)" by (simp add: read_boot_sector_def Let_def)
  with p(2-4) show thesis by (intro that) simp_all
qed

text \<open>C29: mounting reads sector 0 of the disk into \<open>bs\<close> and locates the tables, the root directory and
  the data where the FAT layout puts them (for a root directory of whole sectors and positions of
  32 bits).\<close>

theorem read_boot_sector_correct:
  assumes "env_ok e" "disk_ok e 1" "drive_ready s" "length (bs s) = 512" "g = geometry_of (disk_sector e 1 0)"
    and "g_sector g \<noteq> 0" "g_sector g dvd 32 * g_entries g" "data_pos g < 2 ^ 32"
  shows "\<exists>s'. read_boot_sector e s = ret s' \<and> bs s' = disk_sector e 1 0 \<and> drive_ready s'
    \<and> unat (fat_section_start (s_pos s')) = fat_pos g \<and> unat (root_directory_start (s_pos s')) = root_pos g
    \<and> unat (data_section_start (s_pos s')) = data_pos g"
proof -
  obtain p where p: "read_boot_sector e s = ret ((seek_state 0 512 s)\<lparr>bs := disk_sector e 1 0, s_pos := p\<rparr>)"
    "unat (fat_section_start p) = fat_pos g" "unat (root_directory_start p) = root_pos g"
    "unat (data_section_start p) = data_pos g"
    using read_boot_sector_eq [OF assms] .
  have "drive_ready ((seek_state 0 512 s)\<lparr>bs := disk_sector e 1 0, s_pos := p\<rparr>)"
    using assms(3) seek_state_drive [of 0 512 s] unfolding drive_ready_def by simp
  with p show ?thesis by simp
qed

section \<open>A concrete volume\<close>

text \<open>A machine whose disks have given bytes.\<close>

definition image_sector :: "(nat \<Rightarrow> byte) \<Rightarrow> nat \<Rightarrow> byte list" where
  "image_sector f l = map (\<lambda>i. f (512 * l + i)) [0..<512]"

definition image_env :: "(nat \<Rightarrow> byte) \<Rightarrow> env" where
  "image_env f = sample_env\<lparr>bios_int13 := (\<lambda>d c h s. (0, image_sector f (chs_lba (c, h, s))))\<rparr>"

lemma image_sector_simps [simp]:
  "length (image_sector f l) = 512" "i < 512 \<Longrightarrow> image_sector f l ! i = f (512 * l + i)"
  by (simp_all add: image_sector_def)

lemma image_sector_field:
  "i + 1 < 512 \<Longrightarrow> take 2 (drop i (image_sector f 0)) = [f i, f (i + 1)]"
  by (simp add: numeral_2_eq_2 drop_tail_cons)

lemma image_env_simps [simp]:
  "past_sector_buf (image_env f) = filler 512 0xEE" "junk_clust_buf (image_env f) = filler 4096 0"
  "bios_int13 (image_env f) d c h s = (0, image_sector f (chs_lba (c, h, s)))"
  by (simp_all add: image_env_def sample_env_def)

lemma image_env_ok [simp]: "env_ok (image_env f)"
  using sample_env_ok by (simp add: env_ok_def image_env_def)

lemma image_disk_ok [simp]: "disk_ok (image_env f) d"
  by (simp add: disk_ok_def split: prod.splits)

lemma image_disk_sector: "l < 2880 \<Longrightarrow> disk_sector (image_env f) d l = image_sector f l"
  by (simp add: disk_sector_def chs_lba_lba_chs split: prod.splits)

lemma image_disk_byte: "p < 1474560 \<Longrightarrow> disk_byte (image_env f) d p = f p"
proof -
  assume "p < 1474560"
  then have "p < 2880 * 512" by simp
  then have "p div 512 < 2880" by (rule less_mult_imp_div_less)
  then show ?thesis by (simp add: disk_byte_def image_disk_sector)
qed

lemma image_disk_bytes: "p + n \<le> 1474560 \<Longrightarrow> disk_bytes (image_env f) d p n = map f [p..<p + n]"
  by (auto simp: disk_bytes_def image_disk_byte)

text \<open>A volume of one reserved sector, two tables of nine sectors, 224 root entries and
  eight sectors per cluster; the first table starts with the given bytes, every other byte past the
  boot sector is the number of its sector.\<close>

definition sample_image :: "byte list \<Rightarrow> nat \<Rightarrow> byte" where
  "sample_image tbl p =
     (if 512 \<le> p \<and> p < 512 + length tbl then tbl ! (p - 512)
      else if p < 512
      then (if p = 12 then 2 else if p = 13 then 8 else if p = 14 then 1 else if p = 16 then 2
            else if p = 17 then 224 else if p = 22 then 9 else 0)
      else of_nat (p div 512))"

definition volume_state :: "byte list \<Rightarrow> kstate" where
  "volume_state tbl = root_state\<lparr>bs := image_sector (sample_image tbl) 0,
     s_pos := \<lparr>fat_section_start = 512, data_section_start = 16896, root_directory_start = 9728\<rparr>\<rparr>"

lemma volume_state_simps [simp]:
  "fds_ready (volume_state tbl)" "bs (volume_state tbl) = image_sector (sample_image tbl) 0"
  "fat_section_start (s_pos (volume_state tbl)) = 512" "data_section_start (s_pos (volume_state tbl)) = 16896"
  "root_directory_start (s_pos (volume_state tbl)) = 9728"
  using root_state_ready by (simp_all add: volume_state_def fds_ready_def)

lemma volume_cluster_size [simp]: "cluster_size (volume_state tbl) = 4096"
  by (simp add: cluster_size_def bs_sector_size_def bs_sectors_per_cluster_def image_sector_field
      sample_image_def le16_def)

lemma sample_fat_at:
  "length (fat12_bytes es) \<le> 512 \<Longrightarrow> fat_at (image_env (sample_image (fat12_bytes es))) 512 es"
  by (simp add: fat_at_def image_disk_bytes)
     (auto simp: sample_image_def intro!: nth_equalityI)

definition two_clusters :: "12 word list" where
  "two_clusters = [0xFF0, 0xFFF, 3, 0xFFF]"

definition looping_clusters :: "12 word list" where
  "looping_clusters = [0xFF0, 0xFFF, 3, 2]"

lemma table_lengths [simp]:
  "length (fat12_bytes two_clusters) = 6" "length two_clusters = 4"
  "length (fat12_bytes looping_clusters) = 6" "length looping_clusters = 4"
  by (simp_all add: two_clusters_def looping_clusters_def)

abbreviation two_env :: env where
  "two_env \<equiv> image_env (sample_image (fat12_bytes two_clusters))"

abbreviation looping_env :: env where
  "looping_env \<equiv> image_env (sample_image (fat12_bytes looping_clusters))"

lemma sample_cluster_ok:
  "length es = 4 \<Longrightarrow> c \<in> {2, 3} \<Longrightarrow> cluster_ok es (volume_state tbl) c"
  by (auto simp: cluster_ok_def entry_reachable_def in_place_def readable_def floppy_pos_def chs_slip_def cluster_pos_def)

lemma sample_vol_ok:
  "vol_ok two_env two_clusters (volume_state (fat12_bytes two_clusters))"
  "vol_ok looping_env looping_clusters (volume_state (fat12_bytes looping_clusters))"
  using sample_fat_at [of two_clusters] sample_fat_at [of looping_clusters] by (simp_all add: vol_ok_def)

theorem get_next_cluster_correct_witness:
  "get_next_cluster two_env 2 (volume_state (fat12_bytes two_clusters)) =
     ret (3, seek_state 515 2 (volume_state (fat12_bytes two_clusters)))"
proof -
  let ?s = "volume_state (fat12_bytes two_clusters)"
  have "get_next_cluster two_env 2 ?s =
      ret (ucast (two_clusters ! unat (2 :: u32)), seek_state (fat_section_start (s_pos ?s) + (2 + 2 div 2)) 2 ?s)"
    by (rule get_next_cluster_correct)
       (use sample_fat_at [of two_clusters] in \<open>simp_all add: entry_reachable_def\<close>)
  then show ?thesis by (simp add: two_clusters_def)
qed

theorem split_entry_reads_stack_witness:
  "get_next_cluster two_env 341 (volume_state (fat12_bytes two_clusters)) =
     ret (0xEE0, seek_state 1023 2 (volume_state (fat12_bytes two_clusters)))"
proof -
  let ?s = "volume_state (fat12_bytes two_clusters)"
  have d: "disk_byte two_env 1 1023 = 1" by (simp add: image_disk_byte sample_image_def)
  have "get_next_cluster two_env 341 ?s =
      ret (fat12_decode (odd (unat (341 :: u32))) (le32 [disk_byte two_env 1 1023, past_sector_buf two_env ! 0, 0, 0]),
           seek_state (fat_section_start (s_pos ?s) + (341 + 341 div 2)) 2 ?s)"
    by (rule split_entry_reads_stack) simp_all
  then show ?thesis by (simp add: d fat12_decode_def le32_def)
qed

theorem load_file_content_correct_witness:
  "\<exists>p. load_file_content two_env (ls_entry\<lparr>starting_cluster := 2\<rparr>) 0x2000 0 (volume_state (fat12_bytes two_clusters)) =
     ret (seek_state p 2 ((volume_state (fat12_bytes two_clusters))\<lparr>ram := store_ram 0x20000
       (disk_bytes two_env 1 16896 8192) (ram (volume_state (fat12_bytes two_clusters)))\<rparr>))"
proof -
  let ?s = "volume_state (fat12_bytes two_clusters)" and ?f = "ls_entry\<lparr>starting_cluster := 2\<rparr>"
  have "\<exists>p. load_file_content two_env ?f 0x2000 0 ?s = ret (seek_state p 2 (?s\<lparr>ram := store_ram (unat (ucast (0x2000 :: u32) :: u16) * 16)
      (concat (map (cluster_bytes two_env ?s) [2, 3])) (ram ?s)\<rparr>))"
    by (rule load_file_content_correct)
       (use sample_vol_ok(1) sample_cluster_ok [of two_clusters] in \<open>auto simp: two_clusters_def\<close>)
  moreover have "cluster_bytes two_env ?s 2 = disk_bytes two_env 1 16896 4096"
    "cluster_bytes two_env ?s 3 = disk_bytes two_env 1 20992 4096"
    by (simp_all add: cluster_bytes_def cluster_pos_def)
  ultimately show ?thesis
    using disk_bytes_append [of two_env 1 16896 4096 4096] by simp
qed

theorem load_file_content_cycle_diverges_witness:
  "load_file_content looping_env (ls_entry\<lparr>starting_cluster := 2\<rparr>) 0x2000 0
     (volume_state (fat12_bytes looping_clusters)) = None"
  by (rule load_file_content_cycle_diverges [where C = "{2, 3}"])
     (use sample_vol_ok(2) sample_cluster_ok [of looping_clusters] in \<open>auto simp: looping_clusters_def\<close>)

theorem read_boot_sector_correct_witness:
  "\<exists>s'. read_boot_sector two_env root_state = ret s' \<and> drive_ready s'
    \<and> unat (fat_section_start (s_pos s')) = 512 \<and> unat (root_directory_start (s_pos s')) = 9728
    \<and> unat (data_section_start (s_pos s')) = 16896"
proof -
  let ?g = "geometry_of (disk_sector two_env 1 0)"
  have g: "?g = \<lparr>g_sector = 512, g_reserved = 1, g_fats = 2, g_fat_sectors = 9, g_entries = 224\<rparr>"
    by (simp add: geometry_of_def image_disk_sector image_sector_field sample_image_def le16_def)
  have "length (bs root_state) = 512"
    by (simp add: root_state_def floppy_state_def zero_state_def)
  then have "\<exists>s'. read_boot_sector two_env root_state = ret s' \<and> bs s' = disk_sector two_env 1 0 \<and> drive_ready s'
    \<and> unat (fat_section_start (s_pos s')) = fat_pos ?g \<and> unat (root_directory_start (s_pos s')) = root_pos ?g
    \<and> unat (data_section_start (s_pos s')) = data_pos ?g"
    using fds_ready_drive [OF root_state_ready] by (intro read_boot_sector_correct) (simp_all add: g data_pos_def root_pos_def fat_pos_def)
  then show ?thesis unfolding g by (auto simp: data_pos_def root_pos_def fat_pos_def)
qed

end
