(* ===== verification/Fat_Dir.thy ===== *)
theory Fat_Dir
  imports Fat_Volume
begin

text \<open>
  The root directory, fs/msdos/fs.c: reading it, listing it for the system call (with the reply's
  \<open>SYSCALL_FILE_ENTRY\<close> records of include/sysdef.h), and looking a program up by name.
\<close>

section \<open>Operations\<close>

definition crlf :: "byte list" where
  "crlf = [13, 10, 0]"

text \<open>The messages of \<open>get_root_files\<close> before the loop, and for one entry.\<close>

definition root_banner :: "kstate \<Rightarrow> kstate res" where
  "root_banner s =
     rbind (printk (lit ''reading root directory'' @ crlf) s) (\<lambda>s.
     rbind (printk (cstr ''root directory entries:'') s) (\<lambda>s.
     rbind (print_num (ucast (bs_root_dir_entries s)) s) (\<lambda>s. printk crlf s)))"

definition entry_banner :: "nat \<Rightarrow> kstate \<Rightarrow> kstate res" where
  "entry_banner i s =
     rbind (printk (cstr ''reading entry number '') s) (\<lambda>s.
     rbind (print_num (of_nat i) s) (\<lambda>s.
     rbind (printk crlf s) (\<lambda>s.
     if i = 223 then printk (lit ''entry 223'' @ crlf) s else Inr s)))"

fun get_root_files_loop :: "env \<Rightarrow> nat \<Rightarrow> nat \<Rightarrow> Fat16Entry list \<Rightarrow> kstate \<Rightarrow> (Fat16Entry list \<times> kstate) run" where
  "get_root_files_loop e i 0 files s = ret (files, s)"
| "get_root_files_loop e i (Suc n) files s =
     obind (Some (entry_banner i s)) (\<lambda>s.
     obind (if i < length files then read_fd e 5 (entry_bytes (files ! i)) 32 0 s else Some (Inl WritePast)) (\<lambda>r.
     get_root_files_loop e (Suc i) n (files[i := entry_of (fst (snd r))]) (snd (snd r))))"

definition get_root_files :: "env \<Rightarrow> Fat16Entry list \<Rightarrow> kstate \<Rightarrow> (Fat16Entry list \<times> kstate) run" where
  "get_root_files e files s =
     obind (Some (lseek 5 0 0 0 s)) (\<lambda>r.
     obind (Some (root_banner (snd r))) (\<lambda>s.
     get_root_files_loop e 0 (unat (bs_root_dir_entries s)) files s))"

text \<open>The result is the return value, the caller's entry and the state.\<close>

definition get_root_next_file :: "env \<Rightarrow> Fat16Entry \<Rightarrow> kstate \<Rightarrow> (int \<times> Fat16Entry \<times> kstate) run" where
  "get_root_next_file e file s =
     (if fd_pos (fd_after s) + 32 \<le> ucast (bs_root_dir_entries s) * 32
      then obind (read_fd e 5 (entry_bytes file) 32 0 s) (\<lambda>r. ret (0, entry_of (fst (snd r)), snd (snd r)))
      else ret (-1, file, s))"

text \<open>\<open>strcpy\<close> to an offset of a buffer.\<close>

definition strcpy_at :: "byte list \<Rightarrow> nat \<Rightarrow> byte list \<Rightarrow> byte list res" where
  "strcpy_at buf at src = rbind (strcpy (drop at buf) src) (\<lambda>d. Inr (take at buf @ d))"

text \<open>Filling record \<open>k\<close> of the reply: 28 bytes with \<open>name\<close> at offset 0, \<open>ext\<close> at 9, \<open>dir\<close> at 13,
  \<open>read_only\<close> at 14, \<open>size\<close> at 16, \<open>day\<close>, \<open>month\<close> and \<open>year\<close> at 20, 21 and 22, \<open>seconds\<close>, \<open>minutes\<close>
  and \<open>hours\<close> at 24, 25 and 26.\<close>

definition fat_day :: "u16 \<Rightarrow> byte" where "fat_day d = ucast (d AND 0x001F)"
definition fat_month :: "u16 \<Rightarrow> byte" where "fat_month d = ucast (drop_bit 5 (d AND 0x01E0))"
definition fat_year :: "u16 \<Rightarrow> u16" where "fat_year d = drop_bit 9 (d AND 0xFE00) + 1980"
definition fat_hours :: "u16 \<Rightarrow> byte" where "fat_hours t = ucast (drop_bit 11 (t AND 0xF800))"
definition fat_minutes :: "u16 \<Rightarrow> byte" where "fat_minutes t = ucast (drop_bit 5 (t AND 0x07E0))"
definition fat_seconds :: "u16 \<Rightarrow> byte" where "fat_seconds t = ucast ((t AND 0x001F) * 2)"

definition put_entry :: "byte list \<Rightarrow> nat \<Rightarrow> Fat16Entry \<Rightarrow> byte list \<Rightarrow> byte list \<Rightarrow> byte list res" where
  "put_entry buf k file name fext =
     (let off = 28 * k; attrib = file_attrib file in
      rbind (store_byte buf (off + 13) (if subdirectory attrib \<noteq> 0 then 1 else 0)) (\<lambda>buf.
      rbind (store_byte buf (off + 14) (if read_only attrib \<noteq> 0 then 1 else 0)) (\<lambda>buf.
      rbind (store buf (off + 16) (bytes32 (file_size file))) (\<lambda>buf.
      rbind (store_byte buf (off + 20) (fat_day (modify_date file))) (\<lambda>buf.
      rbind (store_byte buf (off + 21) (fat_month (modify_date file))) (\<lambda>buf.
      rbind (store buf (off + 22) (bytes16 (fat_year (modify_date file)))) (\<lambda>buf.
      rbind (store_byte buf (off + 26) (fat_hours (modify_time file))) (\<lambda>buf.
      rbind (store_byte buf (off + 25) (fat_minutes (modify_time file))) (\<lambda>buf.
      rbind (store_byte buf (off + 24) (fat_seconds (modify_time file))) (\<lambda>buf.
      rbind (strcpy_at buf off name) (\<lambda>buf.
      strcpy_at buf (off + 9) fext)))))))))))"

text \<open>The test for an unused entry (first byte 0) and for a deleted one come after the test of the
  type, which both fail: they never decide anything.\<close>

partial_function (option) list_root_loop ::
    "env \<Rightarrow> byte list \<Rightarrow> nat \<Rightarrow> nat \<Rightarrow> Fat16Entry \<Rightarrow> byte list \<Rightarrow> byte list \<Rightarrow> kstate \<Rightarrow>
     (nat \<times> byte list \<times> kstate) run" where
  "list_root_loop e buf files_read num_read_entries file name fext s =
     (if num_read_entries = 0 then ret (files_read, buf, s)
      else obind (get_root_next_file e file s) (\<lambda>r.
        if fst r = -1 then ret (files_read, buf, snd (snd r))
        else if get_entry_type (fst (snd r)) \<noteq> TYPE_FILE \<or> filename (fst (snd r)) ! 0 = 0xE5
        then list_root_loop e buf files_read num_read_entries (fst (snd r)) name fext (snd (snd r))
        else if filename (fst (snd r)) ! 0 = 0 then ret (files_read, buf, snd (snd r))
        else obind (extract_file_name (fst (snd r)) name fext) (\<lambda>nx.
             obind (Some (put_entry buf files_read (fst (snd r)) (fst nx) (snd nx))) (\<lambda>buf.
             list_root_loop e buf (Suc files_read) (num_read_entries - 1) (fst (snd r)) (fst nx) (snd nx)
               (snd (snd r))))))"

definition list_root_files :: "env \<Rightarrow> u32 \<Rightarrow> byte list \<Rightarrow> kstate \<Rightarrow> (nat \<times> byte list \<times> kstate) run" where
  "list_root_files e buf_size buf s =
     list_root_loop e buf 0 (unat (buf_size div 28)) (entry_of (junk_entries e ! 0)) (junk_name e) (junk_ext e) s"

text \<open>\<open>list_files\<close> prints the names of the entries read before.\<close>

definition print_name :: "byte list \<Rightarrow> byte list \<Rightarrow> byte list \<Rightarrow> kstate \<Rightarrow> kstate res" where
  "print_name name fext post s =
     rbind (printk name s) (\<lambda>s. rbind (printk (cstr ''.'') s) (\<lambda>s.
     rbind (printk fext s) (\<lambda>s. printk post s)))"

fun list_files_loop :: "Fat16Entry list \<Rightarrow> nat \<Rightarrow> nat \<Rightarrow> byte list \<Rightarrow> byte list \<Rightarrow> kstate \<Rightarrow> kstate run" where
  "list_files_loop files i 0 name fext s = ret s"
| "list_files_loop files i (Suc n) name fext s =
     (if length files \<le> i then Some (Inl ReadPast)
      else if get_entry_type (files ! i) \<noteq> TYPE_FILE then list_files_loop files (Suc i) n name fext s
      else if filename (files ! i) ! 0 = 0xE5
      then obind (Some (printk (cstr ''deleted ('') s)) (\<lambda>s.
           obind (extract_file_name (files ! i) name fext) (\<lambda>(name, fext).
           obind (Some (print_name name fext (cstr '')   '') s)) (\<lambda>s.
           list_files_loop files (Suc i) n name fext s)))
      else if filename (files ! i) ! 0 = 0 then ret s
      else obind (extract_file_name (files ! i) name fext) (\<lambda>(name, fext).
           obind (Some (print_name name fext (cstr ''   '') s)) (\<lambda>s.
           list_files_loop files (Suc i) n name fext s)))"

definition list_files :: "env \<Rightarrow> Fat16Entry list \<Rightarrow> kstate \<Rightarrow> kstate run" where
  "list_files e files s =
     obind (list_files_loop files 0 (unat (bs_root_dir_entries s)) (junk_name e) (junk_ext e) s) (\<lambda>s.
     Some (printk crlf s))"

text \<open>\<open>get_file\<close> compares the name only, not the extension; the result is the return value and the
  caller's entry.\<close>

fun get_file_loop :: "Fat16Entry list \<Rightarrow> byte list \<Rightarrow> Fat16Entry \<Rightarrow> nat \<Rightarrow> nat \<Rightarrow> byte list \<Rightarrow> byte list \<Rightarrow>
    (int \<times> Fat16Entry) run" where
  "get_file_loop files name file i 0 fname fext = ret (-1, file)"
| "get_file_loop files name file i (Suc n) fname fext =
     (if length files \<le> i then Some (Inl ReadPast)
      else if get_entry_type (files ! i) = TYPE_FILE
      then obind (extract_file_name (files ! i) fname fext) (\<lambda>(fname, fext).
           obind (Some (strcmp fname name)) (\<lambda>c.
           if c = 0 then ret (0, files ! i) else get_file_loop files name file (Suc i) n fname fext))
      else get_file_loop files name file (Suc i) n fname fext)"

definition get_file :: "env \<Rightarrow> Fat16Entry list \<Rightarrow> byte list \<Rightarrow> Fat16Entry \<Rightarrow> kstate \<Rightarrow> (int \<times> Fat16Entry) run" where
  "get_file e file_list name file s =
     get_file_loop file_list name file 0 (unat (bs_root_dir_entries s)) (junk_name e) (junk_ext e)"

section \<open>One record of the listing\<close>

record SYSCALL_FILE_ENTRY =
  se_name :: "byte list"
  se_ext :: "byte list"
  se_dir :: byte
  se_read_only :: byte
  se_size :: u32
  se_day :: byte
  se_month :: byte
  se_year :: u16
  se_seconds :: byte
  se_minutes :: byte
  se_hours :: byte

text \<open>What the client finds in record \<open>k\<close>, and what it should find for a directory entry: FAT dates count
  the days in 32, the months in 16 and the years from 1980, times the seconds by two in 32, the minutes
  in 64 and the hours.\<close>

definition sys_entry_at :: "byte list \<Rightarrow> nat \<Rightarrow> SYSCALL_FILE_ENTRY" where
  "sys_entry_at buf k = (let o0 = 28 * k in
     \<lparr>se_name = cval (take 9 (drop o0 buf)), se_ext = cval (take 4 (drop (o0 + 9) buf)),
      se_dir = buf ! (o0 + 13), se_read_only = buf ! (o0 + 14), se_size = le32 (take 4 (drop (o0 + 16) buf)),
      se_day = buf ! (o0 + 20), se_month = buf ! (o0 + 21), se_year = le16 (take 2 (drop (o0 + 22) buf)),
      se_seconds = buf ! (o0 + 24), se_minutes = buf ! (o0 + 25), se_hours = buf ! (o0 + 26)\<rparr>)"

definition sys_entry_of :: "Fat16Entry \<Rightarrow> SYSCALL_FILE_ENTRY" where
  "sys_entry_of f =
     \<lparr>se_name = field_text (filename f), se_ext = field_text (ext f),
      se_dir = (if bit (attributes f) 4 then 1 else 0), se_read_only = (if bit (attributes f) 0 then 1 else 0),
      se_size = file_size f, se_day = of_nat (unat (modify_date f) mod 32),
      se_month = of_nat (unat (modify_date f) div 32 mod 16), se_year = of_nat (1980 + unat (modify_date f) div 512),
      se_seconds = of_nat (2 * (unat (modify_time f) mod 32)), se_minutes = of_nat (unat (modify_time f) div 32 mod 64),
      se_hours = of_nat (unat (modify_time f) div 2048)\<rparr>"

lemma u16_field:
  fixes d :: u16
  shows "drop_bit k d AND mask n = of_nat (unat d div 2 ^ k mod 2 ^ n)"
proof -
  have u: "unat d mod 65536 = unat d" using unat_lt_u16 [of d] by simp
  have "unat (drop_bit k d AND mask n) = unat d div 2 ^ k mod 2 ^ n"
    by (simp only: take_bit_eq_mask [symmetric] unsigned_take_bit_eq unsigned_drop_bit_eq) (simp add: take_bit_eq_mod drop_bit_eq_div u)
  then show ?thesis by (metis of_nat_unat ucast_id)
qed

text \<open>The masks and shifts of \<open>list_root_files\<close> take these fields.\<close>

lemma fat_fields:
  "fat_day d = of_nat (unat d mod 32)" "fat_month d = of_nat (unat d div 32 mod 16)"
  "fat_year d = of_nat (1980 + unat d div 512)" "fat_seconds t = of_nat (2 * (unat t mod 32))"
  "fat_minutes t = of_nat (unat t div 32 mod 64)" "fat_hours t = of_nat (unat t div 2048)"
proof -
  have m: "(0x001F :: u16) = mask 5" "drop_bit 5 (0x01E0 :: u16) = mask 4" "drop_bit 9 (0xFE00 :: u16) = mask 7"
    "drop_bit 11 (0xF800 :: u16) = mask 5" "drop_bit 5 (0x07E0 :: u16) = mask 6"
    by (simp_all add: mask_eq_exp_minus_1 )
  have u: "unat d < 2 ^ 16" "unat t < 2 ^ 16" by (rule unat_lt_u16)+
  have top: "unat d div 512 mod 128 = unat d div 512" "unat t div 2048 mod 32 = unat t div 2048"
    using u by simp_all
  have low: "w AND mask 5 = of_nat (unat w mod 32)" for w :: u16 using u16_field [of 0 w 5] by simp
  have b: "ucast (of_nat n :: u16) = (of_nat n :: byte)" for n
    by (rule bit_word_eqI) (simp add: bit_simps)
  show "fat_day d = of_nat (unat d mod 32)" unfolding fat_day_def m low b ..
  show "fat_month d = of_nat (unat d div 32 mod 16)" using u16_field [of 5 d 4] unfolding fat_month_def drop_bit_and m by (simp add: b)
  show "fat_year d = of_nat (1980 + unat d div 512)" using u16_field [of 9 d 7] top unfolding fat_year_def drop_bit_and m by simp
  show "fat_seconds t = of_nat (2 * (unat t mod 32))"
    unfolding fat_seconds_def m low using b [of "2 * (unat t mod 32)"] by (simp add: mult.commute)
  show "fat_minutes t = of_nat (unat t div 32 mod 64)" using u16_field [of 5 t 6] unfolding fat_minutes_def drop_bit_and m by (simp add: b)
  show "fat_hours t = of_nat (unat t div 2048)" using u16_field [of 11 t 5] top unfolding fat_hours_def drop_bit_and m by (simp add: b)
qed

text \<open>Every store is a run of bytes laid over the buffer.\<close>

definition overlay :: "nat \<Rightarrow> byte list \<Rightarrow> byte list \<Rightarrow> byte list" where
  "overlay i ys xs = take i xs @ ys @ drop (i + length ys) xs"

lemma overlay_length [simp]: "i + length ys \<le> length xs \<Longrightarrow> length (overlay i ys xs) = length xs"
  by (simp add: overlay_def)

lemma overlay_nth:
  "i + length ys \<le> length xs \<Longrightarrow> j < length xs \<Longrightarrow>
   overlay i ys xs ! j = (if i \<le> j \<and> j < i + length ys then ys ! (j - i) else xs ! j)"
  by (auto simp: overlay_def nth_append)

lemma overlay_take_drop:
  assumes "i + length ys \<le> length xs" "k + n \<le> i \<or> i + length ys \<le> k" "k + n \<le> length xs"
  shows "take n (drop k (overlay i ys xs)) = take n (drop k xs)"
  using assms by (intro nth_equalityI) (auto simp: overlay_nth)

lemma overlay_same:
  "i + length ys \<le> length xs \<Longrightarrow> length ys = n \<Longrightarrow> take n (drop i (overlay i ys xs)) = ys"
  by (simp add: overlay_def)

lemma overlay_text:
  "i + m \<le> length xs \<Longrightarrow> length t < m \<Longrightarrow> 0 \<notin> set t \<Longrightarrow> cval (take m (drop i (overlay i (t @ [0]) xs))) = t"
  by (simp add: overlay_def take_Cons' cval_append_NUL)

lemma store_byte_overlay: "i < length b \<Longrightarrow> store_byte b i v = Inr (overlay i [v] b)"
  by (simp add: overlay_def upd_conv_take_nth_drop)

lemma store_overlay: "i + length ys \<le> length b \<Longrightarrow> store b i ys = Inr (overlay i ys b)"
  by (simp add: store_def overlay_def)

lemma strcpy_at_overlay:
  "terminated src \<Longrightarrow> i + length (cval src) < length b \<Longrightarrow> strcpy_at b i src = Inr (overlay i (cval src @ [0]) b)"
  by (simp add: strcpy_at_def strcpy_eq overlay_def add.commute add.left_commute)

lemmas overlay_rules = overlay_nth overlay_take_drop overlay_same overlay_text

definition entry_overlay :: "nat \<Rightarrow> Fat16Entry \<Rightarrow> byte list \<Rightarrow> byte list" where
  "entry_overlay k f buf =
     (let o0 = 28 * k in
      overlay (o0 + 9) (field_text (ext f) @ [0]) (overlay o0 (field_text (filename f) @ [0])
      (overlay (o0 + 24) [fat_seconds (modify_time f)] (overlay (o0 + 25) [fat_minutes (modify_time f)]
      (overlay (o0 + 26) [fat_hours (modify_time f)] (overlay (o0 + 22) (bytes16 (fat_year (modify_date f)))
      (overlay (o0 + 21) [fat_month (modify_date f)] (overlay (o0 + 20) [fat_day (modify_date f)]
      (overlay (o0 + 16) (bytes32 (file_size f)) (overlay (o0 + 14) [if bit (attributes f) 0 then 1 else 0]
      (overlay (o0 + 13) [if bit (attributes f) 4 then 1 else 0] buf)))))))))))"

lemma field_text_length: "length (field_text b) \<le> length b"
  by (simp add: field_text_def length_takeWhile_le)

lemma field_text_no_NUL: "0 \<notin> set b \<Longrightarrow> 0 \<notin> set (field_text b)"
  by (auto simp: field_text_def dest: set_takeWhileD)

lemma put_entry_eq:
  assumes f: "entry_wf f" and n: "terminated n" "cval n = field_text (filename f)"
    and x: "terminated x" "cval x = field_text (ext f)" and b: "28 * k + 28 \<le> length buf"
  shows "put_entry buf k f n x = Inr (entry_overlay k f buf)"
proof -
  have "length (field_text (filename f)) \<le> 8" "length (field_text (ext f)) \<le> 3"
    using f field_text_length [of "filename f"] field_text_length [of "ext f"] by (simp_all add: entry_wf_def)
  then show ?thesis
    using b unfolding put_entry_def entry_overlay_def file_attrib_def Let_def fileAttrib.simps
    by (simp add: store_byte_overlay store_overlay strcpy_at_overlay n x attribute_bits
        del: store_byte_in)
qed

text \<open>The records are compared field by field; all fields but the names are read byte by byte.\<close>

lemma take_drop_bytes:
  "i + 1 < length b \<Longrightarrow> take 2 (drop i b) = [b ! i, b ! (i + 1)]"
  "i + 3 < length b \<Longrightarrow> take 4 (drop i b) = [b ! i, b ! (i + 1), b ! (i + 2), b ! (i + 3)]"
  by (simp_all add: drop_tail_cons numeral_eq_Suc)

text \<open>The record at \<open>o0\<close> with everything but the two names in place, byte by byte.\<close>

definition entry_byte :: "Fat16Entry \<Rightarrow> nat \<Rightarrow> byte list \<Rightarrow> nat \<Rightarrow> byte" where
  "entry_byte f o0 buf j =
     (if j = o0 + 24 then fat_seconds (modify_time f) else if j = o0 + 25 then fat_minutes (modify_time f)
      else if j = o0 + 26 then fat_hours (modify_time f)
      else if o0 + 22 \<le> j \<and> j < o0 + 24 then bytes16 (fat_year (modify_date f)) ! (j - (o0 + 22))
      else if j = o0 + 21 then fat_month (modify_date f) else if j = o0 + 20 then fat_day (modify_date f)
      else if o0 + 16 \<le> j \<and> j < o0 + 20 then bytes32 (file_size f) ! (j - (o0 + 16))
      else if j = o0 + 14 then if bit (attributes f) 0 then 1 else 0
      else if j = o0 + 13 then if bit (attributes f) 4 then 1 else 0 else buf ! j)"

lemma entry_overlay_fields:
  assumes b: "28 * k + 28 \<le> length buf"
  obtains b4 where "entry_overlay k f buf = overlay (28 * k + 9) (field_text (ext f) @ [0]) (overlay (28 * k) (field_text (filename f) @ [0]) b4)"
    "length b4 = length buf" "\<And>j. j < length buf \<Longrightarrow> b4 ! j = entry_byte f (28 * k) buf j"
proof -
  define o0 where "o0 = 28 * k"
  have b: "o0 + 28 \<le> length buf" using b by (simp add: o0_def)
  define b1 where "b1 = overlay (o0 + 14) [if bit (attributes f) 0 then 1 else 0]
     (overlay (o0 + 13) [if bit (attributes f) 4 then 1 else 0] buf)"
  define b2 where "b2 = overlay (o0 + 20) [fat_day (modify_date f)] (overlay (o0 + 16) (bytes32 (file_size f)) b1)"
  define b3 where "b3 = overlay (o0 + 22) (bytes16 (fat_year (modify_date f))) (overlay (o0 + 21) [fat_month (modify_date f)] b2)"
  define b4 where "b4 = overlay (o0 + 24) [fat_seconds (modify_time f)] (overlay (o0 + 25) [fat_minutes (modify_time f)]
      (overlay (o0 + 26) [fat_hours (modify_time f)] b3))"
  have l1: "length b1 = length buf" using b by (simp add: b1_def)
  have l2: "length b2 = length buf" using b by (simp add: b2_def l1)
  have l3: "length b3 = length buf" using b by (simp add: b3_def l2)
  have l4: "length b4 = length buf" using b by (simp add: b4_def l3)
  have n1: "b1 ! j = (if j = o0 + 14 then if bit (attributes f) 0 then 1 else 0
      else if j = o0 + 13 then if bit (attributes f) 4 then 1 else 0 else buf ! j)" if "j < length buf" for j
    using b that by (auto simp: b1_def overlay_nth)
  have n2: "b2 ! j = (if j = o0 + 20 then fat_day (modify_date f)
      else if o0 + 16 \<le> j \<and> j < o0 + 20 then bytes32 (file_size f) ! (j - (o0 + 16)) else b1 ! j)" if "j < length buf" for j
    using b that by (auto simp: b2_def overlay_nth l1)
  have n3: "b3 ! j = (if o0 + 22 \<le> j \<and> j < o0 + 24 then bytes16 (fat_year (modify_date f)) ! (j - (o0 + 22))
      else if j = o0 + 21 then fat_month (modify_date f) else b2 ! j)" if "j < length buf" for j
    using b that by (auto simp: b3_def overlay_nth l2)
  have n4: "b4 ! j = (if j = o0 + 24 then fat_seconds (modify_time f) else if j = o0 + 25 then fat_minutes (modify_time f)
      else if j = o0 + 26 then fat_hours (modify_time f) else b3 ! j)" if "j < length buf" for j
    using b that by (auto simp: b4_def overlay_nth l3)
  show thesis
  proof (rule that [of b4])
    show "entry_overlay k f buf = overlay (28 * k + 9) (field_text (ext f) @ [0]) (overlay (28 * k) (field_text (filename f) @ [0]) b4)"
      unfolding b4_def b3_def b2_def b1_def o0_def by (simp add: entry_overlay_def Let_def)
  qed (simp_all only: l4 n4 n3 n2 n1 o0_def entry_byte_def)
qed

lemma entry_overlay_props:
  assumes f: "entry_wf f" "0 \<notin> set (filename f)" "0 \<notin> set (ext f)" and b: "28 * k + 28 \<le> length buf"
  shows entry_overlay_length: "length (entry_overlay k f buf) = length buf"
    and entry_overlay_same: "sys_entry_at (entry_overlay k f buf) k = sys_entry_of f"
    and entry_overlay_outside: "j < length buf \<Longrightarrow> j < 28 * k \<or> 28 * k + 28 \<le> j \<Longrightarrow> entry_overlay k f buf ! j = buf ! j"
proof -
  define o0 where "o0 = 28 * k"
  define n x where "n = field_text (filename f)" and "x = field_text (ext f)"
  have l: "length n \<le> 8" "length x \<le> 3" and nz: "0 \<notin> set n" "0 \<notin> set x"
    using f field_text_length [of "filename f"] field_text_length [of "ext f"]
    by (simp_all add: entry_wf_def n_def x_def field_text_no_NUL)
  obtain b4 where b4: "entry_overlay k f buf = overlay (o0 + 9) (x @ [0]) (overlay o0 (n @ [0]) b4)" "length b4 = length buf"
    "\<And>j. j < length buf \<Longrightarrow> b4 ! j = entry_byte f o0 buf j"
    by (rule entry_overlay_fields [OF b, of f, folded n_def x_def o0_def]) (rule that)
  note n4 = b4(3) [unfolded entry_byte_def]
  have b: "o0 + 28 \<le> length buf" using b by (simp add: o0_def)
  define b5 where "b5 = overlay o0 (n @ [0]) b4"
  note all = b4(1) [folded b5_def]
  have l5: "length b5 = length buf" using b l by (simp add: b5_def b4(2))
  show len: "length (entry_overlay k f buf) = length buf" using b l unfolding all by (simp add: l5)
  have n5: "b5 ! j = b4 ! j" if "j < length buf" "j < o0 \<or> o0 + 9 \<le> j" for j
    using b l that by (auto simp: b5_def overlay_nth b4(2))
  have n6: "entry_overlay k f buf ! j = b5 ! j" if "j < length buf" "j < o0 + 9 \<or> o0 + 13 \<le> j" for j
    using b l that by (auto simp: all overlay_nth l5)
  show "entry_overlay k f buf ! j = buf ! j" if "j < length buf" "j < 28 * k \<or> 28 * k + 28 \<le> j"
    using that unfolding o0_def [symmetric] by (elim disjE) (simp_all add: n4 n5 n6)
  have "take 9 (drop o0 (entry_overlay k f buf)) = take 9 (drop o0 b5)"
    unfolding all using b l by (intro overlay_take_drop) (simp_all add: l5)
  then have name: "cval (take 9 (drop o0 (entry_overlay k f buf))) = n"
    using b l nz by (simp add: b5_def overlay_text b4(2))
  have "cval (take 4 (drop (o0 + 9) (entry_overlay k f buf))) = x"
    unfolding all using b l nz by (simp add: overlay_text l5)
  with name show "sys_entry_at (entry_overlay k f buf) k = sys_entry_of f"
    using b le32_bytes32 [of "file_size f"] le16_bytes16 [of "fat_year (modify_date f)"]
    unfolding sys_entry_at_def Let_def o0_def [symmetric]
    by (simp add: take_drop_bytes len n6 n5 n4 sys_entry_of_def fat_fields [symmetric] n_def x_def bytes32_def bytes16_def
        del: of_nat_add of_nat_mult)
qed

section \<open>Reading the root directory\<close>

text \<open>What the directory functions change: the descriptors, the number buffer, and the console, to which they add;
  they keep the file table ready and the directory's place.\<close>

definition dir_step :: "byte list \<Rightarrow> kstate \<Rightarrow> kstate \<Rightarrow> bool" where
  "dir_step t s s' \<longleftrightarrow> fds_ready s' \<and> num_ok (uitoa_buf s') \<and> fd_pfd_offset (fd_after s') = fd_pfd_offset (fd_after s)
     \<and> processes s' = processes s \<and> running_proc s' = running_proc s \<and> seg_arr s' = seg_arr s
     \<and> bs s' = bs s \<and> s_pos s' = s_pos s \<and> drv s' = drv s \<and> params s' = params s \<and> ram s' = ram s
     \<and> old_int8 s' = old_int8 s \<and> init_name s' = init_name s \<and> kbd s' = kbd s \<and> console s' = console s @ map EvChar t"

lemma dir_step_refl: "fds_ready s \<Longrightarrow> num_ok (uitoa_buf s) \<Longrightarrow> dir_step [] s s"
  by (simp add: dir_step_def)

lemma dir_step_trans: "dir_step t s s' \<Longrightarrow> dir_step t' s' s'' \<Longrightarrow> dir_step (t @ t') s s''"
  by (simp add: dir_step_def)

lemma shown_ready [simp]: "fds_ready (shown t s) = fds_ready s"
  by (simp add: fds_ready_def)

lemma fds_ready_buf [simp]: "fds_ready (s\<lparr>uitoa_buf := b\<rparr>) = fds_ready s"
  by (simp add: fds_ready_def)

lemma crlf_eq: "crlf = [13, 10] @ [0]"
  by (simp add: crlf_def)

text \<open>What \<open>get_root_files\<close> shows while it reads: for each entry of a directory of \<open>n\<close>, and in all.\<close>

definition entry_text :: "nat \<Rightarrow> byte list" where
  "entry_text i = lit ''reading entry number '' @ dec i @ [13, 10] @ (if i = 223 then lit ''entry 223'' @ [13, 10] else [])"

definition scan_text :: "nat \<Rightarrow> byte list" where
  "scan_text n = lit ''reading root directory'' @ [13, 10] @ lit ''root directory entries:'' @ dec n @ [13, 10]
     @ concat (map entry_text [0..<n])"

lemma root_banner_eq:
  assumes "num_ok (uitoa_buf s)"
  shows "\<exists>b. num_ok b \<and> root_banner s = Inr (shown (lit ''reading root directory'' @ [13, 10] @ lit ''root directory entries:''
      @ dec (unat (bs_root_dir_entries s)) @ [13, 10]) (s\<lparr>uitoa_buf := b\<rparr>))"
proof -
  let ?s = "shown (lit ''reading root directory'' @ [13, 10] @ lit ''root directory entries:'') s"
  have "unat (ucast (bs_root_dir_entries s) :: u32) < 10 ^ 6"
    using unat_lt_u16 [of "bs_root_dir_entries s"] by (simp add: unsigned_ucast_eq take_bit_nat_eq_self)
  then obtain b where b: "num_ok b"
    "print_num (ucast (bs_root_dir_entries s)) ?s = Inr (shown (dec (unat (ucast (bs_root_dir_entries s) :: u32))) (?s\<lparr>uitoa_buf := b\<rparr>))"
    using print_num_eq [of ?s "ucast (bs_root_dir_entries s)"] assms by auto
  have "bs_root_dir_entries ?s = bs_root_dir_entries s" by (simp add: bs_root_dir_entries_def)
  moreover have "printk (lit ''reading root directory'' @ crlf) s = Inr (shown (lit ''reading root directory'' @ [13, 10]) s)"
    using printk_lit [of "lit ''reading root directory'' @ [13, 10]" s] by (simp add: crlf_def)
  moreover have "printk (cstr ''root directory entries:'') s' = Inr (shown (lit ''root directory entries:'') s')" for s'
    by (rule printk_cstr) simp_all
  moreover have "printk crlf s' = Inr (shown [13, 10] s')" for s'
    unfolding crlf_eq by (rule printk_lit) simp_all
  ultimately have "root_banner s = Inr (shown [13, 10] (shown (dec (unat (ucast (bs_root_dir_entries s) :: u32))) (?s\<lparr>uitoa_buf := b\<rparr>)))"
    using b(2) unfolding root_banner_def by simp
  also have "\<dots> = Inr (shown (lit ''reading root directory'' @ [13, 10] @ lit ''root directory entries:''
      @ dec (unat (ucast (bs_root_dir_entries s) :: u32)) @ [13, 10]) (s\<lparr>uitoa_buf := b\<rparr>))"
    by (simp add: shown_def)
  also have "unat (ucast (bs_root_dir_entries s) :: u32) = unat (bs_root_dir_entries s)"
    using unat_lt_u16 [of "bs_root_dir_entries s"] by (simp add: unsigned_ucast_eq take_bit_nat_eq_self)
  finally show ?thesis using b(1) by blast
qed

lemma entry_banner_eq:
  assumes "num_ok (uitoa_buf s)" "i < 10 ^ 6"
  shows "\<exists>b. num_ok b \<and> entry_banner i s = Inr (shown (entry_text i) (s\<lparr>uitoa_buf := b\<rparr>))"
proof -
  let ?s = "shown (lit ''reading entry number '') s"
  have "unat (of_nat i :: u32) = i" using assms(2) by (intro unat_u32_of_nat) simp
  then obtain b where b: "num_ok b" "print_num (of_nat i) ?s = Inr (shown (dec i) (?s\<lparr>uitoa_buf := b\<rparr>))"
    using print_num_eq [of ?s "of_nat i"] assms by auto
  have p: "printk (cstr ''reading entry number '') s = Inr ?s"
    by (rule printk_cstr) simp_all
  have c: "printk crlf s' = Inr (shown [13, 10] s')" for s'
    unfolding crlf_eq by (rule printk_lit) simp_all
  have e: "printk (lit ''entry 223'' @ crlf) s' = Inr (shown (lit ''entry 223'' @ [13, 10]) s')" for s'
    using printk_lit [of "lit ''entry 223'' @ [13, 10]" s'] by (simp add: crlf_def)
  have "entry_banner i s = Inr (shown (entry_text i) (s\<lparr>uitoa_buf := b\<rparr>))"
    unfolding entry_banner_def entry_text_def using p b(2) by (auto simp: c e simp del: lit_simps)
  with b(1) show ?thesis by blast
qed

text \<open>Entry \<open>i\<close> of the directory, at its own place on the disk, and the directories the driver reads right.\<close>

definition dir_entry :: "env \<Rightarrow> kstate \<Rightarrow> nat \<Rightarrow> Fat16Entry" where
  "dir_entry e s i = entry_of (disk_bytes e 1 (unat (fd_pfd_offset (fd_after s)) + 32 * i) 32)"

definition dir_readable :: "kstate \<Rightarrow> nat \<Rightarrow> bool" where
  "dir_readable s n \<longleftrightarrow> (\<forall>i<n. in_place (unat (fd_pfd_offset (fd_after s)) + 32 * i) 32) \<and> n < 65536"

lemma dir_entry_wf: "entry_wf (dir_entry e s i)"
  unfolding dir_entry_def by (rule entry_of_wf) simp

lemma dir_step_dir:
  assumes "dir_step t s s'"
  shows "dir_entry e s' = dir_entry e s" "dir_readable s' = dir_readable s"
    "bs_root_dir_entries s' = bs_root_dir_entries s"
  using assms by (simp_all add: dir_step_def dir_entry_def dir_readable_def bs_root_dir_entries_def fun_eq_iff)

lemma read_dir_entry:
  assumes "env_ok e" "disk_ok e 1" "fds_ready s" "num_ok (uitoa_buf s)" "dir_readable s n" "i < n"
    and "fd_pos (fd_after s) = of_nat (32 * i)" "length buf = 32"
  shows "\<exists>b s'. read_fd e 5 buf 32 0 s = ret (32, b, s') \<and> entry_of b = dir_entry e s i \<and> dir_step [] s s'
    \<and> fd_pos (fd_after s') = of_nat (32 * Suc i)"
proof -
  let ?R = "unat (fd_pfd_offset (fd_after s))"
  define p where "p = fd_pfd_offset (fd_after s) + fd_pos (fd_after s)"
  have r: "readable (?R + 32 * i) 32" "floppy_pos (?R + 32 * i) = ?R + 32 * i" and n: "n < 65536"
    using assms(5,6) in_placeD [of "?R + 32 * i" 32] by (simp_all add: dir_readable_def)
  have "unat (of_nat (32 * i) :: u32) = 32 * i" using n assms(6) by (intro unat_u32_of_nat) simp
  then have at: "unat p = ?R + 32 * i"
    using r unfolding p_def assms(7) by (subst unat_u32_add) (simp_all add: readable_def)
  let ?b = "disk_bytes e 1 (?R + 32 * i) 32"
  have "read_floppy e 4 p buf 32 s' = Inr (?b, s')" for s'
    using read_floppy_correct [of e 4 p 32 buf s'] assms(1,2,8) r by (simp add: at floppy_drive_def)
  then have "read_fd e 5 buf 32 0 s = ret (32, ?b, root_read_state p 32 s)"
    using assms(3) by (intro read_fd_root_kernel) (simp_all add: p_def)
  moreover have "dir_step [] s (root_read_state p 32 s)"
    using assms(3,4) by (simp add: dir_step_def)
  ultimately show ?thesis
    using assms(7) by (auto simp: dir_entry_def)
qed

lemma get_root_files_loop_eq:
  "\<lbrakk>env_ok e; disk_ok e 1; fds_ready s; num_ok (uitoa_buf s); dir_readable s (i + n);
    fd_pos (fd_after s) = of_nat (32 * i); i + n \<le> length files; \<forall>f\<in>set files. entry_wf f\<rbrakk> \<Longrightarrow>
   \<exists>s'. get_root_files_loop e i n files s =
       ret (take i files @ map (dir_entry e s) [i..<i + n] @ drop (i + n) files, s')
     \<and> dir_step (concat (map entry_text [i..<i + n])) s s' \<and> fd_pos (fd_after s') = of_nat (32 * (i + n))"
proof (induction n arbitrary: i files s)
  case 0
  then show ?case by (auto intro!: dir_step_refl)
next
  case (Suc n)
  note p = Suc.prems
  have i: "i < length files" "i < 10 ^ 6" using p(5,7) by (auto simp: dir_readable_def)
  obtain b where b: "num_ok b" "entry_banner i s = Inr (shown (entry_text i) (s\<lparr>uitoa_buf := b\<rparr>))"
    using entry_banner_eq [OF p(4) i(2)] by blast
  let ?s = "shown (entry_text i) (s\<lparr>uitoa_buf := b\<rparr>)"
  have st: "dir_step (entry_text i) s ?s" using p(3) b(1) by (simp add: dir_step_def)
  have "length (entry_bytes (files ! i)) = 32" using p(8) i by (intro entry_bytes_length) simp
  then obtain c s' where c: "read_fd e 5 (entry_bytes (files ! i)) 32 0 ?s = ret (32, c, s')" "entry_of c = dir_entry e ?s i"
      "dir_step [] ?s s'" "fd_pos (fd_after s') = of_nat (32 * Suc i)"
    using read_dir_entry [of e ?s "i + Suc n" i "entry_bytes (files ! i)"] p b(1) dir_step_dir(2) [OF st] by auto
  have st': "dir_step (entry_text i) s s'" using dir_step_trans [OF st c(3)] by simp
  have e: "dir_entry e ?s = dir_entry e s" "dir_entry e s' = dir_entry e s"
    using dir_step_dir(1) st st' by blast+
  let ?f = "files[i := dir_entry e s i]"
  have wf: "\<forall>f\<in>set ?f. entry_wf f" using p(8) dir_entry_wf set_update_subset_insert [of files i "dir_entry e s i"] by blast
  have "\<exists>s''. get_root_files_loop e (Suc i) n ?f s' =
       ret (take (Suc i) ?f @ map (dir_entry e s') [Suc i..<Suc i + n] @ drop (Suc i + n) ?f, s'')
     \<and> dir_step (concat (map entry_text [Suc i..<Suc i + n])) s' s'' \<and> fd_pos (fd_after s'') = of_nat (32 * (Suc i + n))"
    using p st' c(4) wf dir_step_dir(2) [OF st'] by (intro Suc.IH) (simp_all add: dir_step_def)
  then obtain s'' where s'': "get_root_files_loop e (Suc i) n ?f s' =
       ret (take (Suc i) ?f @ map (dir_entry e s) [Suc i..<Suc i + n] @ drop (Suc i + n) ?f, s'')"
     "dir_step (concat (map entry_text [Suc i..<Suc i + n])) s' s''" "fd_pos (fd_after s'') = of_nat (32 * (Suc i + n))"
    using e by auto
  have "take (Suc i) ?f @ map (dir_entry e s) [Suc i..<Suc i + n] @ drop (Suc i + n) ?f
      = take i files @ map (dir_entry e s) [i..<i + Suc n] @ drop (i + Suc n) files"
    using i by (simp add: take_Suc_conv_app_nth upt_rec [of i] del: upt_Suc)
  moreover have "dir_step (concat (map entry_text [i..<i + Suc n])) s s''"
    using dir_step_trans [OF st' s''(2)] by (simp add: upt_rec [of i] del: upt_Suc)
  ultimately show ?case
    using s''(1,3) b(2) c(1,2) i e by (intro exI [of _ s'']) (simp del: upt_Suc)
qed

lemma get_root_files_eq:
  assumes "env_ok e" "disk_ok e 1" "fds_ready s" "num_ok (uitoa_buf s)"
    and "n = unat (bs_root_dir_entries s)" "dir_readable s n" "n \<le> length files" "\<forall>f\<in>set files. entry_wf f"
  shows "\<exists>s'. get_root_files e files s = ret (map (dir_entry e s) [0..<n] @ drop n files, s') \<and> dir_step (scan_text n) s s'"
proof -
  let ?s = "s\<lparr>fd_after := (fd_after s)\<lparr>fd_pos := 0\<rparr>\<rparr>"
    and ?t = "lit ''reading root directory'' @ [13, 10] @ lit ''root directory entries:'' @ dec n @ [13, 10]"
  have "fds_ready ?s" using assms(3) by (simp add: fds_ready_def)
  have "unat (bs_root_dir_entries ?s) = n" using assms(5) by (simp add: bs_root_dir_entries_def)
  then obtain b where b: "num_ok b" "root_banner ?s = Inr (shown ?t (?s\<lparr>uitoa_buf := b\<rparr>))"
    using root_banner_eq [of ?s] assms(4) by auto
  let ?s1 = "shown ?t (?s\<lparr>uitoa_buf := b\<rparr>)"
  have "fds_ready ?s1" using \<open>fds_ready ?s\<close> by simp
  then have st1: "dir_step ?t s ?s1" using b(1) by (simp add: dir_step_def)
  have "\<exists>s'. get_root_files_loop e 0 n files ?s1 =
       ret (take 0 files @ map (dir_entry e ?s1) [0..<0 + n] @ drop (0 + n) files, s')
     \<and> dir_step (concat (map entry_text [0..<0 + n])) ?s1 s' \<and> fd_pos (fd_after s') = of_nat (32 * (0 + n))"
    using assms b(1) \<open>fds_ready ?s1\<close> dir_step_dir(2) [OF st1] by (intro get_root_files_loop_eq) simp_all
  then obtain s' where s': "get_root_files_loop e 0 n files ?s1 = ret (map (dir_entry e s) [0..<n] @ drop n files, s')"
      "dir_step (concat (map entry_text [0..<n])) ?s1 s'"
    using dir_step_dir(1) [OF st1] by auto
  have "dir_step (scan_text n) s s'" using dir_step_trans [OF st1 s'(2)] by (simp add: scan_text_def)
  moreover have "lseek 5 0 0 0 s = Inr (0, ?s)"
    by (simp add: lseek_def cfd_upd_def kfd_upd_def)
  moreover have "unat (bs_root_dir_entries ?s1) = n"
    using dir_step_dir(3) [OF st1] assms(5) by simp
  ultimately show ?thesis
    using b(2) s'(1) by (auto simp: get_root_files_def)
qed

text \<open>C18: on a volume no entry of whose root directory lies in the last sector of a track (those are read from
  another sector: C13, C35), \<open>get_root_files\<close> fills the caller's list with the entries of the directory, each
  from its own place on the disk, in order, as many as the boot sector says, and leaves the rest of the list; the screen shows its messages, a line for every
  entry.\<close>

theorem get_root_files_correct:
  assumes "env_ok e" "disk_ok e 1" "fds_ready s" "num_ok (uitoa_buf s)"
    and "n = unat (bs_root_dir_entries s)" "dir_readable s n" "n \<le> length files" "\<forall>f\<in>set files. entry_wf f"
  shows "\<exists>s'. get_root_files e files s = ret (map (dir_entry e s) [0..<n] @ drop n files, s') \<and> dir_step (scan_text n) s s'"
  using assms by (rule get_root_files_eq)

text \<open>The root directory of the sample volume, sectors 19 to 32, meets no last sector of a track.\<close>

lemma sample_dir_sector: "j < 32 \<Longrightarrow> (9728 + 32 * i + j) div 512 = 19 + (i :: nat) div 16"
proof -
  assume j: "j < 32"
  define q r where "q = i div 16" and "r = i mod 16"
  have ir: "i = 16 * q + r" "r < 16" by (simp_all add: q_def r_def)
  have "9728 + 32 * i + j = 512 * (19 + q) + (32 * r + j)" unfolding ir by simp
  then show "(9728 + 32 * i + j) div 512 = 19 + i div 16"
    using j ir(2) by (simp only: div_mult_self4 q_def)
qed

lemma sample_dir_track: "(i :: nat) < 224 \<Longrightarrow> (9728 + 32 * i) div 512 mod 18 \<noteq> 17"
proof -
  assume "i < 224"
  then have "i div 16 < 14" by (simp add: less_mult_imp_div_less)
  moreover have "(9728 + 32 * i) div 512 = 19 + i div 16"
    using sample_dir_sector [of 0 i] by simp
  moreover have "(19 + i div 16) mod 18 = (1 + i div 16) mod 18"
    using mod_mult_self2 [of "1 + i div 16" 18 1] by simp
  ultimately show "(9728 + 32 * i) div 512 mod 18 \<noteq> 17" by simp
qed

lemma sample_dir_readable: "i < 224 \<Longrightarrow> in_place (9728 + 32 * i) 32"
proof -
  assume i: "i < 224"
  have "floppy_pos (9728 + 32 * i) = 9728 + 32 * i"
    using sample_dir_track [OF i] floppy_pos_fixed by blast
  moreover have "(9728 + 32 * i) mod 512 + 32 \<le> 512"
  proof -
    define q r where "q = i div 16" and "r = i mod 16"
    have ir: "i = 16 * q + r" "r < 16" by (simp_all add: q_def r_def)
    have "9728 + 32 * i = 512 * (19 + q) + 32 * r" unfolding ir by simp
    then show ?thesis using ir(2) by (simp only: mod_mult_self4)
  qed
  ultimately show "in_place (9728 + 32 * i) 32"
    using i sample_dir_track [OF i] by (simp add: in_place_def readable_def)
qed

theorem get_root_files_correct_witness:
  "\<exists>s'. get_root_files two_env (replicate 256 ls_entry) (volume_state (fat12_bytes two_clusters)) =
     ret (map (dir_entry two_env (volume_state (fat12_bytes two_clusters))) [0..<224]
          @ drop 224 (replicate 256 ls_entry), s')
   \<and> dir_step (scan_text 224) (volume_state (fat12_bytes two_clusters)) s'"
proof -
  let ?s = "volume_state (fat12_bytes two_clusters)"
  have n: "unat (bs_root_dir_entries ?s) = 224"
    by (simp add: bs_root_dir_entries_def image_sector_field sample_image_def le16_def)
  have off: "fd_pfd_offset (fd_after ?s) = 9728"
    by (simp add: volume_state_def root_state_after)
  have b: "num_ok (uitoa_buf ?s)"
    by (simp add: num_ok_def volume_state_def root_state_def floppy_state_def zero_state_def)
  have r: "dir_readable ?s 224"
    using sample_dir_readable by (simp add: dir_readable_def off)
  show ?thesis
    by (rule get_root_files_correct) (use n b r in \<open>simp_all\<close>)
qed

section \<open>Listing the root directory\<close>

definition is_file :: "Fat16Entry \<Rightarrow> bool" where
  "is_file f \<longleftrightarrow> get_entry_type f = TYPE_FILE"

lemma is_file_first: "is_file f \<Longrightarrow> filename f ! 0 \<noteq> 0xE5 \<and> filename f ! 0 \<noteq> 0"
  by (auto simp: is_file_def get_entry_type_def Let_def split: if_splits)

text \<open>Names the code can extract.\<close>

definition names_ok :: "Fat16Entry \<Rightarrow> bool" where
  "names_ok f \<longleftrightarrow> 0 \<notin> set (filename f) \<and> 0 \<notin> set (ext f)"

lemma extract_ret:
  assumes "entry_wf f" "names_ok f" "length fname = 9" "length fext = 4"
  obtains n x where "extract_file_name f fname fext = ret (n, x)" "length n = 9" "length x = 4"
    "terminated n" "cval n = field_text (filename f)" "terminated x" "cval x = field_text (ext f)"
  using assms by (intro that [of "map blank (filename f) @ [0]" "map blank (ext f) @ [0]"])
    (auto simp: extract_file_name_eq names_ok_def cval_blank entry_wf_def)

text \<open>The records of consecutive files, laid over the buffer in turn.\<close>

fun put_all :: "nat \<Rightarrow> Fat16Entry list \<Rightarrow> byte list \<Rightarrow> byte list" where
  "put_all k [] buf = buf"
| "put_all k (f # fs) buf = put_all (Suc k) fs (entry_overlay k f buf)"

lemma sys_entry_at_cong:
  assumes "\<And>j. 28 * k \<le> j \<Longrightarrow> j < 28 * k + 28 \<Longrightarrow> a ! j = b ! j" and l: "28 * k + 28 \<le> length a" "length a = length b"
  shows "sys_entry_at a k = sys_entry_at b k"
proof -
  have r: "take n (drop (28 * k + i) a) = take n (drop (28 * k + i) b)" if "i + n \<le> 28" for i n
    using assms that by (intro nth_equalityI) auto
  have "a ! (28 * k + i) = b ! (28 * k + i)" if "i < 28" for i
    using assms(1) that by simp
  with r [of 0 9] r [of 9 4] r [of 16 4] r [of 22 2] show ?thesis
    by (simp add: sys_entry_at_def Let_def)
qed

lemma put_all_props:
  "\<lbrakk>\<forall>f\<in>set fs. entry_wf f \<and> names_ok f; 28 * (k + length fs) \<le> length buf\<rbrakk> \<Longrightarrow>
   length (put_all k fs buf) = length buf
   \<and> (\<forall>i<length fs. sys_entry_at (put_all k fs buf) (k + i) = sys_entry_of (fs ! i))
   \<and> (\<forall>j<length buf. j < 28 * k \<or> 28 * (k + length fs) \<le> j \<longrightarrow> put_all k fs buf ! j = buf ! j)"
proof (induction fs arbitrary: k buf)
  case Nil
  then show ?case by simp
next
  case (Cons f fs)
  have f: "entry_wf f" "0 \<notin> set (filename f)" "0 \<notin> set (ext f)" and b: "28 * k + 28 \<le> length buf"
    using Cons.prems by (simp_all add: names_ok_def)
  note o = entry_overlay_props [OF f b]
  let ?b = "entry_overlay k f buf"
  have IH: "length (put_all (Suc k) fs ?b) = length ?b"
    "\<And>i. i < length fs \<Longrightarrow> sys_entry_at (put_all (Suc k) fs ?b) (Suc k + i) = sys_entry_of (fs ! i)"
    "\<And>j. j < length ?b \<Longrightarrow> j < 28 * Suc k \<or> 28 * (Suc k + length fs) \<le> j \<Longrightarrow> put_all (Suc k) fs ?b ! j = ?b ! j"
    using Cons.IH [of "Suc k" ?b] Cons.prems o(1) by auto
  have first: "sys_entry_at (put_all (Suc k) fs ?b) k = sys_entry_of f"
    unfolding o(2) [symmetric] using b IH(1) o(1) by (intro sys_entry_at_cong) (simp_all add: IH(3))
  have "sys_entry_at (put_all k (f # fs) buf) (k + i) = sys_entry_of ((f # fs) ! i)" if "i < length (f # fs)" for i
    using first IH(2) that by (cases i) simp_all
  moreover have "put_all k (f # fs) buf ! j = buf ! j"
    if "j < length buf" "j < 28 * k \<or> 28 * (k + length (f # fs)) \<le> j" for j
    using IH(3) [of j] o(1,3) that by auto
  ultimately show ?case using IH(1) o(1) by simp
qed

lemma next_file_some:
  assumes "env_ok e" "disk_ok e 1" "fds_ready s" "num_ok (uitoa_buf s)" "dir_readable s n" "i < n"
    and "fd_pos (fd_after s) = of_nat (32 * i)" "entry_wf file" "n = unat (bs_root_dir_entries s)"
  shows "\<exists>s'. get_root_next_file e file s = ret (0, dir_entry e s i, s') \<and> dir_step [] s s'
    \<and> fd_pos (fd_after s') = of_nat (32 * Suc i)"
proof -
  have n: "n < 65536" using assms(5) by (simp add: dir_readable_def)
  then have "unat (of_nat (32 * i) + 32 :: u32) = 32 * i + 32" "unat (ucast (bs_root_dir_entries s) * 32 :: u32) = n * 32"
    using assms(6) unfolding ucast_u16_of_nat assms(9) [symmetric]
    by (simp_all add: unat_u32_of_nat unat_u32_add unat_u32_mult del: of_nat_mult)
  then have "fd_pos (fd_after s) + 32 \<le> ucast (bs_root_dir_entries s) * 32"
    using assms(6) unfolding assms(7) by (simp add: word_le_nat_alt del: of_nat_mult)
  moreover have "length (entry_bytes file) = 32" using assms(8) by (rule entry_bytes_length)
  ultimately show ?thesis
    using read_dir_entry [OF assms(1-7), of "entry_bytes file"] by (auto simp: get_root_next_file_def)
qed

lemma next_file_none:
  assumes "n < 65536" "fd_pos (fd_after s) = of_nat (32 * n)" "n = unat (bs_root_dir_entries s)"
  shows "get_root_next_file e file s = ret (-1, file, s)"
proof -
  have "unat (of_nat (32 * n) + 32 :: u32) = 32 * n + 32" "unat (ucast (bs_root_dir_entries s) * 32 :: u32) = n * 32"
    using assms(1) unfolding ucast_u16_of_nat assms(3) [symmetric]
    by (simp_all add: unat_u32_of_nat unat_u32_add unat_u32_mult del: of_nat_mult)
  then have "\<not> fd_pos (fd_after s) + 32 \<le> ucast (bs_root_dir_entries s) * 32"
    unfolding assms(2) by (simp add: word_le_nat_alt del: of_nat_mult)
  then show ?thesis by (simp add: get_root_next_file_def)
qed

text \<open>The volume's directory of \<open>n\<close> entries, as the listing and the lookup need it.\<close>

definition dir_ok :: "env \<Rightarrow> kstate \<Rightarrow> nat \<Rightarrow> bool" where
  "dir_ok e s n \<longleftrightarrow> env_ok e \<and> disk_ok e 1 \<and> fds_ready s \<and> num_ok (uitoa_buf s)
     \<and> n = unat (bs_root_dir_entries s) \<and> dir_readable s n
     \<and> (\<forall>i<n. is_file (dir_entry e s i) \<longrightarrow> names_ok (dir_entry e s i))"

lemma dir_ok_step: "dir_ok e s n \<Longrightarrow> dir_step t s s' \<Longrightarrow> dir_ok e s' n"
  using dir_step_dir [of t s s'] by (auto simp: dir_ok_def dir_step_def)

definition files_from :: "env \<Rightarrow> kstate \<Rightarrow> nat \<Rightarrow> nat \<Rightarrow> Fat16Entry list" where
  "files_from e s i n = filter is_file (map (dir_entry e s) [i..<n])"

lemma files_from_Suc:
  "i < n \<Longrightarrow> files_from e s i n =
     (if is_file (dir_entry e s i) then dir_entry e s i # files_from e s (Suc i) n else files_from e s (Suc i) n)"
  by (simp add: files_from_def upt_rec [of i])

lemma list_root_put:
  assumes "entry_wf f" "names_ok f" "length fname = 9" "length fext = 4" "28 * k + 28 \<le> length buf"
  obtains nm x where "extract_file_name f fname fext = ret (nm, x)" "length nm = 9" "length x = 4"
    "put_entry buf k f nm x = Inr (entry_overlay k f buf)" "length (entry_overlay k f buf) = length buf"
proof -
  obtain nm x where nx: "extract_file_name f fname fext = ret (nm, x)" "length nm = 9" "length x = 4"
      "terminated nm" "cval nm = field_text (filename f)" "terminated x" "cval x = field_text (ext f)"
    using extract_ret [OF assms(1-4)] by blast
  have "put_entry buf k f nm x = Inr (entry_overlay k f buf)"
    using assms nx by (intro put_entry_eq) simp_all
  moreover have "length (entry_overlay k f buf) = length buf"
    using assms by (intro entry_overlay_length) (simp_all add: names_ok_def)
  ultimately show thesis using nx by (intro that)
qed

text \<open>One turn of the loop, for an entry that is no file and for one that is.\<close>

lemma list_root_skip:
  assumes "get_root_next_file e f0 s = ret (0, f, s')" "\<not> is_file f" "left \<noteq> 0"
  shows "list_root_loop e buf k left f0 fname fext s = list_root_loop e buf k left f fname fext s'"
  using assms by (subst list_root_loop.simps) (simp add: is_file_def)

lemma list_root_take:
  assumes "get_root_next_file e f0 s = ret (0, f, s')" "is_file f" "extract_file_name f fname fext = ret (nm, x)"
    and "put_entry buf k f nm x = Inr b"
  shows "list_root_loop e buf k (Suc l) f0 fname fext s = list_root_loop e b (Suc k) l f nm x s'"
  using assms is_file_first [OF assms(2)] by (subst list_root_loop.simps) (simp add: is_file_def)

lemma list_root_loop_eq:
  "\<lbrakk>dir_ok e s n; i \<le> n; fd_pos (fd_after s) = of_nat (32 * i); entry_wf f0; length fname = 9; length fext = 4;
    28 * (k + left) \<le> length buf\<rbrakk> \<Longrightarrow>
   \<exists>s'. list_root_loop e buf k left f0 fname fext s =
       ret (k + length (take left (files_from e s i n)), put_all k (take left (files_from e s i n)) buf, s')
     \<and> dir_step [] s s'"
proof (induction "n - i" arbitrary: i s f0 fname fext k left buf)
  case 0
  then have "i = n" "files_from e s i n = []" by (simp_all add: files_from_def)
  moreover from this 0 have "get_root_next_file e f0 s = ret (-1, f0, s)" "dir_step [] s s"
    by (intro next_file_none dir_step_refl; simp add: dir_ok_def dir_readable_def)+
  ultimately show ?case by (subst list_root_loop.simps) auto
next
  case (Suc m)
  note p = Suc.prems
  have i: "i < n" and m: "m = n - Suc i" using Suc.hyps(2) by simp_all
  have ready: "fds_ready s" "num_ok (uitoa_buf s)" using p(1) by (simp_all add: dir_ok_def)
  show ?case
  proof (cases "left = 0")
    case True
    with ready show ?thesis
      by (subst list_root_loop.simps) (auto intro: dir_step_refl)
  next
    case False
    then obtain l where left: "left = Suc l" by (cases left) auto
    let ?f = "dir_entry e s i"
    obtain s' where s': "get_root_next_file e f0 s = ret (0, ?f, s')" "dir_step [] s s'"
        "fd_pos (fd_after s') = of_nat (32 * Suc i)"
      using next_file_some [of e s n i f0] p i by (auto simp: dir_ok_def)
    have ok: "dir_ok e s' n" using p(1) s'(2) by (rule dir_ok_step)
    have files: "files_from e s' (Suc i) n = files_from e s (Suc i) n"
      using dir_step_dir(1) [OF s'(2)] by (simp add: files_from_def)
    show ?thesis
    proof (cases "is_file ?f")
      case nf: False
      obtain s'' where "list_root_loop e buf k left ?f fname fext s' =
         ret (k + length (take left (files_from e s (Suc i) n)), put_all k (take left (files_from e s (Suc i) n)) buf, s'')"
         "dir_step [] s' s''"
        using Suc.hyps(1) [of "Suc i" s' ?f fname fext k left buf] m ok i s'(3) p dir_entry_wf files by auto
      with list_root_skip [OF s'(1) nf False] show ?thesis
        using nf i dir_step_trans [OF s'(2)] by (auto simp: files_from_Suc)
    next
      case f: True
      have "names_ok ?f" using p(1) i f by (simp add: dir_ok_def)
      then obtain nm x where nx: "extract_file_name ?f fname fext = ret (nm, x)" "length nm = 9" "length x = 4"
          "put_entry buf k ?f nm x = Inr (entry_overlay k ?f buf)" "length (entry_overlay k ?f buf) = length buf"
        using list_root_put [OF dir_entry_wf _ p(5,6), of e s i k buf] p(7) left by auto
      obtain s'' where "list_root_loop e (entry_overlay k ?f buf) (Suc k) l ?f nm x s' =
         ret (Suc k + length (take l (files_from e s (Suc i) n)),
              put_all (Suc k) (take l (files_from e s (Suc i) n)) (entry_overlay k ?f buf), s'')"
         "dir_step [] s' s''"
        using Suc.hyps(1) [of "Suc i" s' ?f nm x "Suc k" l "entry_overlay k ?f buf"] m ok i s'(3) p
          dir_entry_wf files nx(2,3,5) left by auto
      with list_root_take [OF s'(1) f nx(1,4), of l] show ?thesis
        using f i left dir_step_trans [OF s'(2)] by (auto simp: files_from_Suc)
    qed
  qed
qed

lemma list_root_files_eq:
  assumes "dir_ok e s n" "fd_pos (fd_after s) = 0" "m = unat buf_size div 28" "28 * m \<le> length buf"
    and "fs = take m (files_from e s 0 n)"
  shows "\<exists>buf' s'. list_root_files e buf_size buf s = ret (length fs, buf', s') \<and> dir_step [] s s'
    \<and> length buf' = length buf \<and> (\<forall>i<length fs. sys_entry_at buf' i = sys_entry_of (fs ! i))
    \<and> (\<forall>j<length buf. 28 * length fs \<le> j \<longrightarrow> buf' ! j = buf ! j)"
proof -
  have e: "length (junk_name e) = 9" "length (junk_ext e) = 4" "length (junk_entries e ! 0) = 32"
    using assms(1) by (auto simp: dir_ok_def env_ok_def list_all_iff)
  have "m = unat (buf_size div 28)" using assms(3) by (simp add: unat_div)
  moreover obtain s' where "list_root_loop e buf 0 m (entry_of (junk_entries e ! 0)) (junk_name e) (junk_ext e) s =
      ret (0 + length fs, put_all 0 fs buf, s')" "dir_step [] s s'"
    using list_root_loop_eq [of e s n 0 "entry_of (junk_entries e ! 0)" "junk_name e" "junk_ext e" 0 m buf]
      assms e entry_of_wf [OF e(3)] by auto
  ultimately have r: "list_root_files e buf_size buf s = ret (length fs, put_all 0 fs buf, s')" "dir_step [] s s'"
    by (simp_all add: list_root_files_def)
  have "\<forall>f\<in>set (files_from e s 0 n). entry_wf f \<and> names_ok f"
    using assms(1) dir_entry_wf by (auto simp: files_from_def dir_ok_def)
  then have "\<forall>f\<in>set fs. entry_wf f \<and> names_ok f"
    unfolding assms(5) by (auto dest: in_set_takeD)
  moreover have "length fs \<le> m" unfolding assms(5) by simp
  then have "28 * (0 + length fs) \<le> length buf" using assms(4) by simp
  ultimately show ?thesis
    using r put_all_props [of fs 0 buf] by auto
qed

text \<open>C19: on a volume no entry of whose directory lies in the last sector of a track, with the directory's position at its start, \<open>list_root_files\<close> returns the number of files among
  the directory's entries, at most as many as records fit the size it is given; record \<open>i\<close> of the
  reply then shows name, extension, attributes, size, and the date and time of the \<open>i\<close>-th file as the FAT format
  defines them, and the
  bytes behind the records are untouched; nothing is shown.\<close>

theorem list_root_files_correct:
  assumes "dir_ok e s n" "fd_pos (fd_after s) = 0" "m = unat buf_size div 28" "28 * m \<le> length buf"
    and "fs = take m (files_from e s 0 n)"
  shows "\<exists>buf' s'. list_root_files e buf_size buf s = ret (length fs, buf', s') \<and> dir_step [] s s'
    \<and> length buf' = length buf \<and> (\<forall>i<length fs. sys_entry_at buf' i = sys_entry_of (fs ! i))
    \<and> (\<forall>j<length buf. 28 * length fs \<le> j \<longrightarrow> buf' ! j = buf ! j)"
  using assms by (rule list_root_files_eq)

section \<open>Looking up a file\<close>

lemma get_file_loop_eq:
  "\<lbrakk>i + n \<le> length files; \<forall>j<i + n. entry_wf (files ! j) \<and> (is_file (files ! j) \<longrightarrow> names_ok (files ! j));
    terminated name; length fname = 9; length fext = 4\<rbrakk> \<Longrightarrow>
   get_file_loop files name g i n fname fext = ret
     (case find (\<lambda>f. is_file f \<and> field_text (filename f) = cval name) (take n (drop i files)) of
        None \<Rightarrow> (-1, g) | Some f \<Rightarrow> (0, f))"
proof (induction n arbitrary: i fname fext)
  case 0
  then show ?case by simp
next
  case (Suc n)
  have i: "i < length files" using Suc.prems(1) by simp
  then have d: "take (Suc n) (drop i files) = files ! i # take n (drop (Suc i) files)"
    by (simp add: drop_tail_cons)
  have IH: "get_file_loop files name g (Suc i) n a b = ret
     (case find (\<lambda>f. is_file f \<and> field_text (filename f) = cval name) (take n (drop (Suc i) files)) of
        None \<Rightarrow> (-1, g) | Some f \<Rightarrow> (0, f))" if "length a = 9" "length b = 4" for a b
    using Suc.prems that by (intro Suc.IH) simp_all
  show ?case
  proof (cases "is_file (files ! i)")
    case False
    then show ?thesis
      using i Suc.prems IH [of fname fext] unfolding d by (simp add: is_file_def)
  next
    case True
    have "entry_wf (files ! i)" "names_ok (files ! i)" using Suc.prems(2) i True by auto
    then obtain nm x where nx: "extract_file_name (files ! i) fname fext = ret (nm, x)" "length nm = 9" "length x = 4"
        "terminated nm" "cval nm = field_text (filename (files ! i))"
      using extract_ret [OF _ _ Suc.prems(4,5)] by blast
    then obtain c where c: "strcmp nm name = Inr c" "c = 0 \<longleftrightarrow> field_text (filename (files ! i)) = cval name"
      using strcmp_total [OF nx(4) Suc.prems(3)] by auto
    show ?thesis
      using i True nx(1) c IH [OF nx(2,3)] unfolding d by (simp add: is_file_def)
  qed
qed

lemma get_file_eq:
  assumes "env_ok e" "n = unat (bs_root_dir_entries s)" "n \<le> length files" "terminated name"
    and "\<forall>j<n. entry_wf (files ! j) \<and> (is_file (files ! j) \<longrightarrow> names_ok (files ! j))"
  shows "get_file e files name g s = ret
    (case find (\<lambda>f. is_file f \<and> field_text (filename f) = cval name) (take n files) of
       None \<Rightarrow> (-1, g) | Some f \<Rightarrow> (0, f))"
  using get_file_loop_eq [of 0 n files name "junk_name e" "junk_ext e" g] assms
  by (simp add: get_file_def env_ok_def)

text \<open>C21: \<open>get_file\<close> returns the first file of the list, among the directory's number of entries, whose
  name without its extension is the one asked for, and -1 when there is none.\<close>

theorem get_file_correct:
  assumes "env_ok e" "n = unat (bs_root_dir_entries s)" "n \<le> length files" "terminated name"
    and "\<forall>j<n. entry_wf (files ! j) \<and> (is_file (files ! j) \<longrightarrow> names_ok (files ! j))"
  shows "get_file e files name g s = ret
    (case find (\<lambda>f. is_file f \<and> field_text (filename f) = cval name) (take n files) of
       None \<Rightarrow> (-1, g) | Some f \<Rightarrow> (0, f))"
  using assms by (rule get_file_eq)

theorem get_file_correct_witness:
  "get_file two_env (replicate 256 ls_entry) (cstr ''LS'') undefined (volume_state (fat12_bytes two_clusters))
   = ret (0, ls_entry)
   \<and> get_file two_env (replicate 256 ls_entry) (cstr ''PS'') ls_entry (volume_state (fat12_bytes two_clusters))
   = ret (-1, ls_entry)"
proof -
  let ?s = "volume_state (fat12_bytes two_clusters)" and ?fs = "replicate 256 ls_entry"
  have n: "unat (bs_root_dir_entries ?s) = 224"
    by (simp add: bs_root_dir_entries_def image_sector_field sample_image_def le16_def)
  have f: "is_file ls_entry" "names_ok ls_entry" "field_text (filename ls_entry) = lit ''LS''"
    by (auto simp: is_file_def entry_type_file names_ok_def ls_entry_def field_text_def)
  have get: "get_file two_env ?fs name g ?s = ret
      (case find (\<lambda>f. is_file f \<and> field_text (filename f) = cval name) (take 224 ?fs) of
        None \<Rightarrow> (-1, g) | Some f \<Rightarrow> (0, f))" if "terminated name" for name g
    by (rule get_file_correct) (use that n f in \<open>simp_all\<close>)
  have "find (\<lambda>f. is_file f \<and> field_text (filename f) = cval (cstr ''LS'')) (replicate (Suc k) ls_entry) = Some ls_entry" for k
    by (simp add: f cval_cstr)
  from this [of 223] have t: "find (\<lambda>f. is_file f \<and> field_text (filename f) = cval (cstr ''LS'')) (replicate 224 ls_entry) = Some ls_entry"
    by simp
  have "find (\<lambda>f. is_file f \<and> field_text (filename f) = cval (cstr ''PS'')) (replicate 224 ls_entry) = None"
    by (simp add: find_None_iff f cval_cstr)
  with t show ?thesis
    using get [of "cstr ''LS''" undefined] get [of "cstr ''PS''" ls_entry] f by (simp add: t cval_cstr)
qed

text \<open>The directory of the sample volume: every entry of sector \<open>l\<close> has the bytes \<open>l\<close>.\<close>

definition listing_state :: kstate where
  "listing_state = (volume_state (fat12_bytes two_clusters))\<lparr>fd_after := zero_fd\<lparr>fd_pfd := 4, fd_pfd_offset := 9728\<rparr>\<rparr>"

lemma listing_state_simps [simp]:
  "fds_ready listing_state" "fd_pfd_offset (fd_after listing_state) = 9728" "fd_pos (fd_after listing_state) = 0"
  using volume_state_simps(1) [of "fat12_bytes two_clusters"]
  by (simp_all add: listing_state_def fds_ready_def zero_fd_def)

lemma listing_entry:
  assumes "i < 224"
  shows "dir_entry two_env listing_state i = entry_of (replicate 32 (of_nat (19 + i div 16)))"
proof -
  let ?p = "9728 + 32 * i"
  have r: "?p + 32 \<le> 1474560" using assms by simp
  have "sample_image (fat12_bytes two_clusters) (?p + j) = of_nat (19 + i div 16)" if "j < 32" for j
  proof -
    have "(?p + j) div 512 = 19 + i div 16"
      by (rule sample_dir_sector) (use that in simp)
    then show ?thesis using that by (simp add: sample_image_def del: of_nat_add)
  qed
  then have "disk_bytes two_env 1 ?p 32 = replicate 32 (of_nat (19 + i div 16))"
    using r by (intro nth_equalityI) (simp_all add: image_disk_bytes del: of_nat_add)
  then show ?thesis by (simp add: dir_entry_def)
qed

lemma listing_is_file: "i < 32 \<Longrightarrow> is_file (dir_entry two_env listing_state i)"
proof -
  assume i: "i < 32"
  then have "i div 16 = 0 \<or> i div 16 = 1" by (auto simp: div_eq_0_iff)
  then show ?thesis
    using i by (auto simp: listing_entry is_file_def entry_type_file entry_of_def bit_numeral_rec)
qed

lemma listing_names_ok: "i < 224 \<Longrightarrow> names_ok (dir_entry two_env listing_state i)"
proof -
  assume i: "i < 224"
  then have "i div 16 < 14" by (simp add: less_mult_imp_div_less)
  then have "unat (of_nat (19 + i div 16) :: byte) = 19 + i div 16"
    by (intro unat_byte_of_nat) simp
  then have "(of_nat (19 + i div 16) :: byte) \<noteq> 0" by (metis add_is_0 unsigned_0 zero_neq_numeral)
  then show ?thesis
    using i by (simp add: listing_entry names_ok_def entry_of_def del: of_nat_add)
qed

lemma listing_dir_ok: "dir_ok two_env listing_state 224"
proof -
  have "unat (bs_root_dir_entries listing_state) = 224"
    by (simp add: bs_root_dir_entries_def listing_state_def image_sector_field sample_image_def le16_def)
  moreover have "num_ok (uitoa_buf listing_state)"
    by (simp add: num_ok_def listing_state_def volume_state_def root_state_def floppy_state_def zero_state_def)
  ultimately show ?thesis
    using sample_dir_readable listing_names_ok by (simp add: dir_ok_def dir_readable_def)
qed

theorem list_root_files_correct_witness:
  "\<exists>buf' s'. list_root_files two_env 512 (filler 576 0) listing_state = ret (18, buf', s')
    \<and> dir_step [] listing_state s' \<and> length buf' = 576
    \<and> (\<forall>i<18. sys_entry_at buf' i = sys_entry_of (dir_entry two_env listing_state i))
    \<and> (\<forall>j<576. 504 \<le> j \<longrightarrow> buf' ! j = 0)"
proof -
  let ?fs = "take 18 (files_from two_env listing_state 0 224)"
  have "[0..<224] = [0..<18] @ [18..<224]" using upt_add_eq_append [of 0 18 206] by simp
  moreover have "filter is_file (map (dir_entry two_env listing_state) [0..<18]) = map (dir_entry two_env listing_state) [0..<18]"
    using listing_is_file by (simp add: filter_id_conv del: upt_rec_numeral)
  ultimately have fs: "?fs = map (dir_entry two_env listing_state) [0..<18]"
    by (simp add: files_from_def del: upt_rec_numeral)
  have "\<exists>buf' s'. list_root_files two_env 512 (filler 576 0) listing_state = ret (length ?fs, buf', s') \<and> dir_step [] listing_state s'
    \<and> length buf' = length (filler 576 0) \<and> (\<forall>i<length ?fs. sys_entry_at buf' i = sys_entry_of (?fs ! i))
    \<and> (\<forall>j<length (filler 576 0). 28 * length ?fs \<le> j \<longrightarrow> buf' ! j = filler 576 0 ! j)"
    by (rule list_root_files_correct [OF listing_dir_ok]) simp_all
  then show ?thesis unfolding fs by (simp del: upt_rec_numeral)
qed

end
