(* ===== verification/Kernel.thy ===== *)
theory Kernel
  imports Fat_Dir
begin

text \<open>
  kernel/kernel.c: loading and running programs, the system call dispatcher and start-up, with
  \<open>mount\<close> of kernel/kernio.c and \<open>get_process_list\<close> of kernel/sched.c.  A user program is code
  outside the kernel: \<open>farcall\<close>, which runs it, is an argument of the definitions that call it.
\<close>

section \<open>Reports\<close>

definition print_str :: "string \<Rightarrow> kstate \<Rightarrow> kstate res" where
  "print_str t s = printk (cstr t) s"

definition state_name :: "procState \<Rightarrow> string" where
  "state_name st = (case st of READY \<Rightarrow> ''READY'' | WAIT \<Rightarrow> ''WAIT'' | RUNNING \<Rightarrow> ''RUNNING'' | SLEEP \<Rightarrow> ''UNKNOWN'')"

definition print_proc :: "proc \<Rightarrow> kstate \<Rightarrow> kstate res" where
  "print_proc p s =
     rbind (print_str ''root'' s) (\<lambda>s. rbind (print_str '' '' s) (\<lambda>s.
     rbind (print_num (p_pid p) s) (\<lambda>s. rbind (print_str '' '' s) (\<lambda>s.
     rbind (print_num (p_ppid p) s) (\<lambda>s. rbind (print_str '' '' s) (\<lambda>s.
     rbind (print_num (p_cs p) s) (\<lambda>s. rbind (print_str '' '' s) (\<lambda>s.
     rbind (print_str (state_name (p_state p)) s) (\<lambda>s. rbind (print_str '' '' s) (\<lambda>s.
     rbind (print_num (p_size p) s) (\<lambda>s. rbind (print_str '' '' s) (\<lambda>s.
     rbind (printk (p_name p) s) (\<lambda>s. printk crlf s)))))))))))))"

fun process_list_loop :: "nat \<Rightarrow> nat \<Rightarrow> kstate \<Rightarrow> kstate res" where
  "process_list_loop i 0 s = Inr s"
| "process_list_loop i (Suc n) s =
     rbind (if p_pid (processes s ! i) \<noteq> 0 then print_proc (processes s ! i) s else Inr s) (\<lambda>s.
     process_list_loop (Suc i) n s)"

definition get_process_list :: "kstate \<Rightarrow> kstate res" where
  "get_process_list s =
     rbind (printk (lit ''USER PID PPID CS STAT SIZE NAME'' @ crlf) s) (\<lambda>s.
     process_list_loop 0 NUM_PROCESSES s)"

definition time :: "env \<Rightarrow> kstate \<Rightarrow> kstate res" where
  "time e s =
     (case read_RTC_date e of (year, month, day) \<Rightarrow>
      rbind (print_num year s) (\<lambda>s. rbind (print_str ''/'' s) (\<lambda>s.
      rbind (print_num month s) (\<lambda>s. rbind (print_str ''/'' s) (\<lambda>s.
      rbind (print_num day s) (\<lambda>s. rbind (print_str '' '' s) (\<lambda>s.
      case read_RTC_time e of (hours, minutes, seconds) \<Rightarrow>
      rbind (print_num hours s) (\<lambda>s. rbind (print_str '':'' s) (\<lambda>s.
      rbind (print_num minutes s) (\<lambda>s. rbind (print_str '':'' s) (\<lambda>s.
      rbind (print_num seconds s) (\<lambda>s. printk crlf s))))))))))))"

section \<open>Interrupt vectors\<close>

text \<open>Words in the vector table of segment 0.\<close>

definition poke16 :: "nat \<Rightarrow> u16 \<Rightarrow> kstate \<Rightarrow> kstate" where
  "poke16 a w s = s\<lparr>ram := (ram s)(a := ucast w, a + 1 := ucast (drop_bit 8 w))\<rparr>"

definition peek16 :: "nat \<Rightarrow> kstate \<Rightarrow> u16" where
  "peek16 a s = le16 [ram s a, ram s (a + 1)]"

definition set_ivt :: "kstate \<Rightarrow> kstate" where
  "set_ivt s = poke16 0x202 0x1000 (poke16 0x200 0 s)"

text \<open>The two variables are declared \<open>int\<close> in C and reserved as two bytes each by the assembler, the
  segment first.\<close>

definition save_oldint8 :: "kstate \<Rightarrow> kstate res" where
  "save_oldint8 s =
     (let offs = peek16 0x20 s; segment = peek16 0x22 s in
      rbind (store (old_int8 s) 2 (bytes32 (ucast offs))) (\<lambda>b.
      rbind (store b 0 (bytes32 (ucast segment))) (\<lambda>b. Inr (s\<lparr>old_int8 := b\<rparr>))))"

definition set_scheduler :: "kstate \<Rightarrow> kstate res" where
  "set_scheduler s = rbind (save_oldint8 s) (\<lambda>s. Inr (poke16 0x22 0x1000 (poke16 0x20 5 s)))"

definition PIC_sendEOI :: "byte \<Rightarrow> kstate \<Rightarrow> kstate" where
  "PIC_sendEOI irq s = outb 0x20 0x20 (if 8 \<le> irq then outb 0xA0 0x20 s else s)"

section \<open>Mounting\<close>

definition mount :: "env \<Rightarrow> byte list \<Rightarrow> kstate \<Rightarrow> kstate run" where
  "mount e fname s =
     obind (Some (strcmp fname (cstr ''/dev/fdb''))) (\<lambda>c.
     if c = 0
     then obind (Some (open_drive s)) (\<lambda>r.
          obind (read_boot_sector e (snd r)) (\<lambda>s.
          obind (read_fat e (junk_fat_table e) s) (\<lambda>r.
          obind (Some (open_fd (cstr ''/'') 0 0 (snd r))) (\<lambda>r. ret (snd r)))))
     else ret s)"

section \<open>Running programs\<close>

text \<open>
  \<open>load\<close> returns its return value, the caller's \<open>pid\<close> and \<open>seg\<close>, the name it upper-cased in place,
  and the state.  The value returned by \<open>register_proc\<close> is not looked at.
\<close>

definition load :: "env \<Rightarrow> byte list \<Rightarrow> int \<Rightarrow> kstate \<Rightarrow> (int \<times> int \<times> u32 \<times> byte list \<times> kstate) run" where
  "load e name pid s =
     (let (segment, arr) = get_free_seg (junk_seg e) (seg_arr s); s = s\<lparr>seg_arr := arr\<rparr> in
      obind (get_root_files e (map entry_of (junk_entries e)) s) (\<lambda>(file_list, s).
      obind (Some (stoupper name)) (\<lambda>name.
      obind (get_file e file_list name (entry_of (junk_entries e ! 0)) s) (\<lambda>(found, currfile).
      if found = -1 then ret (1, pid, segment, name, s)
      else obind (load_file_content e currfile segment 0 s) (\<lambda>s.
           obind (Some (register_proc name segment segment segment 0 pid (get_running_proc s)
                          (file_size currfile) s)) (\<lambda>(_, pid, s).
           ret (0, pid, segment, name, s)))))))"

text \<open>
  \<open>run_program\<close> up to the call of the program, and after it.  \<open>place\<close> puts the upper-cased name back
  where the caller keeps it.
\<close>

definition run_enter ::
    "env \<Rightarrow> byte list \<Rightarrow> (byte list \<Rightarrow> kstate \<Rightarrow> kstate) \<Rightarrow> kstate \<Rightarrow> (int \<times> int \<times> u32 \<times> kstate) run" where
  "run_enter e name place s =
     obind (load e name (junk_pid e) s) (\<lambda>(retcode, pid, segment, name, s).
     let s = place name s in
     if retcode = 0
     then obind (Some (set_running_proc pid s)) (\<lambda>s.
          obind (Some (open_fd (cstr ''/dev/stdin'') 0 pid s)) (\<lambda>(_, s).
          obind (Some (open_fd (cstr ''/dev/stdout'') 0 pid s)) (\<lambda>(_, s).
          ret (retcode, pid, segment, s))))
     else ret (retcode, pid, segment, s))"

definition run_exit :: "int \<Rightarrow> int \<Rightarrow> u32 \<Rightarrow> kstate \<Rightarrow> (int \<times> kstate) res" where
  "run_exit retcode pid segment s =
     rbind (if retcode = 0 then unregister_proc pid s else Inr (0, s)) (\<lambda>(_, s).
     Inr (retcode, s\<lparr>seg_arr := snd (release_seg segment (seg_arr s))\<rparr>))"

definition run_program ::
    "(u32 \<Rightarrow> kstate \<Rightarrow> kstate run) \<Rightarrow> env \<Rightarrow> byte list \<Rightarrow> (byte list \<Rightarrow> kstate \<Rightarrow> kstate) \<Rightarrow> kstate \<Rightarrow>
     (int \<times> kstate) run" where
  "run_program farcall e name place s =
     obind (run_enter e name place s) (\<lambda>(retcode, pid, segment, s).
     obind (if retcode = 0 then farcall segment s else ret s) (\<lambda>s.
     Some (run_exit retcode pid segment s)))"

section \<open>System calls\<close>

text \<open>Fields of the parameter block: \<open>data\<close> is its first 512 bytes; \<open>size\<close>, \<open>fd\<close> and \<open>offset\<close> follow.\<close>

definition md_size :: "kstate \<Rightarrow> u32" where
  "md_size s = le32 (take 4 (drop 512 (params s)))"

definition md_fd :: "kstate \<Rightarrow> int" where
  "md_fd s = sint (le32 (take 4 (drop 516 (params s))))"

definition md_offset :: "kstate \<Rightarrow> u32" where
  "md_offset s = le32 (take 4 (drop 520 (params s)))"

definition put_params :: "nat \<Rightarrow> byte list \<Rightarrow> kstate \<Rightarrow> kstate res" where
  "put_params off b s = rbind (store (params s) off b) (\<lambda>b. Inr (s\<lparr>params := b\<rparr>))"

definition no_value :: "('a \<times> kstate) res \<Rightarrow> kstate run" where
  "no_value m = Some (rbind m (\<lambda>r. Inr (snd r)))"

text \<open>A read into \<open>data\<close>: the parameter block is the caller's buffer.\<close>

definition read_params :: "env \<Rightarrow> int \<Rightarrow> u32 \<Rightarrow> int \<Rightarrow> kstate \<Rightarrow> kstate run" where
  "read_params e fd count pid s =
     obind (read_fd e fd (params s) count pid s) (\<lambda>r. ret ((snd (snd r))\<lparr>params := fst (snd r)\<rparr>))"

definition list_params :: "env \<Rightarrow> kstate \<Rightarrow> kstate run" where
  "list_params e s =
     obind (Some (open_fd (cstr ''/'') 0 0 s)) (\<lambda>(fd, s).
     obind (Some (lseek fd 0 0 0 s)) (\<lambda>(_, s).
     obind (list_root_files e 512 (params s) s) (\<lambda>(files_read, b, s).
     Some (put_params 512 (bytes32 (of_nat files_read)) (s\<lparr>params := b\<rparr>)))))"

text \<open>Every service but the one that runs a program.\<close>

definition service_call :: "env \<Rightarrow> int \<Rightarrow> kstate \<Rightarrow> kstate run" where
  "service_call e service s =
     (let curr_pid = get_running_proc s in
      if service = 0 then no_value (write_fd 1 (lit ''system call!'' @ crlf) 14 0 s)
      else if service = 1 then ret (halt s)
      else if service = 2 then ret (reboot s)
      else if service = 3 then ret s
      else if service = 4
      then Some (rbind (strlen (params s)) (\<lambda>n. rbind (write_fd 1 (params s) (of_nat n) 0 s) (\<lambda>r. Inr (snd r))))
      else if service = 5 then no_value (write_fd 1 (params s) 1 0 s)
      else if service = 6 then read_params e 0 1 0 s
      else if service = 8 then Some (get_process_list s)
      else if service = 9 then list_params e s
      else if service = 10
      then Some (rbind (open_fd (params s) 0 curr_pid s) (\<lambda>(fd, s). put_params 516 (bytes32 (word_of_int fd)) s))
      else if service = 11 then no_value (close_fd (md_fd s) curr_pid s)
      else if service = 12 then no_value (lseek (md_fd s) (md_offset s) 0 curr_pid s)
      else if service = 13 then read_params e (md_fd s) (md_size s) curr_pid s
      else if service = 14 then no_value (write_fd (md_fd s) (params s) (md_size s) curr_pid s)
      else if service = 15 then Some (time e s)
      else ret s)"

definition place_params :: "byte list \<Rightarrow> kstate \<Rightarrow> kstate" where
  "place_params name s = s\<lparr>params := name\<rparr>"

definition dispatch :: "(u32 \<Rightarrow> kstate \<Rightarrow> kstate run) \<Rightarrow> env \<Rightarrow> int \<Rightarrow> kstate \<Rightarrow> kstate run" where
  "dispatch farcall e service s =
     (if service = 7
      then let curr_pid = get_running_proc s in
           obind (run_program farcall e (params s) place_params s) (\<lambda>(retcode, s).
           obind (Some (put_params 0 (bytes32 (word_of_int retcode)) s)) (\<lambda>s.
           Some (set_running_proc curr_pid s)))
      else service_call e service s)"

section \<open>Start-up\<close>

definition place_init :: "byte list \<Rightarrow> kstate \<Rightarrow> kstate" where
  "place_init name s = s\<lparr>init_name := name\<rparr>"

definition startk_init :: "env \<Rightarrow> kstate \<Rightarrow> kstate run" where
  "startk_init e s =
     obind (Some (open_fd (cstr ''/dev/stdout'') 0 0 s)) (\<lambda>(_, s).
     obind (Some (printk (lit ''starting kernel...'' @ crlf) s)) (\<lambda>s.
     let s = s\<lparr>seg_arr := init_seg (seg_arr s)\<rparr>; s = set_ivt s in
     obind (mount e (cstr ''/dev/fdb'') s) (\<lambda>s.
     obind (Some (open_fd (cstr ''/dev/stdin'') 0 0 s)) (\<lambda>(_, s). ret (sti s)))))"

text \<open>The body of the loop, the loop, and its first \<open>n\<close> turns: the loop itself has no exit, so what it does is what its turns do.\<close>

definition startk_turn :: "(u32 \<Rightarrow> kstate \<Rightarrow> kstate run) \<Rightarrow> env \<Rightarrow> kstate \<Rightarrow> kstate run" where
  "startk_turn farcall e s =
     obind (run_program farcall e (init_name s) place_init (init_processes s)) (\<lambda>(retcode, s). ret s)"

partial_function (option) startk_loop :: "(u32 \<Rightarrow> kstate \<Rightarrow> kstate run) \<Rightarrow> env \<Rightarrow> kstate \<Rightarrow> kstate run" where
  "startk_loop farcall e s = obind (startk_turn farcall e s) (\<lambda>s. startk_loop farcall e s)"

fun startk_turns :: "(u32 \<Rightarrow> kstate \<Rightarrow> kstate run) \<Rightarrow> env \<Rightarrow> nat \<Rightarrow> kstate \<Rightarrow> kstate run" where
  "startk_turns farcall e 0 s = ret s"
| "startk_turns farcall e (Suc n) s = obind (startk_turn farcall e s) (\<lambda>s. startk_turns farcall e n s)"

definition startk :: "(u32 \<Rightarrow> kstate \<Rightarrow> kstate run) \<Rightarrow> env \<Rightarrow> kstate \<Rightarrow> kstate run" where
  "startk farcall e s = obind (startk_init e s) (\<lambda>s. startk_loop farcall e s)"

lemma startk_loop_turns: "startk_loop farcall e s = obind (startk_turns farcall e n s) (\<lambda>s. startk_loop farcall e s)"
proof (induction n arbitrary: s)
  case (Suc n)
  have "startk_loop farcall e s = obind (startk_turn farcall e s) (\<lambda>s. startk_loop farcall e s)"
    by (rule startk_loop.simps)
  also have "\<dots> = obind (startk_turn farcall e s)
      (\<lambda>s. obind (startk_turns farcall e n s) (\<lambda>s. startk_loop farcall e s))"
    by (subst (1) Suc.IH) (rule refl)
  finally show ?case by (simp add: obind_assoc)
qed simp

lemma startk_from_turns:
  "startk_init e s0 = ret s \<Longrightarrow> startk farcall e s0 = obind (startk_turns farcall e n s) (\<lambda>s. startk_loop farcall e s)"
  unfolding startk_def by (simp add: startk_loop_turns [symmetric])

end
