(* ===== verification/Kernel_Frame.thy ===== *)
theory Kernel_Frame
  imports Kernel
begin

text \<open>
  The invariant of the kernel's variables and the frame of its operations: what printing, the file
  layer, the volume and the directory functions leave unchanged, whatever they return, on any
  disk and any keyboard; the memory changes inside the set \<open>A\<close> of addresses only.  \<open>kept A s0 s\<close> is carried through an operation by the rules collected in
  \<open>kept_rules\<close>, one per operation.
\<close>

section \<open>The invariant and the frame\<close>

text \<open>The sizes of the kernel's arrays: paths of 32 bytes, a sector.\<close>

definition files_wf :: "kstate \<Rightarrow> bool" where
  "files_wf s \<longleftrightarrow> list_all fdesc_wf (fd_list s) \<and> fdesc_wf (fd_after s) \<and> length (bs s) = 512"

lemma files_wf_free [simp]:
  "files_wf (s\<lparr>console := c\<rparr>) = files_wf s" "files_wf (s\<lparr>kbd := k\<rparr>) = files_wf s" "files_wf (s\<lparr>ram := m\<rparr>) = files_wf s"
  "files_wf (s\<lparr>drv := d\<rparr>) = files_wf s" "files_wf (s\<lparr>init_name := n\<rparr>) = files_wf s" "files_wf (s\<lparr>old_int8 := v\<rparr>) = files_wf s"
  "files_wf (s\<lparr>params := b\<rparr>) = files_wf s" "files_wf (s\<lparr>uitoa_buf := u\<rparr>) = files_wf s" "files_wf (s\<lparr>seg_arr := g\<rparr>) = files_wf s"
  "files_wf (s\<lparr>s_pos := q\<rparr>) = files_wf s" "files_wf (s\<lparr>processes := ps\<rparr>) = files_wf s" "files_wf (s\<lparr>running_proc := r\<rparr>) = files_wf s"
  by (simp_all add: files_wf_def)

lemma files_wf_shown [simp]: "files_wf (shown t s) = files_wf s"
  by (simp add: shown_def)

definition kinv :: "kstate \<Rightarrow> bool" where
  "kinv s \<longleftrightarrow> procs_wf s \<and> fds_ready s \<and> files_wf s \<and> segs_wf (seg_arr s) \<and> num_ok (uitoa_buf s) \<and> length (params s) = 576
     \<and> fd_pfd_offset (fd_after s) = root_directory_start (s_pos s)"

text \<open>A descriptor without its file table.\<close>

definition own_fields :: "proc \<Rightarrow> proc" where
  "own_fields p = p\<lparr>files_table := []\<rparr>"

definition kept :: "nat set \<Rightarrow> kstate \<Rightarrow> kstate \<Rightarrow> bool" where
  "kept A s0 s \<longleftrightarrow> kinv s \<and> procs_busy s = procs_busy s0 \<and> running_proc s = running_proc s0
     \<and> (\<forall>i\<in>procs_busy s0. own_fields (processes s ! i) = own_fields (processes s0 ! i))
     \<and> seg_arr s = seg_arr s0 \<and> bs s = bs s0 \<and> s_pos s = s_pos s0 \<and> init_name s = init_name s0
     \<and> (\<forall>a. a \<notin> A \<longrightarrow> ram s a = ram s0 a)"

text \<open>The addresses a far pointer into a segment reaches.\<close>

definition seg_area :: "u32 \<Rightarrow> nat set" where
  "seg_area segment = {unat (ucast segment :: u16) * 16..<unat (ucast segment :: u16) * 16 + 65536}"

text \<open>Who may call: the kernel, or a process whose next slot in the table is free (the descriptor behind
  its own is what index 5 of its file table overlays).\<close>

definition caller_ok :: "kstate \<Rightarrow> int \<Rightarrow> bool" where
  "caller_ok s pid \<longleftrightarrow> pid = 0 \<or> (1 \<le> pid \<and> pid \<le> 9 \<and> nat pid \<notin> procs_busy s)"

named_theorems kept_rules "operations that keep the kernel's frame"

lemma kept_refl: "kinv s \<Longrightarrow> kept A s s"
  by (simp add: kept_def)

lemma kept_trans: "kept A a b \<Longrightarrow> kept A b c \<Longrightarrow> kept A a c"
  by (simp add: kept_def)

lemma keptD: "kept A s0 s \<Longrightarrow> kinv s"
  by (simp add: kept_def)

lemma kept_ram: "kept A s0 s \<Longrightarrow> a \<notin> A \<Longrightarrow> ram s a = ram s0 a"
  by (simp add: kept_def)

lemma caller_ok_kept: "kept A s0 s \<Longrightarrow> caller_ok s pid = caller_ok s0 pid"
  by (simp add: kept_def caller_ok_def)

text \<open>Fields outside the invariant.\<close>

lemma kept_free [simp]:
  "kept A s0 (s\<lparr>console := c\<rparr>) = kept A s0 s" "kept A s0 (s\<lparr>kbd := k\<rparr>) = kept A s0 s"
  "kept A s0 (s\<lparr>drv := d\<rparr>) = kept A s0 s" "kept A s0 (s\<lparr>old_int8 := v\<rparr>) = kept A s0 s"
  by (simp_all add: kept_def kinv_def fds_ready_def procs_wf_def procs_busy_def)

lemma kept_params: "kept A s0 s \<Longrightarrow> length b = 576 \<Longrightarrow> kept A s0 (s\<lparr>params := b\<rparr>)"
  by (auto simp add: kept_def kinv_def fds_ready_def procs_wf_def procs_busy_def)

lemma kept_buf: "kept A s0 s \<Longrightarrow> num_ok b \<Longrightarrow> kept A s0 (s\<lparr>uitoa_buf := b\<rparr>)"
  by (auto simp add: kept_def kinv_def fds_ready_def procs_wf_def procs_busy_def)

section \<open>Output\<close>

lemma write_loop_kept: "kept A s0 s \<Longrightarrow> delivers (kept A s0) (write_loop buf i n s)"
proof (induction n arbitrary: i s)
  case (Suc n)
  then have "delivers (kept A s0) (write_loop buf (Suc i) n (b_putchar c s))" for c
    by (intro Suc.IH) (simp add: b_putchar_def emit_def)
  then show ?case
    by (simp add: load_byte_def)
qed simp

lemma write_fd_kept [kept_rules]: "kept A s0 s \<Longrightarrow> delivers (\<lambda>r. kept A s0 (snd r)) (write_fd fd buf n pid s)"
  unfolding write_fd_def by (auto intro!: delivers_rbind [OF write_loop_kept])

lemma printk_kept [kept_rules]: "kept A s0 s \<Longrightarrow> delivers (kept A s0) (printk t s)"
  unfolding printk_def
  by (intro delivers_rbind [where Q = "\<lambda>_. True"] delivers_rbind [OF write_fd_kept])
     (auto simp: delivers_def)

lemma uitoa_num_ok: "num_ok b \<Longrightarrow> delivers (\<lambda>r. num_ok (fst r)) (uitoa b i)"
  by (auto simp: uitoa_def num_ok_def digits_loop_eq nth_append)

lemma print_num_kept [kept_rules]: "kept A s0 s \<Longrightarrow> delivers (kept A s0) (print_num i s)"
proof -
  assume s: "kept A s0 s"
  then have "num_ok (uitoa_buf s)" by (simp add: kept_def kinv_def)
  then have "delivers (\<lambda>r. kept A s0 (snd r)) (kuitoa i s)"
    unfolding kuitoa_def using s by (intro delivers_rbind [OF uitoa_num_ok]) (auto intro: kept_buf)
  then show ?thesis
    unfolding print_num_def by (rule delivers_rbind) (auto intro: printk_kept)
qed

lemma print_str_kept [kept_rules]: "kept A s0 s \<Longrightarrow> delivers (kept A s0) (print_str t s)"
  unfolding print_str_def by (rule printk_kept)

lemma print_proc_kept: "kept A s0 s \<Longrightarrow> delivers (kept A s0) (print_proc p s)"
  unfolding print_proc_def
  by (intro delivers_rbind [OF print_str_kept] delivers_rbind [OF print_num_kept] delivers_rbind [OF printk_kept]
      printk_kept) assumption+

lemma process_list_loop_kept: "kept A s0 s \<Longrightarrow> delivers (kept A s0) (process_list_loop i n s)"
  by (induction n arbitrary: i s) (auto intro!: delivers_rbind [where Q = "kept A s0"] print_proc_kept)

lemma get_process_list_kept [kept_rules]: "kept A s0 s \<Longrightarrow> delivers (kept A s0) (get_process_list s)"
  unfolding get_process_list_def by (intro delivers_rbind [OF printk_kept] process_list_loop_kept) assumption+

lemma time_kept [kept_rules]: "kept A s0 s \<Longrightarrow> delivers (kept A s0) (time e s)"
  unfolding time_def
  by (auto split: prod.splits intro!: delivers_rbind [OF print_str_kept] delivers_rbind [OF print_num_kept] printk_kept)

section \<open>File tables\<close>

text \<open>Updates of a descriptor that the operations make: they keep the length of the path, its four first
  bytes when those are zero, and, in the kernel's table, a ready chain of parents.\<close>

definition path_ok :: "(fdesc \<Rightarrow> fdesc) \<Rightarrow> bool" where
  "path_ok f \<longleftrightarrow> (\<forall>d. length (fd_pathname (f d)) = length (fd_pathname d)
     \<and> (take 4 (fd_pathname d) = [0, 0, 0, 0] \<longrightarrow> take 4 (fd_pathname (f d)) = [0, 0, 0, 0]))"

definition parent_ok :: "u32 \<Rightarrow> int \<Rightarrow> (fdesc \<Rightarrow> fdesc) \<Rightarrow> bool" where
  "parent_ok p fd f \<longleftrightarrow> (\<forall>d. (fd \<noteq> 5 \<longrightarrow> fd_pfd (f d) \<in> {fd_pfd d, -1})
     \<and> (fd = 5 \<longrightarrow> (fd_pfd (f d), fd_pfd_offset (f d)) \<in> {(fd_pfd d, fd_pfd_offset d), (4, p)}))"

lemma parent_okD:
  assumes "parent_ok p fd f"
  shows "fd \<noteq> 5 \<Longrightarrow> fd_pfd d = -1 \<Longrightarrow> fd_pfd (f d) = -1"
    and "fd \<noteq> 5 \<Longrightarrow> fd_pfd d \<in> {-1, 0} \<Longrightarrow> fd_pfd (f d) \<in> {-1, 0}"
    and "fd = 5 \<Longrightarrow> fd_pfd d = 4 \<Longrightarrow> fd_pfd (f d) = 4"
    and "fd = 5 \<Longrightarrow> fd_pfd_offset d = p \<Longrightarrow> fd_pfd_offset (f d) = p"
proof -
  have d: "fd \<noteq> 5 \<longrightarrow> fd_pfd (f d) \<in> {fd_pfd d, -1}"
    "fd = 5 \<longrightarrow> (fd_pfd (f d), fd_pfd_offset (f d)) \<in> {(fd_pfd d, fd_pfd_offset d), (4, p)}"
    using assms unfolding parent_ok_def by blast+
  show "fd \<noteq> 5 \<Longrightarrow> fd_pfd d = -1 \<Longrightarrow> fd_pfd (f d) = -1"
    and "fd \<noteq> 5 \<Longrightarrow> fd_pfd d \<in> {-1, 0} \<Longrightarrow> fd_pfd (f d) \<in> {-1, 0}"
    using d(1) by auto
  show "fd = 5 \<Longrightarrow> fd_pfd d = 4 \<Longrightarrow> fd_pfd (f d) = 4"
    and "fd = 5 \<Longrightarrow> fd_pfd_offset d = p \<Longrightarrow> fd_pfd_offset (f d) = p"
    using d(2) by auto
qed

lemma fds_ready_upd:
  assumes "fds_ready s" "parent_ok p fd f" "0 \<le> fd" "fd < 5"
  shows "fds_ready (s\<lparr>fd_list := (fd_list s)[nat fd := f (fd_list s ! nat fd)]\<rparr>)"
proof -
  consider "fd = 0" | "fd = 1" | "fd = 2" | "fd = 3" | "fd = 4" using assms(3,4) by linarith
  then show ?thesis
    using assms(1) parent_okD(1,2) [OF assms(2), of "fd_list s ! nat fd"]
    by cases (simp_all add: fds_ready_def)
qed

lemma list_all_update: "list_all P xs \<Longrightarrow> P x \<Longrightarrow> list_all P (xs[i := x])"
  using set_update_subset_insert [of xs i x] by (auto simp: list_all_iff)

lemma fdesc_wf_upd: "path_ok f \<Longrightarrow> fdesc_wf d \<Longrightarrow> fdesc_wf (f d)"
  by (simp add: path_ok_def fdesc_wf_def)

lemma files_wf_upd:
  assumes "files_wf s" "path_ok f"
  shows "i < length (fd_list s) \<Longrightarrow> files_wf (s\<lparr>fd_list := (fd_list s)[i := f (fd_list s ! i)]\<rparr>)"
    and "files_wf (s\<lparr>fd_after := f (fd_after s)\<rparr>)"
  using assms fdesc_wf_upd by (auto simp: files_wf_def list_all_length nth_list_update)

lemma kfd_upd_kept:
  assumes s: "kept A s0 s" and p: "path_ok f" and f: "parent_ok (root_directory_start (s_pos s)) fd f"
  shows "delivers (kept A s0) (kfd_upd fd f s)"
proof -
  have ready: "fds_ready s" and root: "fd_pfd_offset (fd_after s) = root_directory_start (s_pos s)"
    using s by (simp_all add: kept_def kinv_def)
  have "fds_ready (s\<lparr>fd_after := f (fd_after s)\<rparr>)" "fd_pfd_offset (f (fd_after s)) = root_directory_start (s_pos s)" if "fd = 5"
    using ready root parent_okD(3,4) [OF f that] by (simp_all add: fds_ready_def)
  moreover have "files_wf s" "length (fd_list s) = 5" using s ready by (simp_all add: kept_def kinv_def fds_ready_def)
  ultimately show ?thesis
    using s fds_ready_upd [OF ready f] files_wf_upd [OF _ p, of s] unfolding kfd_upd_def
    by (auto simp: kept_def kinv_def procs_wf_def procs_busy_def)
qed

lemma kept_procs:
  assumes "kept A s0 s" "i < NUM_PROCESSES" "proc_wf i p" "p_pid p = 0 \<longleftrightarrow> p_pid (processes s ! i) = 0"
    and own: "i \<in> procs_busy s0 \<Longrightarrow> own_fields p = own_fields (processes s ! i)"
  shows "kept A s0 (s\<lparr>processes := (processes s)[i := p]\<rparr>)"
proof -
  have wf: "procs_wf s" using assms(1) by (simp add: kept_def kinv_def)
  have "procs_busy (s\<lparr>processes := (processes s)[i := p]\<rparr>) = procs_busy s"
    using procs_busy_upd [OF wf assms(2)] assms(2,4) by (auto simp: procs_busy_def)
  moreover have "procs_wf (s\<lparr>processes := (processes s)[i := p]\<rparr>)"
    using wf assms(3) by (intro procs_wf_upd)
  moreover have "own_fields ((processes s)[i := p] ! k) = own_fields (processes s0 ! k)" if "k \<in> procs_busy s0" for k
    using assms(1,2) own that procs_wfD(1) [OF wf assms(2)] by (cases "k = i") (simp_all add: kept_def)
  ultimately show ?thesis
    using assms(1) by (auto simp add: kept_def kinv_def fds_ready_def)
qed

lemma ftab_upd_kept:
  assumes s: "kept A s0 s" and pid: "1 \<le> pid" "pid \<le> 9" "nat pid \<notin> procs_busy s0" and f: "path_ok f"
  shows "delivers (kept A s0) (ftab_upd pid fd f s)"
proof -
  have wf: "procs_wf s" and busy: "procs_busy s = procs_busy s0" using s by (simp_all add: kept_def kinv_def)
  let ?i = "nat (pid - 1)" and ?j = "nat pid"
  have own: "kept A s0 (s\<lparr>processes := (processes s)[?i := (processes s ! ?i)
      \<lparr>files_table := (files_table (processes s ! ?i))[nat fd := f (files_table (processes s ! ?i) ! nat fd)]\<rparr>]\<rparr>)"
    if fd: "0 \<le> fd" "fd < 5"
  proof (rule kept_procs [OF s])
    show i: "?i < NUM_PROCESSES" using pid by (simp add: NUM_PROCESSES_def)
    then have p: "proc_wf ?i (processes s ! ?i)" by (rule procs_wfD(2) [OF wf])
    then have ft: "length (files_table (processes s ! ?i)) = 5" "list_all fdesc_wf (files_table (processes s ! ?i))"
      by (simp_all add: proc_wf_def NUM_FILES_def)
    then have "fdesc_wf (files_table (processes s ! ?i) ! nat fd)"
      using fd by (simp add: list_all_length)
    then have "list_all fdesc_wf ((files_table (processes s ! ?i))[nat fd := f (files_table (processes s ! ?i) ! nat fd)])"
      using ft(2) by (intro list_all_update fdesc_wf_upd [OF f])
    with p ft show "proc_wf ?i ((processes s ! ?i)
        \<lparr>files_table := (files_table (processes s ! ?i))[nat fd := f (files_table (processes s ! ?i) ! nat fd)]\<rparr>)"
      by (simp add: proc_wf_def NUM_FILES_def)
  qed (simp_all add: own_fields_def)
  have over: "kept A s0 (s\<lparr>processes := (processes s)[?j := of_fd (f (as_fd (processes s ! ?j))) (processes s ! ?j)]\<rparr>)"
    if j: "?j < NUM_PROCESSES"
  proof (rule kept_procs [OF s j])
    let ?p = "processes s ! ?j"
    have p: "proc_wf ?j ?p" using j by (rule procs_wfD(2) [OF wf])
    have z: "p_pid ?p = 0" using pid(3) j busy by (auto simp: procs_busy_def)
    then have "take 4 (fd_pathname (as_fd ?p)) = [0, 0, 0, 0]" "length (fd_pathname (as_fd ?p)) = 32"
      using p by (simp_all add: as_fd_def bytes32_def proc_wf_def)
    then have q: "take 4 (fd_pathname (f (as_fd ?p))) = [0, 0, 0, 0]" "length (fd_pathname (f (as_fd ?p))) = 32"
      using f by (simp_all add: path_ok_def)
    then have "p_pid (of_fd (f (as_fd ?p)) ?p) = 0" by (simp add: of_fd_def le32_def)
    with z p q show "proc_wf ?j (of_fd (f (as_fd ?p)) ?p)" "p_pid (of_fd (f (as_fd ?p)) ?p) = 0 \<longleftrightarrow> p_pid ?p = 0"
      by (auto simp: proc_wf_def of_fd_def)
  qed (use pid(3) in simp)
  show ?thesis
    using own over pid unfolding ftab_upd_def upd_proc_def NUM_FILES_def by auto
qed

lemma cfd_upd_kept:
  "kept A s0 s \<Longrightarrow> caller_ok s0 pid \<Longrightarrow> path_ok f \<Longrightarrow> (pid = 0 \<Longrightarrow> parent_ok (root_directory_start (s_pos s)) fd f) \<Longrightarrow>
   delivers (kept A s0) (cfd_upd pid fd f s)"
  unfolding cfd_upd_def caller_ok_def using kfd_upd_kept ftab_upd_kept by auto

lemma lseek_kept [kept_rules]:
  "kept A s0 s \<Longrightarrow> caller_ok s0 pid \<Longrightarrow> delivers (\<lambda>r. kept A s0 (snd r)) (lseek fd off w pid s)"
  unfolding lseek_def by (rule delivers_rbind [OF cfd_upd_kept]) (auto simp: path_ok_def parent_ok_def)

lemma path_ok_close:
  "path_ok (\<lambda>d. d\<lparr>fd_pathname := (fd_pathname d)[0 := 0], fd_pfd := 0, fd_pfd_offset := 0, fd_pos := 0, fd_size := 0\<rparr>)"
proof -
  have "take 4 (b[0 := 0]) = [0, 0, 0, 0]" if "take 4 b = [0, 0, 0, 0 :: byte]" for b
    using that by (cases b) simp_all
  then show ?thesis by (simp add: path_ok_def)
qed

text \<open>A process may close; the kernel never does.\<close>

lemma close_fd_kept [kept_rules]:
  "kept A s0 s \<Longrightarrow> caller_ok s0 pid \<Longrightarrow> pid \<noteq> 0 \<Longrightarrow> delivers (\<lambda>r. kept A s0 (snd r)) (close_fd fd pid s)"
  unfolding close_fd_def by (rule delivers_rbind [OF cfd_upd_kept]) (auto simp: path_ok_close)

lemma open_fd_kept [kept_rules]:
  assumes s: "kept A s0 s" and pid: "caller_ok s0 pid"
  shows "delivers (\<lambda>r. kept A s0 (snd r)) (open_fd path flags pid s)"
proof -
  have set_up: "delivers (\<lambda>r. kept A s0 (snd r)) (rbind (cfd_upd pid fd f s) (\<lambda>s. Inr (fd, s)))"
    if "path_ok f" "parent_ok (root_directory_start (s_pos s)) fd f" for fd f
    using s pid that by (intro delivers_rbind [OF cfd_upd_kept]) auto
  have ok: "path_ok device_fd" "path_ok stream_fd" "path_ok (root_fd s)" "parent_ok p 3 device_fd" "parent_ok p 0 stream_fd"
    "parent_ok p 1 stream_fd" "parent_ok p 4 device_fd" "parent_ok (root_directory_start (s_pos s)) 5 (root_fd s)" for p
    by (simp_all add: path_ok_def parent_ok_def device_fd_def stream_fd_def root_fd_def get_root_offset_def)
  have "delivers (\<lambda>_. True) (strcmp a b)" for a b by (simp add: delivers_def)
  then show ?thesis
    unfolding open_fd_def Let_def using ok s
    by (intro delivers_rbind [of "\<lambda>_. True"] delivers_if set_up) (simp_all add: delivers_def)
qed

section \<open>Buffers keep their length\<close>

lemma store_byte_length: "delivers (\<lambda>d. length d = length b) (store_byte b i v)"
  by (simp add: store_byte_def)

lemma store_length': "delivers (\<lambda>d. length d = length b) (store b off xs)"
  by (auto simp: store_def)

lemma delivers_bind: "(\<And>x. m = Inr x \<Longrightarrow> delivers R (f x)) \<Longrightarrow> delivers R (rbind m f)"
  by (cases m) simp_all

lemma memcpy_loop_length: "length dst = m \<Longrightarrow> delivers (\<lambda>d. length d = m) (memcpy_loop dst src n i)"
proof (induction dst src n i rule: memcpy_loop.induct)
  case (1 dst src n i)
  show ?case
    by (subst memcpy_loop.simps) (auto simp: 1(2) dest!: store_byte_InrD load_byte_InrD intro!: delivers_bind 1(1))
qed

lemma strcpy_loop_length: "length dst = m \<Longrightarrow> delivers (\<lambda>d. length d = m) (strcpy_loop dst src i)"
proof (induction dst src i rule: strcpy_loop.induct)
  case (1 dst src i)
  show ?case
    by (subst strcpy_loop.simps) (auto simp: 1(2) dest!: store_byte_InrD load_byte_InrD intro!: delivers_bind 1(1))
qed

lemma smap_loop_length: "length b = m \<Longrightarrow> delivers (\<lambda>d. length d = m) (smap_loop f b i)"
proof (induction f b i rule: smap_loop.induct)
  case (1 f b i)
  show ?case
    by (subst smap_loop.simps) (auto simp: 1(2) dest!: store_byte_InrD load_byte_InrD intro!: delivers_bind 1(1))
qed

lemma strcpy_length: "delivers (\<lambda>d. length d = length dst) (strcpy dst src)"
  by (simp add: strcpy_def strcpy_loop_length)

lemma stoupper_length: "delivers (\<lambda>d. length d = length b) (stoupper b)"
  by (simp add: stoupper_def smap_loop_length)

lemma memcpy_at_length: "delivers (\<lambda>d. length d = length buf) (memcpy_at buf at src n)"
  unfolding memcpy_at_def memcpy_def by (rule delivers_rbind [OF memcpy_loop_length [OF refl]]) simp

lemma strcpy_at_length: "delivers (\<lambda>d. length d = length buf) (strcpy_at buf at src)"
  unfolding strcpy_at_def by (rule delivers_rbind [OF strcpy_length]) simp

lemma put_entry_length: "delivers (\<lambda>d. length d = length buf) (put_entry buf k f name x)"
proof -
  have bytes: "delivers (\<lambda>d. length d = length buf) (store_byte b i v)" if "length b = length buf" for b i v
    using store_byte_length [of b] that by simp
  have words: "delivers (\<lambda>d. length d = length buf) (store b i v)" if "length b = length buf" for b i v
    using store_length' [of b] that by simp
  have names: "delivers (\<lambda>d. length d = length buf) (strcpy_at b i v)" if "length b = length buf" for b i v
    using strcpy_at_length [of b] that by simp
  show ?thesis
    unfolding put_entry_def Let_def
    by (rule delivers_rbind, rule bytes words names, (assumption | rule refl))+ (rule names)
qed

section \<open>Reading\<close>

lemma halt_kept: "kept A s0 s \<Longrightarrow> kept A s0 (halt s)"
  by (simp add: halt_def emit_def)

lemma read_loop_kept:
  "kept A s0 s \<Longrightarrow> delivers (\<lambda>r. kept A s0 (snd r) \<and> length (fst r) = length buf)
     (read_loop e drive c h sec k nb buf at off s)"
proof (induction k arbitrary: c h sec nb buf at off s)
  case (Suc k)
  have report: "delivers (kept A s0) (if status \<noteq> 0 then rbind (printk read_error_msg s) (\<lambda>s. Inr (halt s)) else Inr s)"
    for status :: int
    using Suc.prems by (auto intro!: delivers_rbind [OF printk_kept] halt_kept)
  have rest: "delivers (\<lambda>r. kept A s0 (snd r) \<and> length (fst r) = length buf)
      (rbind (memcpy_at buf at src n) (\<lambda>b. read_loop e drive c h sec k nb b at' off s'))"
    if "kept A s0 s'" for src n c h sec nb at' off s'
    using Suc.IH [OF that] by (rule_tac delivers_rbind [OF memcpy_at_length]) (metis (mono_tags, lifting) delivers_mono)
  show ?case
    unfolding read_loop.simps Let_def case_prod_beta
    by (rule delivers_rbind [OF report]) (rule rest)
qed simp

lemma read_floppy_kept:
  "kept A s0 s \<Longrightarrow> delivers (\<lambda>r. kept A s0 (snd r) \<and> length (fst r) = length buf) (read_floppy e fd pos buf count s)"
  unfolding read_floppy_def by (auto intro!: delivers_bind read_loop_kept)

lemma kbd_loop_kept:
  "kept A s0 s \<Longrightarrow> yields (\<lambda>r. kept A s0 (snd r) \<and> length (fst r) = length buf) (kbd_loop buf i n s)"
proof (induction n arbitrary: buf i s)
  case (Suc n)
  have "yields (\<lambda>r. kept A s0 (snd r) \<and> length (fst r) = length buf) (kbd_loop (buf[i := c]) (Suc i) n (s\<lparr>kbd := ks\<rparr>))"
    for c ks
    using Suc.IH [of "s\<lparr>kbd := ks\<rparr>" "buf[i := c]"] Suc.prems by simp
  then show ?case
    by (auto simp: b_getchar_sync_def store_byte_def split: list.split)
qed simp

text \<open>What a read promises: the frame, and a buffer of the same length.\<close>

abbreviation read_kept :: "nat set \<Rightarrow> kstate \<Rightarrow> byte list \<Rightarrow> 'a \<times> byte list \<times> kstate \<Rightarrow> bool" where
  "read_kept A s0 buf r \<equiv> kept A s0 (snd (snd r)) \<and> length (fst (snd r)) = length buf"

lemma read_device_kept: "kept A s0 s \<Longrightarrow> yields (read_kept A s0 buf) (read_device e fd d buf count s)"
  unfolding read_device_def
  by (auto intro!: yields_obind [OF kbd_loop_kept] yields_obind [where Q = "\<lambda>r. kept A s0 (snd r) \<and> length (fst r) = length buf"]
      simp: read_floppy_kept kbd_loop_kept)

lemma read_done_kept: "kept A s0 s \<Longrightarrow> yields (read_kept A s0 b) (read_done fd n b s)"
  unfolding read_done_def by (auto intro!: delivers_rbind [OF kfd_upd_kept] simp: parent_ok_def path_ok_def)

lemma read_done_kept': "read_kept A s0 buf r \<Longrightarrow> yields (read_kept A s0 buf) (read_done fd (fst r) (fst (snd r)) (snd (snd r)))"
  using read_done_kept [of A s0 "snd (snd r)" "fst (snd r)" fd "fst r"] by simp

lemma read_fd_leaf_kept:
  "kept A s0 s \<Longrightarrow> kfd_get fd s = Inr d \<Longrightarrow> fd_pfd d = -1 \<Longrightarrow> yields (read_kept A s0 buf) (read_fd e fd buf count pid s)"
  by (subst read_fd.simps) (auto intro!: yields_obind [OF read_device_kept] read_done_kept')

lemma read_fd_kept [kept_rules]:
  assumes s: "kept A s0 s" and pid: "caller_ok s0 pid"
  shows "yields (read_kept A s0 buf) (read_fd e fd buf count pid s)"
proof (cases "kfd_get fd s")
  case (Inl f)
  then show ?thesis by (subst read_fd.simps) simp
next
  case (Inr d)
  show ?thesis
  proof (cases "fd_pfd d = -1")
    case True
    with s Inr show ?thesis by (rule read_fd_leaf_kept)
  next
    case False
    have ready: "fds_ready s" using s by (simp add: kept_def kinv_def)
    have "0 \<le> fd" "fd \<le> 5" using Inr by (auto simp: kfd_get_def split: if_splits)
    with ready Inr False have p: "fd_pfd d \<in> {0, 4}" by (intro fds_ready_chain)
    have "yields (read_kept A s0 buf) (read_fd e (fd_pfd d) buf count 0 s')" if "kept A s0 s'" for s'
    proof -
      obtain dp where "kfd_get (fd_pfd d) s' = Inr dp" "fd_pfd dp = -1"
        using fds_ready_leaf [of s', OF _ p] \<open>kept A s0 s'\<close> by (auto simp: kept_def kinv_def)
      with that show ?thesis by (rule read_fd_leaf_kept)
    qed
    then have "yields (read_kept A s0 buf)
        (obind (Some (lseek (fd_pfd d) (fd_pfd_offset d + fd_pos d) 0 pid s)) (\<lambda>r. read_fd e (fd_pfd d) buf count 0 (snd r)))"
      using lseek_kept [OF s pid] by (intro yields_obind [where Q = "\<lambda>r. kept A s0 (snd r)"]) simp_all
    with Inr False show ?thesis
      by (subst read_fd.simps) (auto intro!: yields_obind [where Q = "read_kept A s0 buf"] read_done_kept')
  qed
qed

lemma seek_read_kept:
  assumes "kept A s0 s"
  shows "yields (\<lambda>r. kept A s0 (snd r) \<and> length (fst r) = length buf) (seek_read e fd off buf n s)"
proof -
  have pid: "caller_ok s0 0" by (simp add: caller_ok_def)
  have "yields (\<lambda>r. kept A s0 (snd r) \<and> length (fst r) = length buf) (obind (read_fd e fd buf n 0 s') (\<lambda>r. ret (snd r)))"
    if "kept A s0 s'" for s'
    by (rule yields_obind [OF read_fd_kept [OF that pid]]) simp
  with lseek_kept [OF assms pid] show ?thesis
    unfolding seek_read_def by (intro yields_obind [where Q = "\<lambda>r. kept A s0 (snd r)"]) simp_all
qed

section \<open>The volume\<close>

lemma read_cluster_kept:
  "kept A s0 s \<Longrightarrow> yields (\<lambda>r. kept A s0 (snd r) \<and> length (fst r) = length b) (read_cluster e b c s)"
  unfolding read_cluster_def Let_def by (rule seek_read_kept)

lemma get_next_cluster_kept: "kept A s0 s \<Longrightarrow> yields (\<lambda>r. kept A s0 (snd r)) (get_next_cluster e c s)"
  unfolding get_next_cluster_def Let_def by (rule yields_obind [OF seek_read_kept]) (auto split: prod.split)

lemma phys_area: "phys seg offs \<in> seg_area seg"
  using unat_lt_u16 [of "ucast offs"] by (simp add: phys_def seg_area_def)

lemma kept_store:
  assumes "kept A s0 s" "phys seg offs \<in> A"
  shows "kept A s0 (s\<lparr>ram := (ram s)(phys seg offs := b)\<rparr>)"
  using assms by (auto simp: kept_def kinv_def fds_ready_def procs_wf_def procs_busy_def)

lemma load_bytes_kept:
  "kept A s0 s \<Longrightarrow> seg_area seg \<subseteq> A \<Longrightarrow> delivers (kept A s0) (load_bytes seg offs b i n s)"
proof (induction n arbitrary: offs i s)
  case (Suc n)
  then have "delivers (kept A s0) (load_bytes seg (offs + 1) b (Suc i) n (s\<lparr>ram := (ram s)(phys seg offs := c)\<rparr>))" for c
    using kept_store [OF Suc.prems(1)] phys_area by (intro Suc.IH) blast+
  then show ?case by (auto intro!: delivers_bind)
qed simp

lemma load_to_memory_kept: "kept A s0 s \<Longrightarrow> seg_area seg \<subseteq> A \<Longrightarrow> delivers (kept A s0) (load_to_memory seg offs b n s)"
  unfolding load_to_memory_def Let_def by (rule load_bytes_kept)

lemma load_file_loop_kept:
  assumes "load_file_loop e seg b offs c s = Some r" "kept A s0 s" "seg_area seg \<subseteq> A"
  shows "delivers (kept A s0) r"
proof -
  have "kept A s0 s \<longrightarrow> seg_area seg \<subseteq> A \<longrightarrow> delivers (kept A s0) r"
  proof (rule load_file_loop.raw_induct [where P = "\<lambda>e seg b offs c s r. kept A s0 s \<longrightarrow> seg_area seg \<subseteq> A \<longrightarrow> delivers (kept A s0) r", OF _ assms(1)],
      intro impI)
    fix f e seg b offs c s r
    assume IH: "\<And>e seg b offs c s r. f e seg b offs c s = Some r \<Longrightarrow> kept A s0 s \<longrightarrow> seg_area seg \<subseteq> A \<longrightarrow> delivers (kept A s0) r"
      and eq: "obind (read_cluster e b c s) (\<lambda>r.
        obind (Some (load_to_memory seg offs (fst r) 4096 (snd r))) (\<lambda>s.
        obind (get_next_cluster e c s) (\<lambda>n.
        if fst n < 0x0FF8 then f e seg (fst r) (offs + 4096) (fst n) (snd n) else ret (snd n)))) = Some r"
      and s: "kept A s0 s" and a: "seg_area seg \<subseteq> A"
    have rest: "yields (kept A s0) (if fst n < 0x0FF8 then f e seg b' offs' (fst n) (snd n) else ret (snd n))"
      if "kept A s0 (snd n)" for n b' offs'
      using IH that a by (cases "f e seg b' offs' (fst n) (snd n)") auto
    have "yields (kept A s0) (Some r)"
      unfolding eq [symmetric] using s a
      by (intro yields_obind [OF read_cluster_kept [OF s]] yields_obind [where Q = "kept A s0"]
          yields_obind [OF get_next_cluster_kept] rest) (auto intro: load_to_memory_kept)
    then show "delivers (kept A s0) r" by simp
  qed
  with assms(2,3) show ?thesis by simp
qed

lemma load_file_content_kept [kept_rules]: "kept A s0 s \<Longrightarrow> seg_area seg \<subseteq> A \<Longrightarrow> yields (kept A s0) (load_file_content e f seg offs s)"
  unfolding load_file_content_def using load_file_loop_kept
  by (cases "load_file_loop e seg (junk_clust_buf e) offs (ucast (starting_cluster f)) s") auto

section \<open>The root directory\<close>

lemma caller_kernel [simp]: "caller_ok s 0"
  by (simp add: caller_ok_def)

lemma root_banner_kept: "kept A s0 s \<Longrightarrow> delivers (kept A s0) (root_banner s)"
  unfolding root_banner_def
  by (intro delivers_rbind [OF printk_kept] delivers_rbind [OF print_num_kept] printk_kept) assumption+

lemma entry_banner_kept: "kept A s0 s \<Longrightarrow> delivers (kept A s0) (entry_banner i s)"
  unfolding entry_banner_def
  by (intro delivers_rbind [OF printk_kept] delivers_rbind [OF print_num_kept] delivers_if printk_kept) (assumption | simp)+

lemma get_root_files_loop_kept:
  "kept A s0 s \<Longrightarrow> yields (\<lambda>r. kept A s0 (snd r)) (get_root_files_loop e i n files s)"
proof (induction n arbitrary: i files s)
  case (Suc n)
  have "yields (\<lambda>r. kept A s0 (snd r)) (get_root_files_loop e (Suc i) n fs (snd (snd r)))"
    if "read_kept A s0 buf r" for fs r buf
    using Suc.IH that by blast
  then have "yields (\<lambda>r. kept A s0 (snd r))
      (obind (if i < length files then read_fd e 5 (entry_bytes (files ! i)) 32 0 s' else Some (Inl WritePast)) (\<lambda>r.
       get_root_files_loop e (Suc i) n (files[i := entry_of (fst (snd r))]) (snd (snd r))))" if "kept A s0 s'" for s'
    using that by (auto intro!: yields_obind [OF read_fd_kept])
  then show ?case
    unfolding get_root_files_loop.simps
    by (intro yields_obind [where Q = "kept A s0"]) (simp_all add: entry_banner_kept Suc.prems)
qed simp

lemma get_root_files_kept [kept_rules]: "kept A s0 s \<Longrightarrow> yields (\<lambda>r. kept A s0 (snd r)) (get_root_files e files s)"
  unfolding get_root_files_def
  by (intro yields_obind [where Q = "\<lambda>r. kept A s0 (snd r)"] yields_obind [where Q = "kept A s0"] get_root_files_loop_kept)
    (simp_all add: lseek_kept root_banner_kept)

lemma get_root_next_file_kept: "kept A s0 s \<Longrightarrow> yields (\<lambda>r. kept A s0 (snd (snd r))) (get_root_next_file e f s)"
  unfolding get_root_next_file_def by (auto intro!: yields_obind [OF read_fd_kept])

lemma list_root_loop_kept:
  assumes "list_root_loop e buf k n f name x s = Some r" "kept A s0 s"
  shows "delivers (read_kept A s0 buf) r"
proof -
  have "kept A s0 s \<longrightarrow> delivers (read_kept A s0 buf) r"
  proof (rule list_root_loop.raw_induct [where P = "\<lambda>e buf k n f name x s r. kept A s0 s \<longrightarrow> delivers (read_kept A s0 buf) r",
        OF _ assms(1)], rule impI)
    fix g e buf k n f name x s r
    assume IH: "\<And>e buf k n f name x s r. g e buf k n f name x s = Some r \<Longrightarrow> kept A s0 s \<longrightarrow> delivers (read_kept A s0 buf) r"
      and eq: "(if n = 0 then ret (k, buf, s)
      else obind (get_root_next_file e f s) (\<lambda>r.
        if fst r = -1 then ret (k, buf, snd (snd r))
        else if get_entry_type (fst (snd r)) \<noteq> TYPE_FILE \<or> filename (fst (snd r)) ! 0 = 0xE5
        then g e buf k n (fst (snd r)) name x (snd (snd r))
        else if filename (fst (snd r)) ! 0 = 0 then ret (k, buf, snd (snd r))
        else obind (extract_file_name (fst (snd r)) name x) (\<lambda>nx.
             obind (Some (put_entry buf k (fst (snd r)) (fst nx) (snd nx))) (\<lambda>buf.
             g e buf (Suc k) (n - 1) (fst (snd r)) (fst nx) (snd nx) (snd (snd r)))))) = Some r"
      and s: "kept A s0 s"
    have rec: "yields (read_kept A s0 buf) (g e b k' n' f' name' x' s')" if "kept A s0 s'" "length b = length buf"
      for b k' n' f' name' x' s'
      using IH [of e b k' n' f' name' x' s'] that by (cases "g e b k' n' f' name' x' s'") auto
    have "yields (read_kept A s0 buf) (Some r)"
      unfolding eq [symmetric]
    proof (intro yields_if, goal_cases)
      case 2
      show ?case
      proof (rule yields_obind [OF get_root_next_file_kept [OF s]], intro yields_if, goal_cases)
        case (4 q)
        show ?case
        proof (rule yields_obind [where Q = "\<lambda>_. True"], goal_cases)
          case (2 nx)
          from 4(1) show ?case
            by (intro yields_obind [where Q = "\<lambda>b. length b = length buf"] rec) (simp_all add: put_entry_length)
        qed (simp add: yields_def)
      qed (use rec in simp_all)
    qed (use s in simp)
    then show "delivers (read_kept A s0 buf) r" by simp
  qed
  with assms(2) show ?thesis by simp
qed

lemma list_root_files_kept [kept_rules]: "kept A s0 s \<Longrightarrow> yields (read_kept A s0 buf) (list_root_files e m buf s)"
  unfolding list_root_files_def using list_root_loop_kept
  by (cases "list_root_loop e buf 0 (unat (m div 28)) (entry_of (junk_entries e ! 0)) (junk_name e) (junk_ext e) s") auto

section \<open>System calls\<close>

lemma kept_params_length: "kept A s0 s \<Longrightarrow> length (params s) = 576"
  by (simp add: kept_def kinv_def)

lemma put_params_kept [kept_rules]: "kept A s0 s \<Longrightarrow> delivers (kept A s0) (put_params off b s)"
  unfolding put_params_def
  by (rule delivers_rbind [OF store_length']) (simp add: kept_params kept_params_length)

lemma read_params_kept [kept_rules]:
  "kept A s0 s \<Longrightarrow> caller_ok s0 pid \<Longrightarrow> yields (kept A s0) (read_params e fd n pid s)"
  unfolding read_params_def
  by (rule yields_obind [OF read_fd_kept]) (auto intro!: kept_params dest: kept_params_length)

lemma list_params_kept [kept_rules]: "kept A s0 s \<Longrightarrow> yields (kept A s0) (list_params e s)"
  unfolding list_params_def case_prod_beta
  by (intro yields_obind [where Q = "\<lambda>r. kept A s0 (snd r)"] yields_obind [OF list_root_files_kept])
    (auto intro!: open_fd_kept lseek_kept put_params_kept kept_params dest: kept_params_length)

lemma no_value_kept: "delivers (\<lambda>r. kept A s0 (snd r)) m \<Longrightarrow> yields (kept A s0) (no_value m)"
  unfolding no_value_def by (auto intro: delivers_rbind)

text \<open>Every service keeps the frame: no argument a process passes changes who runs, which slots and segments are
  taken, or what is known of the volume.\<close>

lemma service_call_kept:
  assumes s: "kept A s0 s" and pid: "caller_ok s0 (get_running_proc s)" "get_running_proc s \<noteq> 0"
  shows "yields (kept A s0) (service_call e service s)"
proof -
  have show_params: "delivers (kept A s0) (rbind (strlen (params s)) (\<lambda>n. rbind (write_fd 1 (params s) (of_nat n) 0 s) (\<lambda>r. Inr (snd r))))"
    using s by (auto intro!: delivers_bind dest!: deliversD [OF write_fd_kept [OF s]])
  have opened: "delivers (kept A s0) (rbind (open_fd (params s) 0 (get_running_proc s) s) (\<lambda>(fd, s). put_params 516 (bytes32 (word_of_int fd)) s))"
    unfolding case_prod_beta using put_params_kept by (intro delivers_rbind [OF open_fd_kept [OF s pid(1)]])
  have closed: "yields (kept A s0) (no_value (close_fd (md_fd s) (get_running_proc s) s))"
    by (intro no_value_kept close_fd_kept s pid)
  show ?thesis
    unfolding service_call_def Let_def
    using s pid show_params opened closed
    by (intro yields_if no_value_kept)
      (simp_all add: write_fd_kept halt_kept kept_rules reboot_def emit_def)
qed

end
