(* ===== verification/Sessions.thy ===== *)
theory Sessions
  imports Kernel_Frame
begin

text \<open>
  The system as it runs: programs nested in one another by system call 7, each with its segment and
  its slot in the process table, and start-up below them.  The steps are the kernel's operations on
  \<open>kstate\<close>; the invariant says that segments, slots and \<open>running_proc\<close> follow the nesting.
\<close>

section \<open>Tables that follow the nesting\<close>

text \<open>
  \<open>tables v n m r s\<close>: the volume is \<open>v\<close>, its boot sector and sections; the process table holds \<open>n\<close> processes in its first slots, the \<open>k\<close>-th started by
  the one before it and loaded in segment \<open>k + 2\<close>; \<open>m\<close> segments are taken from segment 2 on; the
  process \<open>r\<close> runs, and its descriptor alone says so.
\<close>

definition entry_ok :: "int \<Rightarrow> nat \<Rightarrow> proc \<Rightarrow> bool" where
  "entry_ok r k p \<longleftrightarrow> p_ppid p = of_nat k \<and> p_cs p = seg_base (k + 2) \<and> p_ds p = seg_base (k + 2)
     \<and> p_ss p = seg_base (k + 2) \<and> p_ip p = 0 \<and> p_state p = (if r = int k + 1 then RUNNING else READY)"

definition tables :: "byte list \<times> section_positions \<Rightarrow> nat \<Rightarrow> nat \<Rightarrow> int \<Rightarrow> kstate \<Rightarrow> bool" where
  "tables v n m r s \<longleftrightarrow> kinv s \<and> procs_busy s = {..<n} \<and> segs_busy (seg_arr s) = {..<m + 2}
     \<and> running_proc s = r \<and> v = (bs s, s_pos s) \<and> (\<forall>k<n. entry_ok r k (processes s ! k))"

lemma entry_ok_own: "entry_ok r k (own_fields p) = entry_ok r k p"
  by (simp add: entry_ok_def own_fields_def)

lemma tables_kept:
  assumes "tables v n m r s0" "kept A s0 s"
  shows "tables v n m r s"
proof -
  have "entry_ok r k (processes s ! k)" if "k < n" for k
    using assms that entry_ok_own [of r k "processes s ! k"] entry_ok_own [of r k "processes s0 ! k"]
    by (simp add: tables_def kept_def)
  with assms show ?thesis by (simp add: tables_def kept_def)
qed

lemma tables_kinv: "tables v n m r s \<Longrightarrow> kinv s"
  by (simp add: tables_def)

lemma tables_self: "tables v n m r s \<Longrightarrow> kept A s s"
  by (rule kept_refl) (rule tables_kinv)

section \<open>Segments and slots\<close>

lemma tables_alloc:
  assumes "tables v n m r s" "m < 8"
  obtains arr where "get_free_seg j (seg_arr s) = (seg_base (m + 2), arr)" "tables v n (Suc m) r (s\<lparr>seg_arr := arr\<rparr>)"
proof
  have wf: "segs_wf (seg_arr s)" and busy: "segs_busy (seg_arr s) = {..<m + 2}"
    using assms(1) by (simp_all add: tables_def kinv_def)
  let ?arr = "snd (get_free_seg j (seg_arr s))"
  have "segs_busy ?arr = {..<Suc (m + 2)}"
    using assms(2) by (intro mm.alloc_stack [OF wf busy]) (simp add: NUM_SEG_def)
  moreover have "segs_wf ?arr" by (rule mm.wf_alloc [OF wf])
  ultimately show "tables v n (Suc m) r (s\<lparr>seg_arr := ?arr\<rparr>)"
    using assms(1) by (simp add: tables_def kinv_def fds_ready_def procs_wf_def procs_busy_def)
  show "get_free_seg j (seg_arr s) = (seg_base (m + 2), ?arr)"
    using get_free_seg_first [OF wf, of "m + 2" j] assms(2) busy by (simp add: NUM_SEG_def)
qed

lemma tables_release:
  assumes "tables v n (Suc m) r s" "m < 8"
  shows "tables v n m r (s\<lparr>seg_arr := snd (release_seg (seg_base (m + 2)) (seg_arr s))\<rparr>)"
proof -
  have wf: "segs_wf (seg_arr s)" and busy: "segs_busy (seg_arr s) = {..<Suc (m + 2)}"
    using assms(1) by (simp_all add: tables_def kinv_def)
  have "segs_busy (snd (release_seg (seg_base (m + 2)) (seg_arr s))) = {..<m + 2}"
    using assms(2) by (intro mm.free_stack [OF wf busy]) (simp add: NUM_SEG_def)
  moreover have "segs_wf (snd (release_seg (seg_base (m + 2)) (seg_arr s)))" by (rule mm.wf_free [OF wf])
  ultimately show ?thesis
    using assms(1) by (simp add: tables_def kinv_def fds_ready_def procs_wf_def procs_busy_def)
qed

text \<open>A copy that does not fault had room for the string.\<close>

lemma strcpy_loop_InrD:
  "strcpy_loop dst src i = Inr d \<Longrightarrow> terminated (drop i src) \<and> i + length (cval (drop i src)) < length dst"
proof (induction dst src i rule: strcpy_loop.induct)
  case (1 dst src i)
  obtain c where c: "load_byte src i = Inr c" and i: "i < length src" "c = src ! i"
    using 1(2) by (subst (asm) strcpy_loop.simps) (auto dest: load_byte_InrD)
  obtain d' where d': "store_byte dst i c = Inr d'" and l: "i < length dst" "length d' = length dst"
    using 1(2) c by (subst (asm) strcpy_loop.simps) (auto dest: store_byte_InrD)
  show ?case
  proof (cases "c = 0")
    case True
    with i l show ?thesis by (simp add: drop_tail_cons [of i src] terminated_Cons cval_Cons)
  next
    case False
    with 1(2) c d' have "strcpy_loop d' src (Suc i) = Inr d" by (subst (asm) strcpy_loop.simps) simp
    with 1(1) [OF c d' False] False i l show ?thesis
      by (simp add: drop_tail_cons [of i src] terminated_Cons cval_Cons)
  qed
qed

lemma fill_slot_InrD:
  "fill_slot i name cs ds ss ent ppid sz p = Inr p' \<Longrightarrow> terminated name \<and> length (cval name) < length (p_name p)"
  using strcpy_loop_InrD [of "p_name p" name 0] by (auto simp: fill_slot_def strcpy_def)

lemma tables_register:
  assumes t: "tables v n m (int n) s" and n: "n < 9" and seg: "seg = seg_base (n + 2)"
    and reg: "register_proc name seg seg seg 0 pid (int n) sz s = Inr (rv, pid', s')"
  shows "pid' = int n + 1 \<and> tables v (Suc n) m (int n) s' \<and> ram s' = ram s"
proof -
  have wf: "procs_wf s" and busy: "procs_busy s = {..<n}" using t by (simp_all add: tables_def kinv_def)
  have i: "n < NUM_PROCESSES" "n \<notin> procs_busy s" "{..<n} \<subseteq> procs_busy s"
    using n busy by (simp_all add: NUM_PROCESSES_def)
  have free: "p_pid (processes s ! n) = 0" "\<And>k. k < n \<Longrightarrow> p_pid (processes s ! k) \<noteq> 0"
    using i busy by (auto simp: procs_busy_def)
  have p32: "length (p_name (processes s ! n)) = 32"
    using procs_wfD(2) [OF wf i(1)] by (simp add: proc_wf_def)
  have skip: "register_proc_loop k name seg seg seg 0 pid (int n) sz s
      = register_proc_loop n name seg seg seg 0 pid (int n) sz s" if "k \<le> n" for k
    using that
  proof (induction "n - k" arbitrary: k)
    case (Suc d)
    then show ?case
      using free(2) [of k] i(1) by (subst register_proc_loop.simps) simp
  qed simp
  have "register_proc_loop n name seg seg seg 0 pid (int n) sz s = Inr (rv, pid', s')"
    using reg skip [of 0] by (simp add: register_proc_def)
  then have "\<exists>p. fill_slot n name seg seg seg 0 (int n) sz (processes s ! n) = Inr p"
    using free(1) i(1) by (subst (asm) register_proc_loop.simps) auto
  with p32 have name: "terminated name" "length (cval name) < 32" using fill_slot_InrD by fastforce+
  let ?p = "filled n name seg seg seg 0 (int n) sz (processes s ! n)"
  have s': "pid' = int n + 1" "s' = s\<lparr>processes := (processes s)[n := ?p]\<rparr>"
    using reg register_proc_first [OF wf i name, of seg seg seg 0 pid "int n" sz] by simp_all
  have "reg_wf (name, s)" using wf name by (simp add: reg_wf_def)
  from procs.alloc_stack [OF this, of n seg seg seg 0 pid "int n" sz] procs.wf_alloc [OF this, of seg seg seg 0 pid "int n" sz]
  have "procs_busy s' = {..<Suc n}" "procs_wf s'"
    using busy i(1) unfolding reg_alloc_def by (simp_all add: reg reg_wf_def)
  moreover have "entry_ok (int n) k (processes s' ! k)" if "k < Suc n" for k
  proof (cases "k = n")
    case True
    then show ?thesis
      using procs_wfD(1) [OF wf i(1)] i(1) by (simp add: s' entry_ok_def filled_def seg)
  next
    case False
    with that t show ?thesis by (simp add: s' tables_def)
  qed
  ultimately show ?thesis
    using t unfolding s'(2) by (simp add: tables_def kinv_def fds_ready_def s'(1))
qed

lemma tables_unregister:
  assumes t: "tables v (Suc n) m r s" and n: "n < 9"
  obtains s' where "unregister_proc (int n + 1) s = Inr (0, s')" "tables v n m r s'"
proof
  have wf: "procs_wf s" and busy: "procs_busy s = {..<Suc n}" using t by (simp_all add: tables_def kinv_def)
  have i: "n < NUM_PROCESSES" using n by (simp add: NUM_PROCESSES_def)
  let ?s = "s\<lparr>processes := (processes s)[n := (processes s ! n)\<lparr>p_pid := 0\<rparr>]\<rparr>"
  show "unregister_proc (int n + 1) s = Inr (0, ?s)" by (rule unregister_proc_eq [OF i])
  have "procs_busy ?s = {..<n}"
    using procs_busy_upd [OF wf i] busy by (simp add: lessThan_Suc)
  with t unregister_wf [OF wf] show "tables v n m r ?s"
    by (simp add: tables_def kinv_def fds_ready_def)
qed

lemma set_running_memory: "set_running_proc pid s = Inr s' \<Longrightarrow> ram s' = ram s"
  by (auto simp: set_running_proc_def upd_proc_def rbind_def split: if_splits sum.splits)

lemma tables_set_running:
  assumes t: "tables v n m r s" and r: "0 \<le> r" "r \<le> 9" and p: "p < 9"
  obtains s' where "set_running_proc (int p + 1) s = Inr s'" "tables v n m (int p + 1) s'"
proof -
  have wf: "procs_wf s" using t by (simp add: tables_def kinv_def)
  have len: "length (processes s) = 9" using procs_wfD(1) [OF wf, of 0] by (simp add: NUM_PROCESSES_def)
  have run: "running_proc s = r" using t by (simp add: tables_def)
  define ps where "ps = (if r \<noteq> 0 then (processes s)[nat (r - 1) := (processes s ! nat (r - 1))\<lparr>p_state := READY\<rparr>] else processes s)"
  define ps' where "ps' = ps[p := (ps ! p)\<lparr>p_state := RUNNING\<rparr>]"
  let ?s = "s\<lparr>running_proc := int p + 1, processes := ps'\<rparr>"
  have len': "length ps' = 9" by (simp add: ps'_def ps_def len)
  have set: "set_running_proc (int p + 1) s = Inr ?s"
    using r p run by (simp add: set_running_proc_def upd_proc_def NUM_PROCESSES_def ps'_def ps_def)
  have at: "ps' ! k = (processes s ! k)\<lparr>p_state := (if k = p then RUNNING
      else if r = int k + 1 then READY else p_state (processes s ! k))\<rparr>" if "k < 9" for k
  proof -
    have "r \<noteq> 0 \<and> k = nat (r - 1) \<longleftrightarrow> r = int k + 1" using r by auto
    then have "ps ! k = (processes s ! k)\<lparr>p_state := (if r = int k + 1 then READY else p_state (processes s ! k))\<rparr>"
      using that len by (cases "nat (r - 1) = k") (auto simp: ps_def)
    with that p len show ?thesis by (simp add: ps'_def nth_list_update ps_def)
  qed
  have "proc_wf k (ps' ! k)" if "k < NUM_PROCESSES" for k
    using at [of k] procs_wfD(2) [OF wf that] that by (simp add: proc_wf_def NUM_PROCESSES_def)
  then have "procs_wf ?s" using len' by (simp add: procs_wf_def NUM_PROCESSES_def)
  moreover have "p_pid (ps' ! k) = p_pid (processes s ! k)" if "k < 9" for k using at [OF that] by simp
  then have "procs_busy ?s = procs_busy s" by (auto simp: procs_busy_def NUM_PROCESSES_def)
  moreover have "entry_ok (int p + 1) k (ps' ! k)" if "k < n" for k
  proof -
    have "k < 9" using t that by (auto simp: tables_def procs_busy_def NUM_PROCESSES_def)
    from at [OF this] that t show ?thesis by (auto simp: tables_def entry_ok_def)
  qed
  ultimately have "tables v n m (int p + 1) ?s"
    using t by (simp add: tables_def kinv_def fds_ready_def)
  with set show thesis by (rule that)
qed

section \<open>Loading, entering and leaving a program\<close>

text \<open>After loading and after entering, from the memory \<open>m\<close>: it has changed inside the program's segment only.\<close>

definition loaded :: "byte list \<times> section_positions \<Rightarrow> nat \<Rightarrow> nat \<Rightarrow> (nat \<Rightarrow> byte) \<Rightarrow> int \<times> int \<times> u32 \<times> byte list \<times> kstate \<Rightarrow> bool" where
  "loaded v n l m x \<longleftrightarrow> (case x of (rc, pid, seg, name, s) \<Rightarrow> seg = seg_base (n + 2) \<and> length name = l
     \<and> (\<forall>a. a \<notin> seg_area seg \<longrightarrow> ram s a = m a)
     \<and> (rc = 1 \<and> tables v n (Suc n) (int n) s \<or> rc = 0 \<and> pid = int n + 1 \<and> tables v (Suc n) (Suc n) (int n) s))"

text \<open>Loading and registering a program that has been found.\<close>

lemma load_found_tables:
  assumes t: "tables v n (Suc n) (int n) s" and n: "n < 8" and k: "kept (seg_area (seg_base (n + 2))) s s'" and l: "length nm = l"
  shows "yields (loaded v n l (ram s)) (obind (load_file_content e f (seg_base (n + 2)) 0 s') (\<lambda>s.
    obind (Some (register_proc nm (seg_base (n + 2)) (seg_base (n + 2)) (seg_base (n + 2)) 0 pid
      (get_running_proc s) (file_size f) s)) (\<lambda>(_, pid, s). ret (0, pid, seg_base (n + 2), nm, s))))"
proof (rule yields_obind [OF load_file_content_kept [OF k order_refl]])
  fix w assume kw: "kept (seg_area (seg_base (n + 2))) s w"
  with t have t': "tables v n (Suc n) (int n) w" by (rule tables_kept)
  then have "get_running_proc w = int n" by (simp add: get_running_proc_def tables_def)
  moreover have "delivers (\<lambda>r. fst (snd r) = int n + 1 \<and> tables v (Suc n) (Suc n) (int n) (snd (snd r))
        \<and> (\<forall>a. a \<notin> seg_area (seg_base (n + 2)) \<longrightarrow> ram (snd (snd r)) a = ram s a))
      (register_proc nm (seg_base (n + 2)) (seg_base (n + 2)) (seg_base (n + 2)) 0 pid (int n) (file_size f) w)"
    using tables_register [OF t' _ refl] n kept_ram [OF kw] by (fastforce simp: delivers_def)
  ultimately show "yields (loaded v n l (ram s)) (obind (Some (register_proc nm (seg_base (n + 2)) (seg_base (n + 2)) (seg_base (n + 2)) 0 pid
      (get_running_proc w) (file_size f) w)) (\<lambda>(_, pid, s). ret (0, pid, seg_base (n + 2), nm, s)))"
    unfolding case_prod_beta by (intro yields_obind) (auto simp: loaded_def l elim!: delivers_mono)
qed

lemma load_tables:
  assumes t: "tables v n n (int n) s" and n: "n < 8"
  shows "yields (loaded v n (length name) (ram s)) (load e name pid s)"
proof -
  obtain arr where seg: "get_free_seg (junk_seg e) (seg_arr s) = (seg_base (n + 2), arr)"
      and t1: "tables v n (Suc n) (int n) (s\<lparr>seg_arr := arr\<rparr>)"
    using tables_alloc [OF t n] by blast
  let ?s = "s\<lparr>seg_arr := arr\<rparr>"
  note found = load_found_tables [OF t1 n, where l = "length name"]
  have missing: "loaded v n (length name) (ram s) (1, pid, seg_base (n + 2), nm, s')"
    if "kept (seg_area (seg_base (n + 2))) ?s s'" "length nm = length name" for s' nm
    using tables_kept [OF t1 that(1)] that kept_ram [OF that(1)] by (simp add: loaded_def)
  have "yields (loaded v n (length name) (ram s)) (obind (get_root_files e (map entry_of (junk_entries e)) ?s) (\<lambda>r.
      obind (Some (stoupper name)) (\<lambda>name.
      obind (get_file e (fst r) name (entry_of (junk_entries e ! 0)) (snd r)) (\<lambda>q.
      if fst q = -1 then ret (1, pid, seg_base (n + 2), name, snd r)
      else obind (load_file_content e (snd q) (seg_base (n + 2)) 0 (snd r)) (\<lambda>s.
           obind (Some (register_proc name (seg_base (n + 2)) (seg_base (n + 2)) (seg_base (n + 2)) 0 pid (get_running_proc s)
                          (file_size (snd q)) s)) (\<lambda>(_, pid, s).
           ret (0, pid, seg_base (n + 2), name, s)))))))"
  proof (rule yields_obind [OF get_root_files_kept [OF tables_self [OF t1, of "seg_area (seg_base (n + 2))"]]], goal_cases)
    case (1 r)
    show ?case
    proof (rule yields_obind [where Q = "\<lambda>nm. length nm = length name"], goal_cases)
      case 1
      show ?case by (simp add: stoupper_length)
    next
      case (2 nm)
      show ?case
      proof (rule yields_obind [where Q = "\<lambda>_. True"], goal_cases)
        case (2 q)
        show ?case
          using missing [OF 1 \<open>length nm = length name\<close>] found [OF 1 \<open>length nm = length name\<close>, simplified] by (intro yields_if) simp_all
      qed (simp add: yields_def)
    qed
  qed
  then show ?thesis
    unfolding load_def seg Let_def case_prod_beta fst_conv snd_conv by simp
qed

text \<open>\<open>place\<close> keeps the tables when the name it puts back has its old length.\<close>

definition place_ok :: "(byte list \<Rightarrow> kstate \<Rightarrow> kstate) \<Rightarrow> nat \<Rightarrow> bool" where
  "place_ok place l \<longleftrightarrow> (\<forall>b s v n m r. length b = l \<longrightarrow> tables v n m r s \<longrightarrow> tables v n m r (place b s))
     \<and> (\<forall>b s. ram (place b s) = ram s)"

lemma place_okD: "place_ok place l \<Longrightarrow> length b = l \<Longrightarrow> tables v n m r s \<Longrightarrow> tables v n m r (place b s)"
  unfolding place_ok_def by blast

lemma place_ok_ram: "place_ok place l \<Longrightarrow> ram (place b s) = ram s"
  unfolding place_ok_def by blast

lemma place_params_ok: "place_ok place_params 576"
  by (auto simp: place_ok_def place_params_def tables_def kinv_def fds_ready_def procs_wf_def procs_busy_def)

lemma place_init_ok: "place_ok place_init l"
  by (auto simp: place_ok_def place_init_def tables_def kinv_def fds_ready_def procs_wf_def procs_busy_def)

definition entered :: "byte list \<times> section_positions \<Rightarrow> nat \<Rightarrow> (nat \<Rightarrow> byte) \<Rightarrow> int \<times> int \<times> u32 \<times> kstate \<Rightarrow> bool" where
  "entered v n m x \<longleftrightarrow> (case x of (rc, pid, seg, s) \<Rightarrow> seg = seg_base (n + 2)
     \<and> (\<forall>a. a \<notin> seg_area seg \<longrightarrow> ram s a = m a)
     \<and> (rc = 1 \<and> tables v n (Suc n) (int n) s \<or> rc = 0 \<and> pid = int n + 1 \<and> tables v (Suc n) (Suc n) (int n + 1) s))"

lemma tables_caller: "tables v (Suc n) m r s \<Longrightarrow> n < 8 \<Longrightarrow> caller_ok s (int n + 1)"
  by (simp add: caller_ok_def tables_def)

lemma run_enter_tables:
  assumes t: "tables v n n (int n) s" and n: "n < 8" and place: "place_ok place (length name)"
  shows "yields (entered v n (ram s)) (run_enter e name place s)"
proof -
  have started: "yields (entered v n (ram s)) (obind (Some (set_running_proc (int n + 1) s1)) (\<lambda>s.
      obind (Some (open_fd (cstr ''/dev/stdin'') 0 (int n + 1) s)) (\<lambda>q.
      obind (Some (open_fd (cstr ''/dev/stdout'') 0 (int n + 1) (snd q))) (\<lambda>q.
      ret (0, int n + 1, seg_base (n + 2), snd q)))))" if t1: "tables v (Suc n) (Suc n) (int n) s1" and m1: "\<And>a. a \<notin> seg_area (seg_base (n + 2)) \<Longrightarrow> ram s1 a = ram s a" for s1
  proof -
    obtain s2 where s2: "set_running_proc (int n + 1) s1 = Inr s2" and t2: "tables v (Suc n) (Suc n) (int n + 1) s2"
      using tables_set_running [OF t1, of n] n by auto
    have m2: "ram s2 = ram s1" by (rule set_running_memory [OF s2])
    note caller = tables_caller [OF t2 n]
    have "yields (entered v n (ram s)) (obind (Some (open_fd (cstr ''/dev/stdin'') 0 (int n + 1) s2)) (\<lambda>q.
      obind (Some (open_fd (cstr ''/dev/stdout'') 0 (int n + 1) (snd q))) (\<lambda>q.
      ret (0, int n + 1, seg_base (n + 2), snd q))))"
      by (intro yields_obind [where Q = "\<lambda>r. kept {} s2 (snd r)"])
        (auto intro!: open_fd_kept caller tables_self [OF t2] simp: entered_def tables_kept [OF t2] dest: kept_ram [where A = "{}", simplified] simp: m1 [symmetric] m2 [symmetric])
    with s2 show ?thesis by simp
  qed
  show ?thesis
    unfolding run_enter_def
  proof (rule yields_obind [OF load_tables [OF t n]], goal_cases)
    case (1 x)
    obtain rc pid seg nm s1 where x: "x = (rc, pid, seg, nm, s1)" by (cases x) auto
    have m: "ram (place nm s1) a = ram s a" if "a \<notin> seg_area (seg_base (n + 2))" for a
      using 1 that place_ok_ram [OF place] by (simp add: x loaded_def)
    have seg: "seg = seg_base (n + 2)" using 1 by (simp add: x loaded_def)
    from 1 consider "rc = 1" "tables v n (Suc n) (int n) (place nm s1)"
      | "rc = 0" "pid = int n + 1" "tables v (Suc n) (Suc n) (int n) (place nm s1)"
      using place_okD [OF place, of nm v n "Suc n" "int n" s1] place_okD [OF place, of nm v "Suc n" "Suc n" "int n" s1]
      by (auto simp: x loaded_def)
    then show ?case
    proof cases
      case 1
      then show ?thesis by (simp add: x seg entered_def m)
    next
      case 2
      from started [OF 2(3) m] 2(1,2) show ?thesis unfolding x seg case_prod_beta Let_def fst_conv snd_conv by simp
    qed
  qed
qed

lemma run_exit_ok:
  assumes t: "tables v (Suc n) (Suc n) r s" and n: "n < 8"
  obtains s' where "run_exit 0 (int n + 1) (seg_base (n + 2)) s = Inr (0, s')" "tables v n n r s'"
proof -
  obtain s1 where s1: "unregister_proc (int n + 1) s = Inr (0, s1)" and t1: "tables v n (Suc n) r s1"
    using tables_unregister [OF t] n by auto
  from tables_release [OF t1 n] s1 show thesis by (intro that) (simp_all add: run_exit_def)
qed

lemma run_exit_missing:
  assumes t: "tables v n (Suc n) r s" and n: "n < 8"
  obtains s' where "run_exit 1 pid (seg_base (n + 2)) s = Inr (1, s')" "tables v n n r s'"
  using tables_release [OF t n] by (intro that) (simp_all add: run_exit_def)

section \<open>Steps\<close>

text \<open>
  The programs that have been entered and not left, innermost first: the pid and the segment
  \<open>run_program\<close> keeps on the kernel's stack, and the \<open>curr_pid\<close> that \<open>dispatch\<close> keeps below.
  A running program may store anywhere above the kernel's segment (below it are the interrupt vectors, the
  BIOS data and the kernel, whose variables are the fields of \<open>kstate\<close> and not bytes of \<open>ram\<close>: a program that
  stores there is outside the model), make a system call with any parameter block (the entry code
  of arch/8088/kernel/dispatch.asm copies 576 bytes), run a program, or return.  A step exists where the kernel's
  code returns without an access outside its objects: a call that would leave them (a descriptor out of range)
  has none.
\<close>

type_synonym frame = "int \<times> u32 \<times> int"

datatype action = SystemCall int "byte list" | Poke nat byte | Exec "byte list" | Return | Boot

inductive session_step :: "env \<Rightarrow> kstate \<times> frame list \<Rightarrow> action \<Rightarrow> kstate \<times> frame list \<Rightarrow> bool" for e where
  step_call: "service \<noteq> 7 \<Longrightarrow> length b = 576 \<Longrightarrow> service_call e service (s\<lparr>params := b\<rparr>) = ret s' \<Longrightarrow>
    session_step e (s, f # fr) (SystemCall service b) (s', f # fr)"
| step_poke: "0x20000 \<le> a \<Longrightarrow> session_step e (s, f # fr) (Poke a v) (s\<lparr>ram := (ram s)(a := v)\<rparr>, f # fr)"
| step_exec: "length b = 576 \<Longrightarrow> run_enter e b place_params (s\<lparr>params := b\<rparr>) = ret (0, pid, segment, s') \<Longrightarrow>
    session_step e (s, f # fr) (Exec b) (s', (pid, segment, get_running_proc s) # f # fr)"
| step_exec_fails: "length b = 576 \<Longrightarrow> run_enter e b place_params (s\<lparr>params := b\<rparr>) = ret (rc, pid, segment, s1) \<Longrightarrow>
    rc \<noteq> 0 \<Longrightarrow> run_exit rc pid segment s1 = Inr (rc', s2) \<Longrightarrow>
    put_params 0 (bytes32 (word_of_int rc')) s2 = Inr s3 \<Longrightarrow> set_running_proc (get_running_proc s) s3 = Inr s' \<Longrightarrow>
    session_step e (s, f # fr) (Exec b) (s', f # fr)"
| step_return: "run_exit 0 pid segment s = Inr (rc', s2) \<Longrightarrow>
    put_params 0 (bytes32 (word_of_int rc')) s2 = Inr s3 \<Longrightarrow> set_running_proc caller s3 = Inr s' \<Longrightarrow>
    session_step e (s, (pid, segment, caller) # f # fr) Return (s', f # fr)"
| step_boot: "run_enter e (init_name s) place_init (init_processes s) = ret (0, pid, segment, s') \<Longrightarrow>
    session_step e (s, []) Boot (s', [(pid, segment, 0)])"
| step_boot_fails: "run_enter e (init_name s) place_init (init_processes s) = ret (rc, pid, segment, s1) \<Longrightarrow>
    rc \<noteq> 0 \<Longrightarrow> run_exit rc pid segment s1 = Inr (rc', s') \<Longrightarrow> session_step e (s, []) Boot (s', [])"
| step_init_returns: "run_exit 0 pid segment s = Inr (rc', s') \<Longrightarrow>
    session_step e (s, [(pid, segment, caller)]) Return (s', [])"

inductive_cases session_stepE:
  "session_step e m (SystemCall service b) m'" "session_step e m (Poke a v) m'" "session_step e m (Exec b) m'"
  "session_step e m Return m'" "session_step e m Boot m'"

section \<open>The invariant\<close>

fun frames_of :: "nat \<Rightarrow> frame list" where
  "frames_of 0 = []"
| "frames_of (Suc n) = (int n + 1, seg_base (n + 2), int n) # frames_of n"

definition session_inv :: "byte list \<times> section_positions \<Rightarrow> kstate \<times> frame list \<Rightarrow> bool" where
  "session_inv v m \<longleftrightarrow> (\<exists>n r. n \<le> 8 \<and> snd m = frames_of n \<and> (n \<noteq> 0 \<longrightarrow> r = int n) \<and> tables v n n r (fst m))"

text \<open>Attempts to run a program above eight, whether they load one or fail, fall outside the invariant: at that
  depth \<open>run_program\<close> frees a segment that is in use, and a ninth program lies over a running one.\<close>

fun within :: "kstate \<times> frame list \<Rightarrow> action \<Rightarrow> bool" where
  "within m (Exec b) = (length (snd m) < 8)"
| "within m a = True"

lemma frames_of_length [simp]: "length (frames_of n) = n"
  by (induction n) simp_all

lemma frames_of_Cons: "f # fr = frames_of n \<longleftrightarrow> (\<exists>k. n = Suc k \<and> f = (int k + 1, seg_base (k + 2), int k) \<and> fr = frames_of k)"
  by (cases n) auto

lemma tables_params: "tables v n m r s \<Longrightarrow> length b = 576 \<Longrightarrow> tables v n m r (s\<lparr>params := b\<rparr>)"
  using place_okD [OF place_params_ok] by (simp add: place_params_def)

lemma tables_put_params: "tables v n m r s \<Longrightarrow> put_params off b s = Inr s' \<Longrightarrow> tables v n m r s'"
  using deliversD [OF put_params_kept [OF tables_self]] tables_kept by blast

lemma tables_init: "tables v 0 0 r s \<Longrightarrow> tables v 0 0 0 (init_processes s)"
  using init_processes_wf [of s] init_processes_busy [of s]
  by (auto simp: tables_def kinv_def fds_ready_def init_processes_def)

text \<open>What a caller finds when the program it ran is gone: the value returned and its own tables.\<close>

lemma tables_back:
  assumes "tables v (Suc k) (Suc k) r s2" "0 \<le> r" "r \<le> 9" "k < 9"
    and "put_params 0 b s2 = Inr s3" "set_running_proc (int k + 1) s3 = Inr s'"
  shows "tables v (Suc k) (Suc k) (int k + 1) s'"
  using tables_set_running [OF tables_put_params [OF assms(1,5)] assms(2-4)] assms(6) by auto

lemma exec_inv:
  assumes t: "tables v (Suc k) (Suc k) (int k + 1) s" and k: "Suc k < 8" and b: "length b = 576"
    and run: "run_enter e b place_params (s\<lparr>params := b\<rparr>) = ret x"
  shows "entered v (Suc k) (ram s) x"
proof -
  have "tables v (Suc k) (Suc k) (int (Suc k)) (s\<lparr>params := b\<rparr>)"
    using tables_params [OF t b] by (simp add: add.commute)
  from yieldsD [OF run_enter_tables [OF this k] run] place_params_ok b show ?thesis by simp
qed

lemma session_inv_top:
  assumes "session_inv v (s, f # fr)"
  obtains k where "f = (int k + 1, seg_base (k + 2), int k)" "fr = frames_of k" "f # fr = frames_of (Suc k)" "k < 8"
    "tables v (Suc k) (Suc k) (int k + 1) s"
proof -
  obtain n r where n: "n \<le> 8" "f # fr = frames_of n" "n \<noteq> 0 \<longrightarrow> r = int n" "tables v n n r s"
    using assms by (auto simp: session_inv_def)
  then obtain k where k: "n = Suc k" "f = (int k + 1, seg_base (k + 2), int k)" "fr = frames_of k"
    by (auto simp: frames_of_Cons)
  have "r = int k + 1" using n(3) k(1) by simp
  with k n show thesis by (intro that [of k]) simp_all
qed

lemma session_inv_topI: "tables v (Suc k) (Suc k) (int k + 1) s \<Longrightarrow> k < 8 \<Longrightarrow> session_inv v (s, frames_of (Suc k))"
  unfolding session_inv_def by (intro exI [of _ "Suc k"] exI [of _ "int k + 1"]) simp

lemma session_inv_empty: "session_inv v (s, []) \<longleftrightarrow> (\<exists>r. tables v 0 0 r s)"
proof -
  have "[] = frames_of n \<longleftrightarrow> n = 0" for n by (cases n) simp_all
  then show ?thesis by (auto simp: session_inv_def)
qed

text \<open>What the kinds of steps do to the tables.\<close>

lemma service_keeps:
  assumes t: "tables v (Suc k) (Suc k) (int k + 1) s" and k: "k < 8" and b: "length b = 576"
    and call: "service_call e service (s\<lparr>params := b\<rparr>) = ret s'"
  shows "kept {} (s\<lparr>params := b\<rparr>) s'" "tables v (Suc k) (Suc k) (int k + 1) s'"
proof -
  note t' = tables_params [OF t b]
  have "caller_ok (s\<lparr>params := b\<rparr>) (get_running_proc (s\<lparr>params := b\<rparr>))" "get_running_proc (s\<lparr>params := b\<rparr>) \<noteq> 0"
    using tables_caller [OF t' k] t' by (simp_all add: get_running_proc_def tables_def)
  then show "kept {} (s\<lparr>params := b\<rparr>) s'" by (rule yieldsD [OF service_call_kept [OF tables_self [OF t']] call])
  then show "tables v (Suc k) (Suc k) (int k + 1) s'" by (rule tables_kept [OF t'])
qed

lemma exec_fails_tables:
  assumes t: "tables v (Suc k) (Suc k) (int k + 1) s" and k: "Suc k < 8" and b: "length b = 576"
    and run: "run_enter e b place_params (s\<lparr>params := b\<rparr>) = ret (rc, pid, segment, s1)" "rc \<noteq> 0"
      "run_exit rc pid segment s1 = Inr (rc', s2)" "put_params 0 x s2 = Inr s3" "set_running_proc (get_running_proc s) s3 = Inr s'"
  shows "tables v (Suc k) (Suc k) (int k + 1) s'"
proof -
  have "rc = 1" "segment = seg_base (Suc k + 2)" "tables v (Suc k) (Suc (Suc k)) (int (Suc k)) s1"
    using exec_inv [OF t k b run(1)] run(2) by (auto simp: entered_def)
  with run_exit_missing [of v "Suc k" "int (Suc k)" s1 pid] k run(3) have "tables v (Suc k) (Suc k) (int (Suc k)) s2" by auto
  moreover have "get_running_proc s = int k + 1" using t by (simp add: get_running_proc_def tables_def)
  ultimately show ?thesis using tables_back [of v k "int (Suc k)" s2 _ s3 s'] run(4,5) k by simp
qed

lemma return_tables:
  assumes t: "tables v (Suc (Suc k)) (Suc (Suc k)) (int (Suc k) + 1) s" and k: "Suc k < 8"
    and run: "run_exit 0 (int (Suc k) + 1) (seg_base (Suc k + 2)) s = Inr (rc', s2)" "put_params 0 x s2 = Inr s3"
      "set_running_proc (int (Suc k)) s3 = Inr s'"
  shows "tables v (Suc k) (Suc k) (int k + 1) s'"
proof -
  have "tables v (Suc k) (Suc k) (int (Suc k) + 1) s2" using run_exit_ok [OF t k] run(1) by auto
  then show ?thesis using run(2,3) k by (intro tables_back) (auto simp: add.commute)
qed

lemma boot_enter_tables:
  assumes "tables v 0 0 r s" "run_enter e (init_name s) place_init (init_processes s) = ret x"
  shows "entered v 0 (ram s) x"
proof -
  have "tables v 0 0 (int 0) (init_processes s)" using tables_init [OF assms(1)] by simp
  from yieldsD [OF run_enter_tables [OF this _ place_init_ok] assms(2)] show ?thesis by (simp add: init_processes_def)
qed

lemma return_inv:
  assumes inv: "session_inv v (s, (pid, segment, caller) # f # fr)" and run: "run_exit 0 pid segment s = Inr (rc', s2)"
    "put_params 0 x s2 = Inr s3" "set_running_proc caller s3 = Inr s'"
  shows "session_inv v (s', f # fr)"
proof -
  obtain k' where top: "(pid, segment, caller) = (int k' + 1, seg_base (k' + 2), int k')" "f # fr = frames_of k'" "k' < 8"
      "tables v (Suc k') (Suc k') (int k' + 1) s"
    using session_inv_top [OF inv] by metis
  then obtain k where k': "k' = Suc k" by (cases k') simp_all
  have "tables v (Suc k) (Suc k) (int k + 1) s'"
    using return_tables [of v k s] run top(1,3,4) unfolding k' by blast
  then show ?thesis using session_inv_topI [of v k s'] top(3) unfolding top(2) k' by simp
qed

lemma init_return_inv:
  assumes inv: "session_inv v (s, [(pid, segment, caller)])" and run: "run_exit 0 pid segment s = Inr (rc', s')"
  shows "session_inv v (s', [])"
proof -
  obtain k where top: "(pid, segment, caller) = (int k + 1, seg_base (k + 2), int k)" "[] = frames_of k" "k < 8"
      "tables v (Suc k) (Suc k) (int k + 1) s"
    using session_inv_top [OF inv] by metis
  then have "k = 0" by (cases k) simp_all
  with run_exit_ok [OF top(4,3)] run top(1) have "tables v 0 0 1 s'" by auto
  then show ?thesis by (auto simp: session_inv_empty)
qed

lemma boot_fails_inv:
  assumes inv: "session_inv v (s, [])" and run: "run_enter e (init_name s) place_init (init_processes s) = ret (rc, pid, segment, s1)"
    "rc \<noteq> 0" "run_exit rc pid segment s1 = Inr (rc', s')"
  shows "session_inv v (s', [])"
proof -
  obtain r where "tables v 0 0 r s" using inv by (auto simp: session_inv_empty)
  from boot_enter_tables [OF this run(1)] run(2)
  have "rc = 1" "segment = seg_base (0 + 2)" "tables v 0 (Suc 0) (int 0) s1" by (auto simp: entered_def)
  with run_exit_missing [of v 0 "int 0" s1 pid] run(3) have "tables v 0 0 0 s'" by auto
  then show ?thesis by (auto simp: session_inv_empty)
qed

lemma session_step_inv:
  assumes step: "session_step e m a m'" and inv: "session_inv v m" and fit: "within m a"
  shows "session_inv v m'"
  using step
proof cases
  case (step_call service b s s' f fr)
  with inv obtain k where fr: "f # fr = frames_of (Suc k)" "k < 8" and t: "tables v (Suc k) (Suc k) (int k + 1) s"
    using session_inv_top by metis
  from session_inv_topI [OF service_keeps(2) [OF t fr(2) step_call(5,6)] fr(2)] show ?thesis unfolding step_call(3) fr(1) .
next
  case (step_poke s f fr a v)
  with inv show ?thesis
    by (auto simp: session_inv_def tables_def kinv_def fds_ready_def procs_wf_def procs_busy_def)
next
  case (step_exec b s pid segment s' f fr)
  with inv obtain k where fr: "f # fr = frames_of (Suc k)" and t: "tables v (Suc k) (Suc k) (int k + 1) s"
    using session_inv_top by metis
  have k: "Suc k < 8" using fit step_exec(1,2) arg_cong [OF fr, of length] by simp
  have "get_running_proc s = int (Suc k)" using t by (simp add: get_running_proc_def tables_def)
  then show ?thesis
    using exec_inv [OF t k step_exec(4,5)] session_inv_topI [of v "Suc k" s'] k unfolding step_exec(3) fr
    by (simp add: entered_def)
next
  case (step_exec_fails b s rc pid segment s1 rc' s2 s3 s' f fr)
  with inv obtain k where fr: "f # fr = frames_of (Suc k)" and t: "tables v (Suc k) (Suc k) (int k + 1) s"
    using session_inv_top by metis
  have k: "Suc k < 8" using fit step_exec_fails(1,2) arg_cong [OF fr, of length] by simp
  from session_inv_topI [OF exec_fails_tables [OF t k step_exec_fails(4-9)]] k show ?thesis unfolding step_exec_fails(3) fr by simp
next
  case (step_return pid segment s rc' s2 s3 caller s' f fr)
  with inv show ?thesis by (blast intro: return_inv)
next
  case (step_boot s pid segment s')
  with inv obtain r where "tables v 0 0 r s" by (auto simp: session_inv_empty)
  from boot_enter_tables [OF this step_boot(4)] show ?thesis
    using session_inv_topI [of v 0 s'] step_boot by (simp add: entered_def)
next
  case (step_boot_fails s rc pid segment s1 rc' s')
  with inv show ?thesis by (blast intro: boot_fails_inv)
next
  case (step_init_returns pid segment s rc' s' caller)
  with inv show ?thesis by (blast intro: init_return_inv)
qed

section \<open>Start-up\<close>

text \<open>The variables as the kernel's image holds them, and the descriptors opened so far.\<close>

definition booting :: "int set \<Rightarrow> mem_seg list \<Rightarrow> kstate \<Rightarrow> bool" where
  "booting a g s \<longleftrightarrow> procs_wf s \<and> procs_busy s = {} \<and> files_wf s \<and> num_ok (uitoa_buf s) \<and> length (params s) = 576
     \<and> seg_arr s = g \<and> length g = NUM_SEG \<and> length (fd_list s) = 5
     \<and> fd_pfd (fd_list s ! 2) \<in> {-1, 0} \<and> fd_pfd (fd_list s ! 3) \<in> {-1, 0}
     \<and> (\<forall>fd\<in>{0, 1, 4}. fd \<in> a \<longrightarrow> fd_pfd (fd_list s ! nat fd) = -1) \<and> (5 \<in> a \<longrightarrow> fd_pfd (fd_after s) = 4
       \<and> fd_pfd_offset (fd_after s) = root_directory_start (s_pos s))"

lemma zero_state_booting: "booting {} (seg_arr zero_state) zero_state"
proof -
  have "procs_busy zero_state = {}"
    by (auto simp: procs_busy_def zero_state_def NUM_PROCESSES_def zero_proc_def)
  then show ?thesis
    by (simp add: booting_def zero_state_procs) (simp add: zero_state_def num_ok_def NUM_SEG_def zero_fd_def files_wf_def fdesc_wf_def list_all_iff)
qed

lemma booting_free [simp]:
  "booting a g (s\<lparr>console := c\<rparr>) = booting a g s" "booting a g (s\<lparr>ram := m\<rparr>) = booting a g s"
  "5 \<notin> a \<Longrightarrow> booting a g (s\<lparr>s_pos := p\<rparr>) = booting a g s" "booting a g (s\<lparr>drv := d\<rparr>) = booting a g s"
  by (auto simp: booting_def procs_wf_def procs_busy_def)

lemma booting_bs: "booting a g s \<Longrightarrow> length b = 512 \<Longrightarrow> booting a g (s\<lparr>bs := b\<rparr>)"
  by (auto simp: booting_def files_wf_def procs_wf_def procs_busy_def)

lemma booting_sector: "booting a g s \<Longrightarrow> length (bs s) = 512"
  by (simp add: booting_def files_wf_def)

lemma booting_pos: "booting a g s \<Longrightarrow> booting a g (s\<lparr>fd_list := (fd_list s)[4 := (fd_list s ! 4)\<lparr>fd_pos := p\<rparr>]\<rparr>)"
  using files_wf_upd(1) [of s "\<lambda>d. d\<lparr>fd_pos := p\<rparr>" 4]
  by (auto simp: booting_def procs_wf_def procs_busy_def path_ok_def)

lemma open_devices:
  "open_fd (cstr ''/dev/stdout'') 0 0 s = rbind (cfd_upd 0 1 stream_fd s) (\<lambda>s. Inr (1, s))"
  "open_fd (cstr ''/dev/stdin'') 0 0 s = rbind (cfd_upd 0 0 stream_fd s) (\<lambda>s. Inr (0, s))"
  "open_fd (cstr ''/dev/fdb'') 0 0 s = rbind (cfd_upd 0 4 device_fd s) (\<lambda>s. Inr (4, s))"
  "open_fd (cstr ''/'') 0 0 s = rbind (cfd_upd 0 5 (root_fd s) s) (\<lambda>s. Inr (5, s))"
  by (simp_all add: open_fd_def cstr_def of_char_def)

lemma open_paths: "path_ok stream_fd" "path_ok device_fd" "path_ok (root_fd s)"
  by (simp_all add: path_ok_def device_fd_def stream_fd_def root_fd_def)

lemma booting_open:
  assumes "booting a g s"
  shows "\<exists>s'. open_fd (cstr ''/dev/stdout'') 0 0 s = Inr (1, s') \<and> booting (insert 1 a) g s'"
    and "\<exists>s'. open_fd (cstr ''/dev/stdin'') 0 0 s = Inr (0, s') \<and> booting (insert 0 a) g s'"
    and "\<exists>s'. open_fd (cstr ''/dev/fdb'') 0 0 s = Inr (4, s') \<and> booting (insert 4 a) g s'"
    and "\<exists>s'. open_fd (cstr ''/'') 0 0 s = Inr (5, s') \<and> booting (insert 5 a) g s'"
  using assms files_wf_upd(1) [of s stream_fd] files_wf_upd(1) [of s device_fd] files_wf_upd(2) [of s "root_fd s"] open_paths
  by (auto simp: open_devices cfd_upd_def kfd_upd_def booting_def procs_wf_def procs_busy_def stream_fd_def device_fd_def root_fd_def get_root_offset_def)

text \<open>Before the table is ready, output and the drive change the console and the drive's position only.\<close>

definition console_only :: "kstate \<Rightarrow> kstate \<Rightarrow> bool" where
  "console_only s s' \<longleftrightarrow> (\<exists>c. s' = s\<lparr>console := c\<rparr>)"

lemma console_only_refl: "console_only s s"
  unfolding console_only_def by (intro exI [of _ "console s"]) simp

lemma console_only_trans: "console_only s s' \<Longrightarrow> console_only s' s'' \<Longrightarrow> console_only s s''"
  by (auto simp: console_only_def)

lemma console_only_emit: "console_only s s' \<Longrightarrow> console_only s (emit ev s')"
  by (auto simp: console_only_def emit_def)

lemma write_loop_console: "console_only s0 s \<Longrightarrow> delivers (console_only s0) (write_loop b i n s)"
proof (induction n arbitrary: i s)
  case (Suc n)
  then have "delivers (console_only s0) (write_loop b (Suc i) n (b_putchar ch s))" for ch
    by (simp add: b_putchar_def console_only_emit)
  then show ?case by (simp add: load_byte_def)
qed simp

lemma printk_console: "delivers (console_only s) (printk t s)"
proof -
  have "delivers (\<lambda>r. console_only s (snd r)) (write_fd 1 t n 0 s)" for n
    unfolding write_fd_def
    by (intro delivers_if delivers_rbind [OF write_loop_console [OF console_only_refl]]) (simp_all add: console_only_refl)
  then show ?thesis
    unfolding printk_def case_prod_beta by (intro delivers_bind delivers_rbind [where Q = "\<lambda>r. console_only s (snd r)"]) simp_all
qed

lemma read_loop_console:
  "console_only s0 s \<Longrightarrow> delivers (\<lambda>r. console_only s0 (snd r) \<and> length (fst r) = length buf)
     (read_loop e drive cyl h sec k nb buf at off s)"
proof (induction k arbitrary: cyl h sec nb buf at off s)
  case (Suc k)
  have report: "delivers (console_only s0) (if status \<noteq> 0 then rbind (printk read_error_msg s) (\<lambda>s. Inr (halt s)) else Inr s)"
    for status :: int
    using Suc.prems
    by (auto intro!: delivers_rbind [OF printk_console] console_only_emit simp: halt_def intro: console_only_trans)
  have rest: "delivers (\<lambda>r. console_only s0 (snd r) \<and> length (fst r) = length buf)
      (rbind (memcpy_at buf at src n) (\<lambda>b. read_loop e drive cyl h sec k nb b at' off s'))"
    if "console_only s0 s'" for src n cyl h sec nb at' off s'
    using Suc.IH [OF that] by (rule_tac delivers_rbind [OF memcpy_at_length]) (metis (mono_tags, lifting) delivers_mono)
  show ?case
    unfolding read_loop.simps Let_def case_prod_beta
    by (rule delivers_rbind [OF report]) (rule rest)
qed simp

lemma booting_console: "booting a g s \<Longrightarrow> console_only s s' \<Longrightarrow> booting a g s'"
  by (auto simp: console_only_def)

lemma seek_read_booting:
  assumes "booting a g s" "4 \<in> a"
  shows "yields (\<lambda>r. booting a g (snd r) \<and> length (fst r) = length b) (seek_read e 4 off b n s)"
proof -
  let ?s = "s\<lparr>fd_list := (fd_list s)[4 := (fd_list s ! 4)\<lparr>fd_pos := off\<rparr>]\<rparr>"
  let ?Q = "\<lambda>r. booting a g (snd (snd r)) \<and> length (fst (snd r)) = length b"
  have len: "length (fd_list s) = 5" and leaf: "fd_pfd (fd_list s ! 4) = -1" using assms by (auto simp: booting_def)
  have b4: "booting a g ?s" by (rule booting_pos [OF assms(1)])
  have fin: "yields ?Q (read_done 4 n b' s')" if "booting a g s'" "length b' = length b" for n b' s'
    using booting_pos [OF that(1)] that(2) by (simp add: read_done_def kfd_upd_def)
  have "delivers (\<lambda>r. booting a g (snd r) \<and> length (fst r) = length b) (read_floppy e 4 pos b n ?s)" for pos
    unfolding read_floppy_def using b4
    by (auto intro!: delivers_bind delivers_mono [OF read_loop_console [OF console_only_refl]] intro: booting_console)
  then have "yields ?Q (read_fd e 4 b n 0 ?s)"
    using len leaf
    by (subst read_fd.simps) (auto simp: kfd_get_def read_device_def intro!: yields_obind [where Q = ?Q]
        yields_obind [where Q = "\<lambda>r. booting a g (snd r) \<and> length (fst r) = length b"] fin)
  then show ?thesis
    using len by (auto simp: seek_read_def lseek_def cfd_upd_def kfd_upd_def intro!: yields_obind)
qed

lemma read_boot_sector_booting: "booting a g s \<Longrightarrow> 4 \<in> a \<Longrightarrow> 5 \<notin> a \<Longrightarrow> yields (booting a g) (read_boot_sector e s)"
  unfolding read_boot_sector_def Let_def case_prod_beta
  by (rule yields_obind [OF seek_read_booting], assumption+)
    (rule yields_obind [where Q = "\<lambda>_. True"], simp_all add: delivers_def booting_bs booting_sector)

lemma mount_booting:
  assumes "booting a g s" "5 \<notin> a"
  shows "yields (booting (insert 5 (insert 4 a)) g) (mount e (cstr ''/dev/fdb'') s)"
proof -
  obtain s1 where s1: "open_drive s = Inr (4, s1\<lparr>drv := 4\<rparr>)" and b1: "booting (insert 4 a) g (s1\<lparr>drv := 4\<rparr>)"
    using booting_open(3) [OF assms(1)] by (auto simp: open_drive_def)
  have strcmp: "strcmp (cstr ''/dev/fdb'') (cstr ''/dev/fdb'') = Inr 0" by (simp add: cstr_def)
  have root: "yields (booting (insert 5 (insert 4 a)) g) (obind (Some (open_fd (cstr ''/'') 0 0 s')) (\<lambda>r. ret (snd r)))"
    if "booting (insert 4 a) g s'" for s'
    using booting_open(4) [OF that] by auto
  show ?thesis
    unfolding mount_def strcmp s1 obind_simps if_P [OF refl] snd_conv
  proof (rule yields_obind [OF read_boot_sector_booting [OF b1]], goal_cases)
    case (3 x)
    show ?case
    proof (rule yields_obind [where Q = "\<lambda>r. booting (insert 4 a) g (snd r)"], goal_cases)
      case 1
      show ?case using yields_mono [OF seek_read_booting] 3 by (simp add: read_fat_def)
    next
      case (2 r)
      then show ?case by (rule root)
    qed
  qed (use assms(2) in simp_all)
qed


lemma startk_init_booting:
  assumes "booting {} g s"
  shows "yields (booting {0, 1, 4, 5} (init_seg g)) (startk_init e s)"
proof -
  obtain s1 where s1: "open_fd (cstr ''/dev/stdout'') 0 0 s = Inr (1, s1)" and b1: "booting {1} g s1"
    using booting_open(1) [OF assms] by auto
  have rest: "yields (booting {0, 1, 4, 5} (init_seg g)) (obind (mount e (cstr ''/dev/fdb'') (set_ivt (s'\<lparr>seg_arr := init_seg (seg_arr s')\<rparr>))) (\<lambda>s.
     obind (Some (open_fd (cstr ''/dev/stdin'') 0 0 s)) (\<lambda>r. ret (sti (snd r)))))" if "booting {1} g s'" for s'
  proof -
    have "booting {1} (init_seg g) (s'\<lparr>seg_arr := init_seg (seg_arr s')\<rparr>)"
      using that by (auto simp: booting_def procs_wf_def procs_busy_def init_seg_def)
    then have "booting {1} (init_seg g) (set_ivt (s'\<lparr>seg_arr := init_seg (seg_arr s')\<rparr>))"
      by (simp add: set_ivt_def poke16_def)
    then show ?thesis
    proof (rule yields_obind [OF mount_booting], goal_cases)
      case (2 q)
      from booting_open(2) [OF this] show ?case by (auto simp: sti_def emit_def insert_commute)
    qed simp
  qed
  show ?thesis
    unfolding startk_init_def s1 obind_simps Let_def case_prod_beta snd_conv
  proof (rule yields_obind [where Q = "booting {1} g"], goal_cases)
    case 1
    show ?case using b1 by (auto intro: delivers_mono [OF printk_console] booting_console)
  qed (rule rest)
qed

lemma booting_tables: "booting {0, 1, 4, 5} (init_seg g) s \<Longrightarrow> tables (bs s, s_pos s) 0 0 (running_proc s) s"
  using init_seg_wf [of g] init_seg_busy [of g]
  by (auto simp: booting_def tables_def kinv_def fds_ready_def init_seg_def)

section \<open>Reachable states\<close>

inductive reachable :: "env \<Rightarrow> kstate \<Rightarrow> kstate \<times> frame list \<Rightarrow> bool" for e s0 where
  reach_start: "startk_init e s0 = ret s \<Longrightarrow> reachable e s0 (s, [])"
| reach_step: "reachable e s0 m \<Longrightarrow> session_step e m a m' \<Longrightarrow> within m a \<Longrightarrow> reachable e s0 m'"

lemma reachable_inv:
  "reachable e s0 m \<Longrightarrow> booting {} g s0 \<Longrightarrow> startk_init e s0 = ret s1 \<Longrightarrow> session_inv (bs s1, s_pos s1) m"
proof (induction rule: reachable.induct)
  case (reach_start s)
  then have "booting {0, 1, 4, 5} (init_seg g) s" "s1 = s" using yieldsD [OF startk_init_booting] by auto
  then show ?case using booting_tables by (auto simp: session_inv_empty)
next
  case (reach_step m a m')
  then show ?case using session_step_inv by blast
qed

text \<open>The same with its actions: \<open>history e d s0 acts m\<close> when the system comes from start-up to \<open>m\<close> by the actions
  \<open>acts\<close>, and every run call among them, whether it succeeds or fails, was made with fewer than \<open>d\<close> programs entered.\<close>

inductive history :: "env \<Rightarrow> nat \<Rightarrow> kstate \<Rightarrow> action list \<Rightarrow> kstate \<times> frame list \<Rightarrow> bool" for e d s0 where
  hist_start: "startk_init e s0 = ret s \<Longrightarrow> history e d s0 [] (s, [])"
| hist_step: "history e d s0 acts m \<Longrightarrow> session_step e m a m' \<Longrightarrow> (\<And>b. a = Exec b \<Longrightarrow> length (snd m) < d) \<Longrightarrow>
    history e d s0 (acts @ [a]) m'"

lemma history_reachable: "history e d s0 acts m \<Longrightarrow> d \<le> 8 \<Longrightarrow> reachable e s0 m"
proof (induction rule: history.induct)
  case (hist_start s)
  from hist_start.hyps show ?case by (rule reach_start)
next
  case (hist_step acts m a m')
  have "within m a" using hist_step.hyps(3) hist_step.prems by (cases a) auto
  with hist_step show ?case by (auto intro: reach_step)
qed

lemma reachable_start: "reachable e s0 m \<Longrightarrow> \<exists>s1. startk_init e s0 = ret s1"
  by (induction rule: reachable.induct) auto

lemma reachable_tables:
  assumes "booting {} g s0" "reachable e s0 (s, fr)"
  obtains n r s1 where "startk_init e s0 = ret s1" "n \<le> 8" "fr = frames_of n" "n \<noteq> 0 \<longrightarrow> r = int n"
    "tables (bs s1, s_pos s1) n n r s"
proof -
  obtain s1 where "startk_init e s0 = ret s1" using reachable_start [OF assms(2)] by blast
  with reachable_inv [OF assms(2,1) this] that show thesis by (auto simp: session_inv_def)
qed

lemma frames_of_nth: "i < n \<Longrightarrow> frames_of n ! i = (int (n - i), seg_base (n - i + 1), int (n - i) - 1)"
proof (induction n arbitrary: i)
  case (Suc n)
  then show ?case by (cases i) (simp_all add: Suc_diff_le)
qed simp

text \<open>The memory of a frame's segment.\<close>

definition segment_memory :: "frame \<Rightarrow> nat set" where
  "segment_memory f = {unat (fst (snd f)) * 16..<unat (fst (snd f)) * 16 + 65536}"

lemma segment_memory_frame:
  assumes "n \<le> 8" "i < n"
  shows "segment_memory (frames_of n ! i) = {(n - i + 1) * 65536..<(n - i + 1) * 65536 + 65536}"
proof -
  have "unat (seg_base (n - i + 1)) = (n - i + 1) * 4096"
    using assms by (intro unat_seg_base) (simp add: NUM_SEG_def)
  then show ?thesis using assms by (simp add: segment_memory_def frames_of_nth mult.commute)
qed

lemma segment_memory_disjoint:
  assumes "n \<le> 8" "i < n" "j < n" "i \<noteq> j"
  shows "segment_memory (frames_of n ! i) \<inter> segment_memory (frames_of n ! j) = {}"
proof -
  have "n - i + 1 \<noteq> n - j + 1" using assms by auto
  then consider "n - i + 1 + 1 \<le> n - j + 1" | "n - j + 1 + 1 \<le> n - i + 1" by linarith
  then show ?thesis
    unfolding segment_memory_frame [OF assms(1,2)] segment_memory_frame [OF assms(1,3)] by cases auto
qed

section \<open>The kernel's own composition\<close>

text \<open>
  \<open>dispatch\<close> and the loop of \<open>startk\<close> call the program between entering and leaving it.  For a
  program that itself behaves by steps, both are runs of steps.
\<close>

definition session_steps :: "env \<Rightarrow> kstate \<times> frame list \<Rightarrow> kstate \<times> frame list \<Rightarrow> bool" where
  "session_steps e = (\<lambda>m m'. \<exists>a. session_step e m a m')\<^sup>*\<^sup>*"

definition session_program :: "env \<Rightarrow> (u32 \<Rightarrow> kstate \<Rightarrow> kstate run) \<Rightarrow> bool" where
  "session_program e farcall \<longleftrightarrow> (\<forall>segment s1 s2 pid caller fr. farcall segment s1 = ret s2 \<longrightarrow>
     session_steps e (s1, (pid, segment, caller) # fr) (s2, (pid, segment, caller) # fr))"

lemma session_steps_one: "session_step e m a m' \<Longrightarrow> session_steps e m m'"
  by (auto simp: session_steps_def)

lemma session_steps_trans [trans]: "session_steps e m m' \<Longrightarrow> session_steps e m' m'' \<Longrightarrow> session_steps e m m''"
  by (simp add: session_steps_def)

lemma session_steps_refl: "session_steps e m m"
  by (simp add: session_steps_def)

lemma dispatch_runs_session_eq:
  assumes prog: "session_program e farcall" and b: "length b = 576"
    and run: "dispatch farcall e service (s\<lparr>params := b\<rparr>) = ret s'"
  shows "session_steps e (s, f # fr) (s', f # fr)"
proof (cases "service = 7")
  case False
  with run have "service_call e service (s\<lparr>params := b\<rparr>) = ret s'" by (simp add: dispatch_def)
  from session_steps_one [OF step_call [OF False b this]] show ?thesis .
next
  case True
  obtain rc s2 s3 where 1: "run_program farcall e b place_params (s\<lparr>params := b\<rparr>) = ret (rc, s2)"
      and 2: "put_params 0 (bytes32 (word_of_int rc)) s2 = Inr s3"
      and 3: "set_running_proc (get_running_proc s) s3 = Inr s'"
    using run by (fastforce simp: dispatch_def True Let_def get_running_proc_def obind_ret_iff)
  obtain rc1 pid segment s1 s4 where enter: "run_enter e b place_params (s\<lparr>params := b\<rparr>) = ret (rc1, pid, segment, s1)"
      and body: "(if rc1 = 0 then farcall segment s1 else ret s1) = ret s4"
      and leave: "run_exit rc1 pid segment s4 = Inr (rc, s2)"
    using 1 by (fastforce simp: run_program_def obind_ret_iff)
  show ?thesis
  proof (cases "rc1 = 0")
    case True
    have "session_steps e (s, f # fr) (s1, (pid, segment, get_running_proc s) # f # fr)"
      using step_exec [OF b enter [unfolded True]] by (rule session_steps_one)
    also have "session_steps e \<dots> (s4, (pid, segment, get_running_proc s) # f # fr)"
      using prog body True by (simp add: session_program_def)
    also have "session_steps e \<dots> (s', f # fr)"
      using step_return [OF leave [unfolded True] 2 3] by (rule session_steps_one)
    finally show ?thesis .
  next
    case False
    with body have "s4 = s1" by simp
    with leave have "run_exit rc1 pid segment s1 = Inr (rc, s2)" by simp
    from session_steps_one [OF step_exec_fails [OF b enter False this 2 3]] show ?thesis .
  qed
qed

lemma boot_runs_session_eq:
  assumes prog: "session_program e farcall"
    and run: "run_program farcall e (init_name s) place_init (init_processes s) = ret (rc, s')"
  shows "session_steps e (s, []) (s', [])"
proof -
  obtain rc1 pid segment s1 s4 where enter: "run_enter e (init_name s) place_init (init_processes s) = ret (rc1, pid, segment, s1)"
      and body: "(if rc1 = 0 then farcall segment s1 else ret s1) = ret s4"
      and leave: "run_exit rc1 pid segment s4 = Inr (rc, s')"
    using run by (fastforce simp: run_program_def obind_ret_iff)
  show ?thesis
  proof (cases "rc1 = 0")
    case True
    have "session_steps e (s, []) (s1, [(pid, segment, 0)])"
      using step_boot [OF enter [unfolded True]] by (rule session_steps_one)
    also have "session_steps e \<dots> (s4, [(pid, segment, 0)])"
      using prog body True by (simp add: session_program_def)
    also have "session_steps e \<dots> (s', [])"
      using step_init_returns [OF leave [unfolded True]] by (rule session_steps_one)
    finally show ?thesis .
  next
    case False
    with body have "s4 = s1" by simp
    with leave have "run_exit rc1 pid segment s1 = Inr (rc, s')" by simp
    from session_steps_one [OF step_boot_fails [OF enter False this]] show ?thesis .
  qed
qed

end
