(* ===== verification/Running.thy ===== *)
theory Running
  imports Sessions
begin

text \<open>
  Running a program on a mounted volume, from the name to the loaded segment: \<open>run_program\<close> of
  kernel/kernel.c put together from the directory, the FAT chain, the segments and the process
  table.
\<close>

section \<open>The mounted volume\<close>

definition mounted :: "env \<Rightarrow> 12 word list \<Rightarrow> nat \<Rightarrow> kstate \<Rightarrow> bool" where
  "mounted e es n s \<longleftrightarrow> vol_ok e es s \<and> dir_ok e s n \<and> n \<le> 256"

text \<open>The directory's entries, and the file a name leads to: the name is compared in upper case, and
  without an extension.\<close>

definition volume_entries :: "env \<Rightarrow> nat \<Rightarrow> kstate \<Rightarrow> Fat16Entry list" where
  "volume_entries e n s = map (dir_entry e s) [0..<n]"

definition program_entry :: "env \<Rightarrow> nat \<Rightarrow> kstate \<Rightarrow> byte list \<Rightarrow> Fat16Entry option" where
  "program_entry e n s name =
     find (\<lambda>f. is_file f \<and> field_text (filename f) = map upper_byte (cval name)) (volume_entries e n s)"

text \<open>States that agree on what is known of the volume.\<close>

definition same_volume :: "kstate \<Rightarrow> kstate \<Rightarrow> bool" where
  "same_volume s s' \<longleftrightarrow> bs s' = bs s \<and> s_pos s' = s_pos s \<and> fd_pfd_offset (fd_after s') = fd_pfd_offset (fd_after s)"

lemma same_volume_step: "dir_step t s s' \<Longrightarrow> same_volume s s'"
  by (simp add: same_volume_def dir_step_def)

lemma same_volume_tables: "tables v n m r s \<Longrightarrow> tables v n' m' r' s' \<Longrightarrow> same_volume s s'"
  by (simp add: same_volume_def tables_def kinv_def)

lemma same_volume_entries:
  assumes "same_volume s s'"
  shows "dir_entry e s' = dir_entry e s" "volume_entries e n s' = volume_entries e n s"
    "program_entry e n s' name = program_entry e n s name"
proof -
  show d: "dir_entry e s' = dir_entry e s" using assms by (simp add: fun_eq_iff dir_entry_def same_volume_def)
  then show "volume_entries e n s' = volume_entries e n s" "program_entry e n s' name = program_entry e n s name"
    by (simp_all add: program_entry_def volume_entries_def)
qed

lemma mounted_same:
  assumes "mounted e es n s" "same_volume s s'" "fds_ready s'" "num_ok (uitoa_buf s')"
  shows "mounted e es n s'"
  using assms same_volume_entries(1) [OF assms(2)]
  by (simp add: mounted_def vol_ok_def dir_ok_def same_volume_def cluster_size_def bs_sector_size_def
      bs_sectors_per_cluster_def bs_root_dir_entries_def dir_readable_def)

lemma mounted_tables:
  assumes "mounted e es n s" "tables v k m r s" "tables v k' m' r' s'"
  shows "mounted e es n s'"
  using mounted_same [OF assms(1) same_volume_tables [OF assms(2,3)]] assms(3) by (simp add: tables_def kinv_def)

lemma upper_byte_NUL: "upper_byte c = 0 \<longleftrightarrow> c = 0"
  by (auto simp: upper_byte_def)

lemma stoupper_name:
  assumes "terminated name"
  obtains nm where "stoupper name = Inr nm" "terminated nm" "cval nm = map upper_byte (cval name)" "length nm = length name"
proof -
  define nm where "nm = map upper_byte (cval name) @ drop (length (cval name)) name"
  have tail: "drop (length (cval name)) name = 0 # drop (Suc (length (cval name))) name"
    by (subst (2) cval_split [OF assms]) simp
  have "0 \<notin> set (map upper_byte (cval name))" using cval_nonzero by (auto simp: upper_byte_NUL)
  then have "terminated nm" "cval nm = map upper_byte (cval name)"
    unfolding nm_def tail by (simp_all add: cval_append_NUL)
  moreover have "length nm = length name" using cval_length [OF assms] by (simp add: nm_def)
  ultimately show thesis using stoupper_eq [OF assms] by (intro that [of nm]) (simp_all add: nm_def)
qed

text \<open>The directory is read and searched: what \<open>load\<close> does before it loads.\<close>

lemma directory_search:
  assumes m: "mounted e es n s" and name: "terminated nm" "cval nm = map upper_byte (cval name)"
  obtains s' files where "get_root_files e (map entry_of (junk_entries e)) s = ret (files, s')" "dir_step (scan_text n) s s'"
    "\<And>g. get_file e files nm g s' = ret (case program_entry e n s name of None \<Rightarrow> (-1, g) | Some f \<Rightarrow> (0, f))"
proof -
  let ?junk = "map entry_of (junk_entries e)"
  have dir: "env_ok e" "disk_ok e 1" "fds_ready s" "num_ok (uitoa_buf s)" "n = unat (bs_root_dir_entries s)" "dir_readable s n"
    and names: "\<And>i. i < n \<Longrightarrow> is_file (dir_entry e s i) \<Longrightarrow> names_ok (dir_entry e s i)"
    and n: "n \<le> 256" using m by (auto simp: mounted_def dir_ok_def)
  have junk: "length (junk_entries e) = 256" "\<forall>f\<in>set ?junk. entry_wf f"
    using dir(1) entry_of_wf by (auto simp: env_ok_def list_all_iff)
  then obtain s' where s': "get_root_files e ?junk s = ret (map (dir_entry e s) [0..<n] @ drop n ?junk, s')" "dir_step (scan_text n) s s'"
    using get_root_files_eq [OF dir, of ?junk] n by auto
  let ?files = "map (dir_entry e s) [0..<n] @ drop n ?junk"
  have "get_file e ?files nm g s' = ret (case program_entry e n s name of None \<Rightarrow> (-1, g) | Some f \<Rightarrow> (0, f))" for g
  proof -
    have "n = unat (bs_root_dir_entries s')" using dir_step_dir(3) [OF s'(2)] dir(5) by simp
    then have "get_file e ?files nm g s' = ret
       (case find (\<lambda>f. is_file f \<and> field_text (filename f) = cval nm) (take n ?files) of
          None \<Rightarrow> (-1, g) | Some f \<Rightarrow> (0, f))"
      using dir(1) n junk(1) name names dir_entry_wf
      by (intro get_file_eq) (simp_all add: nth_append)
    then show ?thesis
      using name by (simp add: program_entry_def volume_entries_def)
  qed
  with s' show thesis by (intro that)
qed

section \<open>Progress\<close>

text \<open>The part of a descriptor that tells the program apart.\<close>

definition identity :: "proc \<Rightarrow> byte list \<times> u32" where
  "identity p = (cval (p_name p), p_size p)"

lemma identity_update: "identity p = identity (ps ! i) \<Longrightarrow> identity (ps[i := p] ! j) = identity (ps ! j)"
  by (cases "i = j"; cases "i < length ps") (simp_all add: list_update_beyond)

lemma identity_fields [simp]:
  "identity (p\<lparr>p_pid := i\<rparr>) = identity p" "identity (p\<lparr>p_state := st\<rparr>) = identity p" "identity (p\<lparr>files_table := ft\<rparr>) = identity p"
  by (simp_all add: identity_def)

text \<open>The entered programs are in their slots as before; further ones may have been entered.\<close>

definition rows_kept :: "kstate \<Rightarrow> kstate \<Rightarrow> bool" where
  "rows_kept s s' \<longleftrightarrow> (\<forall>j\<in>procs_busy s. j \<in> procs_busy s' \<and> identity (processes s' ! j) = identity (processes s ! j))"

lemma rows_kept_trans: "rows_kept s v \<Longrightarrow> rows_kept v w \<Longrightarrow> rows_kept s w"
  by (simp add: rows_kept_def)

lemma rows_kept_same: "processes s' = processes s \<Longrightarrow> rows_kept s s'"
  by (simp add: rows_kept_def procs_busy_def)

lemma rows_kept_cong: "processes s1 = processes s \<Longrightarrow> rows_kept s1 s' = rows_kept s s'"
  by (simp add: rows_kept_def procs_busy_def)

lemma rows_kept_simps [simp]:
  "rows_kept s s" "rows_kept (s\<lparr>params := b\<rparr>) s' = rows_kept s s'" "rows_kept s (s'\<lparr>params := b\<rparr>) = rows_kept s s'"
  "rows_kept s (s'\<lparr>uitoa_buf := b\<rparr>) = rows_kept s s'" "rows_kept s (s'\<lparr>kbd := b\<rparr>) = rows_kept s s'"
  "rows_kept s (s'\<lparr>init_name := b\<rparr>) = rows_kept s s'" "rows_kept (s\<lparr>init_name := b\<rparr>) s' = rows_kept s s'"
  "rows_kept s (shown t s') = rows_kept s s'" "rows_kept s (emit ev s') = rows_kept s s'"
  "rows_kept s (s'\<lparr>console := c\<rparr>) = rows_kept s s'"
  by (simp_all add: rows_kept_def procs_busy_def emit_def)

lemma rows_kept_tables:
  assumes "tables v n m r s" "tables v' n' m' r' s'" "n \<le> n'"
    and "\<And>j. j < n \<Longrightarrow> identity (processes s' ! j) = identity (processes s ! j)"
  shows "rows_kept s s'"
  using assms by (simp add: rows_kept_def tables_def)

lemma rows_kept_kept: "kept A s s' \<Longrightarrow> rows_kept s s'"
proof -
  assume k: "kept A s s'"
  have "identity p = identity q" if "own_fields p = own_fields q" for p q
    using arg_cong [OF that, of identity] by (simp add: own_fields_def)
  with k show ?thesis unfolding rows_kept_def kept_def by blast
qed

text \<open>The entered programs in the order of their slots: the name each was run by, in capitals, and the size of its file.\<close>

definition roster :: "(byte list \<times> u32) list \<Rightarrow> kstate \<Rightarrow> bool" where
  "roster rs s \<longleftrightarrow> procs_busy s = {..<length rs} \<and> (\<forall>j<length rs. identity (processes s ! j) = rs ! j)"

lemma roster_length: "roster rs s \<Longrightarrow> tables v n m r s \<Longrightarrow> length rs = n"
  by (simp add: roster_def tables_def)

lemma roster_tables:
  assumes "roster rs s" "rows_kept s s'" "tables v n m r s" "tables v' n m' r' s'"
  shows "roster rs s'"
  using assms by (auto simp: roster_def rows_kept_def tables_def)

lemma roster_entered:
  assumes "roster rs s" "rows_kept s s'" "tables v n m r s" "tables v' (Suc n) m' r' s'" "identity (processes s' ! n) = x"
  shows "roster (rs @ [x]) s'"
  using assms by (auto simp: roster_def rows_kept_def tables_def nth_append less_Suc_eq)

lemma program_entry_is_file:
  assumes "program_entry e n s name = Some f"
  shows "f \<in> set (volume_entries e n s)" "length (cval name) < 32"
proof -
  show f: "f \<in> set (volume_entries e n s)"
    using assms by (auto simp: program_entry_def find_Some_iff)
  then have "length (field_text (filename f)) \<le> 8"
    using field_text_length [of "filename f"] dir_entry_wf by (auto simp: volume_entries_def entry_wf_def)
  moreover have "field_text (filename f) = map upper_byte (cval name)"
    using assms by (auto simp: program_entry_def find_Some_iff)
  ultimately have "length (map upper_byte (cval name)) \<le> 8" by simp
  then show "length (cval name) < 32" by simp
qed

text \<open>The characters among what the outside has seen.\<close>

fun event_chars :: "event \<Rightarrow> byte list" where
  "event_chars (EvChar c) = [c]"
| "event_chars _ = []"

definition chars :: "event list \<Rightarrow> byte list" where
  "chars evs = concat (map event_chars evs)"

lemma chars_simps [simp]: "chars [] = []" "chars (ev # evs) = event_chars ev @ chars evs" "chars (a @ b) = chars a @ chars b"
  by (simp_all add: chars_def)

lemma chars_map [simp]: "chars (map EvChar t) = t"
  by (induction t) simp_all

text \<open>\<open>progress t ks s s'\<close>: the keys \<open>ks\<close> are still to come, \<open>init_name\<close> is as it was, the entered programs keep their slots, and
  the console has only grown; the characters of what was added are \<open>t\<close>.\<close>

definition progress :: "byte list \<Rightarrow> byte list \<Rightarrow> kstate \<Rightarrow> kstate \<Rightarrow> bool" where
  "progress t ks s s' \<longleftrightarrow> kbd s' = ks \<and> init_name s' = init_name s \<and> rows_kept s s'
     \<and> (\<exists>c. console s' = console s @ c \<and> chars c = t)"

lemma progress_trans: "progress t ks s v \<Longrightarrow> progress t' ks' v w \<Longrightarrow> progress (t @ t') ks' s w"
  unfolding progress_def by (auto intro: rows_kept_trans)

lemma progress_same:
  "kbd s' = kbd s \<Longrightarrow> init_name s' = init_name s \<Longrightarrow> console s' = console s \<Longrightarrow> rows_kept s s' \<Longrightarrow> progress [] (kbd s) s s'"
  by (simp add: progress_def)

lemma progress_step: "dir_step t s s' \<Longrightarrow> progress t (kbd s) s s'"
  by (simp add: dir_step_def progress_def rows_kept_same)

lemma progress_kbd: "progress t ks s s' \<Longrightarrow> kbd s' = ks"
  by (simp add: progress_def)

lemma progress_rows: "progress t ks s s' \<Longrightarrow> rows_kept s s'"
  by (simp add: progress_def)

text \<open>Changes of other variables.\<close>

lemma progress_from:
  "progress t ks s0 s' \<Longrightarrow> init_name s = init_name s0 \<Longrightarrow> console s = console s0 \<Longrightarrow> rows_kept s s' \<Longrightarrow> progress t ks s s'"
  by (simp add: progress_def)

lemma progress_to:
  "progress t ks s s' \<Longrightarrow> kbd s'' = kbd s' \<Longrightarrow> init_name s'' = init_name s' \<Longrightarrow> console s'' = console s' \<Longrightarrow> rows_kept s s'' \<Longrightarrow>
   progress t ks s s''"
  by (simp add: progress_def)

section \<open>Loading\<close>

definition program_ok :: "12 word list \<Rightarrow> kstate \<Rightarrow> Fat16Entry \<Rightarrow> nat list \<Rightarrow> bool" where
  "program_ok es s f cs \<longleftrightarrow> cs \<noteq> [] \<and> unat (starting_cluster f) = hd cs \<and> chain es cs
     \<and> (\<forall>d\<in>set cs. cluster_ok es s d) \<and> length cs \<le> 16"

definition program_image :: "env \<Rightarrow> kstate \<Rightarrow> nat list \<Rightarrow> byte list" where
  "program_image e s cs = concat (map (cluster_bytes e s) cs)"

lemma program_same:
  assumes "same_volume s s'"
  shows "program_ok es s' f cs = program_ok es s f cs" "program_image e s' cs = program_image e s cs"
  using assms
  by (simp_all add: program_ok_def program_image_def cluster_ok_def cluster_bytes_def cluster_pos_def same_volume_def
      cong: map_cong)

lemma load_program_image:
  assumes "vol_ok e es s" "program_ok es s f cs" "k < 8"
  obtains p where "load_file_content e f (seg_base (k + 2)) 0 s
    = ret (seek_state p 2 (s\<lparr>ram := store_ram ((k + 2) * 65536) (program_image e s cs) (ram s)\<rparr>))"
proof -
  obtain c cs' where cs: "cs = c # cs'" using assms(2) by (cases cs) (auto simp: program_ok_def)
  have "unat (seg_base (k + 2)) = (k + 2) * 4096" using assms(3) by (intro unat_seg_base) (simp add: NUM_SEG_def)
  then have "unat (ucast (seg_base (k + 2)) :: u16) = (k + 2) * 4096"
    using assms(3) by (simp add: unsigned_ucast_eq take_bit_nat_eq_self)
  moreover have "length (junk_clust_buf e) = 4096" using assms(1) by (simp add: vol_ok_def env_ok_def)
  ultimately show thesis
    using load_file_content_eq [of e es s f c cs' "seg_base (k + 2)"] assms(1,2) that
    unfolding program_ok_def program_image_def cs by (auto simp: mult.commute)
qed

lemma load_found:
  assumes t: "tables v k k (int k) s" and k: "k < 8" and m: "mounted e es n s"
    and name: "terminated name" "length (cval name) < 32"
    and f: "program_entry e n s name = Some f" "program_ok es s f cs"
  obtains nm s' where "load e name pid s = ret (0, int k + 1, seg_base (k + 2), nm, s')" "length nm = length name"
    "tables v (Suc k) (Suc k) (int k) s'" "ram s' = store_ram ((k + 2) * 65536) (program_image e s cs) (ram s)"
    "identity (processes s' ! k) = (map upper_byte (cval name), file_size f)"
    "terminated nm" "cval nm = map upper_byte (cval name)" "progress (scan_text n) (kbd s) s s'"
proof -
  obtain arr where seg: "get_free_seg (junk_seg e) (seg_arr s) = (seg_base (k + 2), arr)"
      and t1: "tables v k (Suc k) (int k) (s\<lparr>seg_arr := arr\<rparr>)"
    using tables_alloc [OF t k] by blast
  let ?s = "s\<lparr>seg_arr := arr\<rparr>"
  have same: "same_volume s ?s" by (simp add: same_volume_def)
  have m1: "mounted e es n ?s" by (rule mounted_tables [OF m t t1])
  obtain nm where nm: "stoupper name = Inr nm" "terminated nm" "cval nm = map upper_byte (cval name)" "length nm = length name"
    using stoupper_name [OF name(1)] .
  obtain s2 files where s2: "get_root_files e (map entry_of (junk_entries e)) ?s = ret (files, s2)" "dir_step (scan_text n) ?s s2"
      and search: "\<And>g. get_file e files nm g s2 = ret (case program_entry e n ?s name of None \<Rightarrow> (-1, g) | Some f \<Rightarrow> (0, f))"
    by (rule directory_search [OF m1 nm(2,3)]) (rule that)
  have found: "get_file e files nm g s2 = ret (0, f)" for g
    using search f(1) by (simp add: same_volume_entries [OF same])
  have vol: "vol_ok e es s2" "program_ok es s2 f cs" "program_image e s2 cs = program_image e s cs"
    using mounted_same [OF m1 same_volume_step] s2(2) program_same [OF same_volume_step [OF s2(2)]] program_same [OF same] f(2)
    by (simp_all add: mounted_def dir_step_def)
  obtain p where load: "load_file_content e f (seg_base (k + 2)) 0 s2
      = ret (seek_state p 2 (s2\<lparr>ram := store_ram ((k + 2) * 65536) (program_image e s cs) (ram s2)\<rparr>))"
    using load_program_image [OF vol(1,2) k] vol(3) by auto
  let ?s3 = "seek_state p 2 (s2\<lparr>ram := store_ram ((k + 2) * 65536) (program_image e s cs) (ram s2)\<rparr>)"
  have procs: "processes ?s3 = processes s" "ram s2 = ram s" "running_proc s2 = int k"
    using s2(2) t by (simp_all add: dir_step_def tables_def)
  let ?p = "filled k nm (seg_base (k + 2)) (seg_base (k + 2)) (seg_base (k + 2)) 0 (int k) (file_size f) (processes s ! k)"
  have wf: "procs_wf s" and busy: "procs_busy s = {..<k}" using t by (simp_all add: tables_def kinv_def)
  have i: "k < NUM_PROCESSES" using k by (simp add: NUM_PROCESSES_def)
  have "procs_wf ?s3" "procs_busy ?s3 = {..<k}"
    using wf busy procs(1) by (simp_all add: procs_wf_def procs_busy_def)
  then have reg: "register_proc nm (seg_base (k + 2)) (seg_base (k + 2)) (seg_base (k + 2)) 0 pid (int k) (file_size f) ?s3
      = Inr (int k + 1, int k + 1, ?s3\<lparr>processes := (processes s)[k := ?p]\<rparr>)"
    using register_proc_first [of ?s3 k nm] i nm name(2) unfolding procs(1) by simp
  have running: "get_running_proc ?s3 = int k" by (simp add: get_running_proc_def procs(3))
  let ?s4 = "?s3\<lparr>processes := (processes s)[k := ?p]\<rparr>"
  have run: "load e name pid s = ret (0, int k + 1, seg_base (k + 2), nm, ?s4)"
    unfolding load_def seg Let_def case_prod_conv s2(1) nm(1) obind_simps found load running reg by simp
  moreover have t4: "tables v (Suc k) (Suc k) (int k) ?s4"
    using yieldsD [OF load_tables [OF t k] run] by (simp add: loaded_def)
  moreover have "identity (processes ?s4 ! k) = (map upper_byte (cval name), file_size f)"
  proof -
    have "0 \<notin> set (map upper_byte (cval name))" using cval_nonzero by (auto simp: upper_byte_NUL)
    then show ?thesis
      using procs_wfD(1) [OF wf i] i nm(3) by (simp add: identity_def filled_def cval_append_NUL)
  qed
  moreover have "progress (scan_text n) (kbd s) s ?s4"
    using progress_step [OF s2(2)] rows_kept_tables [OF t t4] by (simp add: progress_def seek_state_sel)
  ultimately show thesis using nm(2-4) procs(2) by (intro that [of nm ?s4]) simp_all
qed

lemma load_missing:
  assumes t: "tables v k k (int k) s" and k: "k < 8" and m: "mounted e es n s"
    and name: "terminated name" and f: "program_entry e n s name = None"
  obtains nm s' where "load e name pid s = ret (1, pid, seg_base (k + 2), nm, s')" "length nm = length name"
    "tables v k (Suc k) (int k) s'" "ram s' = ram s" "progress (scan_text n) (kbd s) s s'"
proof -
  obtain arr where seg: "get_free_seg (junk_seg e) (seg_arr s) = (seg_base (k + 2), arr)"
      and t1: "tables v k (Suc k) (int k) (s\<lparr>seg_arr := arr\<rparr>)"
    using tables_alloc [OF t k] by blast
  let ?s = "s\<lparr>seg_arr := arr\<rparr>"
  have same: "same_volume s ?s" by (simp add: same_volume_def)
  have m1: "mounted e es n ?s" by (rule mounted_tables [OF m t t1])
  obtain nm where nm: "stoupper name = Inr nm" "terminated nm" "cval nm = map upper_byte (cval name)" "length nm = length name"
    using stoupper_name [OF name] .
  obtain s2 files where s2: "get_root_files e (map entry_of (junk_entries e)) ?s = ret (files, s2)" "dir_step (scan_text n) ?s s2"
      and search: "\<And>g. get_file e files nm g s2 = ret (case program_entry e n ?s name of None \<Rightarrow> (-1, g) | Some f \<Rightarrow> (0, f))"
    by (rule directory_search [OF m1 nm(2,3)]) (rule that)
  have found: "get_file e files nm g s2 = ret (-1, g)" for g
    using search f by (simp add: same_volume_entries [OF same])
  have run: "load e name pid s = ret (1, pid, seg_base (k + 2), nm, s2)"
    unfolding load_def seg Let_def case_prod_conv s2(1) nm(1) obind_simps found by simp
  from yieldsD [OF load_tables [OF t k] run] have "tables v k (Suc k) (int k) s2" by (simp add: loaded_def)
  moreover have "progress (scan_text n) (kbd s) s s2"
    using progress_step [OF s2(2)] rows_kept_cong [of ?s s] by (simp add: progress_def)
  ultimately show thesis using run nm(4) s2(2) by (intro that [of nm s2]) (simp_all add: dir_step_def)
qed

text \<open>A load that returns, whatever the file's chain of clusters: it has found the first file with the name, or none.\<close>

lemma stoupper_InrD: "stoupper s = Inr d \<Longrightarrow> terminated s"
  unfolding stoupper_def by (subst (asm) smap_loop.simps) (simp add: strlen_eq split: if_splits)

definition answers :: "(byte list \<times> u32) option \<Rightarrow> nat \<Rightarrow> kstate \<Rightarrow> int \<Rightarrow> kstate \<Rightarrow> bool" where
  "answers f k s rc s' \<longleftrightarrow> (\<forall>j<k. identity (processes s' ! j) = identity (processes s ! j))
     \<and> (case f of None \<Rightarrow> rc = 1 | Some x \<Rightarrow> rc = 0 \<and> identity (processes s' ! k) = x)"

definition lookup_program :: "env \<Rightarrow> nat \<Rightarrow> kstate \<Rightarrow> byte list \<Rightarrow> (byte list \<times> u32) option" where
  "lookup_program e n s name = map_option (\<lambda>f. (map upper_byte (cval name), file_size f)) (program_entry e n s name)"

lemma load_ret:
  assumes t: "tables v k k (int k) s" and k: "k < 8" and m: "mounted e es n s"
    and run: "load e name pid s = ret (rc, pid', seg, nm, s')"
  shows "terminated name" "cval nm = map upper_byte (cval name)" "init_name s' = init_name s"
    "answers (lookup_program e n s name) k s rc s'"
proof -
  show name: "terminated name"
    using run stoupper_InrD [of name] by (auto simp: load_def obind_ret_iff Let_def split: prod.splits)
  have "cval nm = map upper_byte (cval name) \<and> init_name s' = init_name s \<and> answers (lookup_program e n s name) k s rc s'"
  proof (cases "program_entry e n s name")
    case None
    obtain nm' w where w: "load e name pid s = ret (1, pid, seg_base (k + 2), nm', w)" "tables v k (Suc k) (int k) w"
      "progress (scan_text n) (kbd s) s w" using load_missing [OF t k m name None] .
    obtain nu where nu: "stoupper name = Inr nu" "cval nu = map upper_byte (cval name)" using stoupper_name [OF name] .
    have "nm' = nu" using w(1) nu(1) by (auto simp: load_def obind_ret_iff Let_def split: prod.splits if_splits)
    then show ?thesis
      using w run nu(2) None t by (auto simp: answers_def lookup_program_def progress_def rows_kept_def tables_def)
  next
    case (Some f)
    obtain arr where arr: "get_free_seg (junk_seg e) (seg_arr s) = (seg_base (k + 2), arr)"
        and t1: "tables v k (Suc k) (int k) (s\<lparr>seg_arr := arr\<rparr>)"
      using tables_alloc [OF t k] by blast
    let ?s = "s\<lparr>seg_arr := arr\<rparr>" and ?seg = "seg_base (k + 2)"
    have same: "same_volume s ?s" by (simp add: same_volume_def)
    have m1: "mounted e es n ?s" by (rule mounted_tables [OF m t t1])
    obtain nu where nu: "stoupper name = Inr nu" "terminated nu" "cval nu = map upper_byte (cval name)"
      using stoupper_name [OF name] .
    obtain s2 files where s2: "get_root_files e (map entry_of (junk_entries e)) ?s = ret (files, s2)" "dir_step (scan_text n) ?s s2"
        and search: "\<And>g. get_file e files nu g s2 = ret (case program_entry e n ?s name of None \<Rightarrow> (-1, g) | Some f \<Rightarrow> (0, f))"
      by (rule directory_search [OF m1 nu(2,3)]) (rule that)
    have found: "get_file e files nu g s2 = ret (0, f)" for g
      using search Some by (simp add: same_volume_entries [OF same])
    obtain s3 x where s3: "load_file_content e f ?seg 0 s2 = ret s3"
      "register_proc nu ?seg ?seg ?seg 0 pid (get_running_proc s3) (file_size f) s3 = Inr (x, pid', s')" "rc = 0" "nm = nu"
      using run unfolding load_def arr Let_def case_prod_conv s2(1) nu(1) obind_simps found
      by (auto simp: obind_ret_iff split: prod.splits)
    have k2: "kept {} ?s s2" using yieldsD [OF get_root_files_kept [OF tables_self [OF t1]] s2(1)] by simp
    have k3: "kept (seg_area ?seg) s2 s3"
      using yieldsD [OF load_file_content_kept [OF kept_refl order_refl] s3(1)] keptD [OF k2] by blast
    have t3: "tables v k (Suc k) (int k) s3" by (rule tables_kept [OF tables_kept [OF t1 k2] k3])
    have wf: "procs_wf s3" and busy: "procs_busy s3 = {..<k}" and run3: "get_running_proc s3 = int k"
      using t3 by (simp_all add: tables_def kinv_def get_running_proc_def)
    have i: "k < NUM_PROCESSES" using k by (simp add: NUM_PROCESSES_def)
    have "length (cval nu) < 32" using program_entry_is_file(2) [OF Some] nu(3) by simp
    then have s': "s' = s3\<lparr>processes := (processes s3)[k := filled k nu ?seg ?seg ?seg 0 (int k) (file_size f) (processes s3 ! k)]\<rparr>"
      using s3(2) register_proc_first [OF wf i, of nu] busy nu(2) unfolding run3 by simp
    have "rows_kept ?s s3" using rows_kept_trans [OF rows_kept_kept [OF k2] rows_kept_kept [OF k3]] .
    then have old: "identity (processes s' ! j) = identity (processes s ! j)" if "j < k" for j
      using that t1 by (auto simp: s' rows_kept_def tables_def)
    have "0 \<notin> set (map upper_byte (cval name))" using cval_nonzero by auto
    then have "identity (processes s' ! k) = (map upper_byte (cval name), file_size f)"
      using procs_wfD(1) [OF wf i] i nu(3) by (simp add: s' identity_def filled_def cval_append_NUL)
    moreover have "init_name s' = init_name s" using k2 k3 by (simp add: s' kept_def)
    ultimately show ?thesis using old s3(3,4) nu(3) Some by (simp add: answers_def lookup_program_def)
  qed
  then show "cval nm = map upper_byte (cval name)" "init_name s' = init_name s" "answers (lookup_program e n s name) k s rc s'"
    by simp_all
qed

section \<open>Entering\<close>

lemma set_running_ram:
  "set_running_proc pid s = Inr s' \<Longrightarrow> ram s' = ram s \<and> params s' = params s \<and> seg_arr s' = seg_arr s
     \<and> kbd s' = kbd s \<and> init_name s' = init_name s \<and> console s' = console s"
  by (auto simp: set_running_proc_def upd_proc_def split: if_splits)

lemma set_running_identity:
  "set_running_proc pid s = Inr s' \<Longrightarrow> identity (processes s' ! j) = identity (processes s ! j)"
  by (auto simp: set_running_proc_def upd_proc_def identity_update split: if_splits)

lemma open_streams_user:
  assumes "1 \<le> pid" "pid \<le> 9" "path \<in> {cstr ''/dev/stdin'', cstr ''/dev/stdout''}"
  obtains fd ps where "open_fd path 0 pid s = Inr (fd, s\<lparr>processes := ps\<rparr>)"
    "\<And>j. identity (ps ! j) = identity (processes s ! j)"
proof -
  define fd :: int where "fd = (if path = cstr ''/dev/stdin'' then 0 else 1)"
  have ne: "cstr ''/dev/stdout'' \<noteq> cstr ''/dev/stdin''" by (simp add: cstr_def of_char_def)
  have "open_fd path 0 pid s = rbind (cfd_upd pid fd stream_fd s) (\<lambda>s. Inr (fd, s))"
    using assms(3) ne by (auto simp: fd_def open_fd_def cstr_def of_char_def)
  moreover define ps where "ps = (processes s)[nat (pid - 1) := (processes s ! nat (pid - 1))
      \<lparr>files_table := (files_table (processes s ! nat (pid - 1)))[nat fd := stream_fd (files_table (processes s ! nat (pid - 1)) ! nat fd)]\<rparr>]"
  moreover have "cfd_upd pid fd stream_fd s = Inr (s\<lparr>processes := ps\<rparr>)"
    using assms(1,2) by (auto simp: ps_def fd_def cfd_upd_def ftab_upd_def upd_proc_def NUM_FILES_def NUM_PROCESSES_def)
  ultimately show thesis
    by (intro that [of fd ps]) (simp_all add: identity_update)
qed

text \<open>\<open>run_program\<close> up to the call of the program.\<close>

definition place_keeps :: "(byte list \<Rightarrow> kstate \<Rightarrow> kstate) \<Rightarrow> bool" where
  "place_keeps place \<longleftrightarrow> (\<forall>b s. ram (place b s) = ram s \<and> processes (place b s) = processes s
     \<and> kbd (place b s) = kbd s \<and> console (place b s) = console s)
     \<and> (\<forall>b s s'. init_name s = init_name s' \<longrightarrow> init_name (place b s) = init_name (place b s'))"

lemma place_keeps_simps [simp]: "place_keeps place_params" "place_keeps place_init"
  by (simp_all add: place_keeps_def place_params_def place_init_def)

lemma place_keepsD:
  assumes "place_keeps place"
  shows "ram (place b s) = ram s" "processes (place b s) = processes s" "kbd (place b s) = kbd s" "console (place b s) = console s"
  using assms unfolding place_keeps_def by blast+

lemma place_keeps_init: "place_keeps place \<Longrightarrow> init_name s = init_name s' \<Longrightarrow> init_name (place b s) = init_name (place b s')"
  unfolding place_keeps_def by blast

lemma run_enter_found:
  assumes t: "tables v k k (int k) s" and k: "k < 8" and m: "mounted e es n s"
    and name: "terminated name" "length (cval name) < 32"
    and f: "program_entry e n s name = Some f" "program_ok es s f cs"
    and place: "place_ok place (length name)" "place_keeps place"
  obtains s' where "run_enter e name place s = ret (0, int k + 1, seg_base (k + 2), s')"
    "tables v (Suc k) (Suc k) (int k + 1) s'" "ram s' = store_ram ((k + 2) * 65536) (program_image e s cs) (ram s)"
    "identity (processes s' ! k) = (map upper_byte (cval name), file_size f)"
    "\<exists>nm. terminated nm \<and> cval nm = map upper_byte (cval name) \<and> length nm = length name \<and> progress (scan_text n) (kbd s) (place nm s) s'"
proof -
  obtain nm s1 where s1: "load e name (junk_pid e) s = ret (0, int k + 1, seg_base (k + 2), nm, s1)" "length nm = length name"
    "tables v (Suc k) (Suc k) (int k) s1" "ram s1 = store_ram ((k + 2) * 65536) (program_image e s cs) (ram s)"
    "identity (processes s1 ! k) = (map upper_byte (cval name), file_size f)"
    "terminated nm" "cval nm = map upper_byte (cval name)" "progress (scan_text n) (kbd s) s s1"
    using load_found [OF t k m name f] .
  have t2: "tables v (Suc k) (Suc k) (int k) (place nm s1)" using place_okD [OF place(1)] s1(2,3) by simp
  obtain s3 where s3: "set_running_proc (int k + 1) (place nm s1) = Inr s3" "tables v (Suc k) (Suc k) (int k + 1) s3"
    using tables_set_running [OF t2, of k] k by auto
  obtain fd4 ps4 where 4: "open_fd (cstr ''/dev/stdin'') 0 (int k + 1) s3 = Inr (fd4, s3\<lparr>processes := ps4\<rparr>)"
    "\<And>j. identity (ps4 ! j) = identity (processes s3 ! j)"
    using open_streams_user [of "int k + 1" "cstr ''/dev/stdin''" s3] k by auto
  obtain fd5 ps5 where 5: "open_fd (cstr ''/dev/stdout'') 0 (int k + 1) (s3\<lparr>processes := ps4\<rparr>) = Inr (fd5, s3\<lparr>processes := ps5\<rparr>)"
    "\<And>j. identity (ps5 ! j) = identity (ps4 ! j)"
    using open_streams_user [of "int k + 1" "cstr ''/dev/stdout''" "s3\<lparr>processes := ps4\<rparr>"] k by auto
  have run: "run_enter e name place s = ret (0, int k + 1, seg_base (k + 2), s3\<lparr>processes := ps5\<rparr>)"
    unfolding run_enter_def s1(1) obind_simps case_prod_conv Let_def if_P [OF refl] s3(1) 4(1) 5(1) by simp
  moreover have t5: "tables v (Suc k) (Suc k) (int k + 1) (s3\<lparr>processes := ps5\<rparr>)"
    using yieldsD [OF run_enter_tables [OF t k place(1)] run] by (simp add: entered_def)
  moreover have "ram s3 = ram s1" "identity (processes s3 ! k) = identity (processes s1 ! k)"
    using set_running_ram [OF s3(1)] set_running_identity [OF s3(1), of k] place_keepsD [OF place(2)] by simp_all
  moreover have "init_name (place nm s1) = init_name (place nm s)"
    using s1(8) by (intro place_keeps_init [OF place(2)]) (simp add: progress_def)
  then have "progress (scan_text n) (kbd s) (place nm s) (s3\<lparr>processes := ps5\<rparr>)"
  proof -
    have "identity (ps5 ! j) = identity (processes s ! j)" if "j < k" for j
      using that 4(2) 5(2) set_running_identity [OF s3(1)] place_keepsD(2) [OF place(2)] progress_rows [OF s1(8)] t
      by (auto simp: rows_kept_def tables_def)
    then have "rows_kept s (s3\<lparr>processes := ps5\<rparr>)" by (intro rows_kept_tables [OF t t5]) simp_all
    then have "rows_kept (place nm s) (s3\<lparr>processes := ps5\<rparr>)"
      using rows_kept_cong [of "place nm s" s] place_keepsD(2) [OF place(2)] by blast
    then show ?thesis
      using \<open>init_name (place nm s1) = init_name (place nm s)\<close> s1(8) set_running_ram [OF s3(1)] place_keepsD(3,4) [OF place(2)]
      by (auto simp: progress_def)
  qed
  ultimately show thesis
    using s1(2,4-7) 4(2) 5(2) by (intro that [of "s3\<lparr>processes := ps5\<rparr>"]) auto
qed

text \<open>And when it is not known that the file can be loaded: if it returns, the name decided.\<close>

lemma run_enter_ret:
  assumes t: "tables v k k (int k) s" and k: "k < 8" and m: "mounted e es n s"
    and place: "place_ok place (length name)" "place_keeps place"
    and run: "run_enter e name place s = ret (rc, pid, seg, s')"
  shows "answers (lookup_program e n s name) k s rc s'"
    "\<exists>nm. cval nm = map upper_byte (cval name) \<and> init_name s' = init_name (place nm s)"
proof -
  obtain pid1 seg1 nm s1 where s1: "load e name (junk_pid e) s = ret (rc, pid1, seg1, nm, s1)"
    using run by (auto simp: run_enter_def obind_ret_iff Let_def split: prod.splits if_splits)
  note l = load_ret [OF t k m s1]
  have "loaded v k (length name) (ram s) (rc, pid1, seg1, nm, s1)" by (rule yieldsD [OF load_tables [OF t k] s1])
  then have ids: "rc = 0 \<Longrightarrow> pid1 = int k + 1" by (auto simp: loaded_def)
  have same: "identity (processes (place nm s1) ! j) = identity (processes s1 ! j)" for j
    using place_keepsD(2) [OF place(2)] by simp
  have "(\<forall>j. identity (processes s' ! j) = identity (processes s1 ! j)) \<and> init_name s' = init_name (place nm s1)"
  proof (cases "rc = 0")
    case False
    with run have "s' = place nm s1" by (simp add: run_enter_def s1)
    then show ?thesis by (simp add: same)
  next
    case True
    then obtain s2 where s2: "set_running_proc (int k + 1) (place nm s1) = Inr s2"
      using run ids by (auto simp: run_enter_def s1 obind_ret_iff split: prod.splits)
    obtain fd4 ps4 where 4: "open_fd (cstr ''/dev/stdin'') 0 (int k + 1) s2 = Inr (fd4, s2\<lparr>processes := ps4\<rparr>)"
      "\<And>j. identity (ps4 ! j) = identity (processes s2 ! j)"
      using open_streams_user [of "int k + 1" "cstr ''/dev/stdin''" s2] k by auto
    obtain fd5 ps5 where 5: "open_fd (cstr ''/dev/stdout'') 0 (int k + 1) (s2\<lparr>processes := ps4\<rparr>) = Inr (fd5, s2\<lparr>processes := ps5\<rparr>)"
      "\<And>j. identity (ps5 ! j) = identity (ps4 ! j)"
      using open_streams_user [of "int k + 1" "cstr ''/dev/stdout''" "s2\<lparr>processes := ps4\<rparr>"] k by auto
    have "s' = s2\<lparr>processes := ps5\<rparr>"
      using run True ids unfolding run_enter_def s1 by (simp add: s2 4(1) 5(1))
    then show ?thesis
      using 4(2) 5(2) set_running_identity [OF s2] set_running_ram [OF s2] same by simp
  qed
  moreover have "init_name (place nm s1) = init_name (place nm s)" using place_keeps_init [OF place(2) l(3)] .
  ultimately show "answers (lookup_program e n s name) k s rc s'"
    "\<exists>nm. cval nm = map upper_byte (cval name) \<and> init_name s' = init_name (place nm s)"
    using l(2,4) by (auto simp: answers_def split: option.splits)
qed

lemma run_enter_loads_program_eq:
  assumes "tables v k k (int k) s" "k < 8" "mounted e es n s" "terminated name" "length (cval name) < 32"
    and "program_entry e n s name = Some f" "program_ok es s f cs" "place_ok place (length name)" "place_keeps place"
  shows "\<exists>s'. run_enter e name place s = ret (0, int k + 1, seg_base (k + 2), s')
    \<and> tables v (Suc k) (Suc k) (int k + 1) s'
    \<and> ram s' = store_ram ((k + 2) * 65536) (program_image e s cs) (ram s)
    \<and> cval (p_name (processes s' ! k)) = map upper_byte (cval name) \<and> p_size (processes s' ! k) = file_size f"
  using run_enter_found [OF assms] by (auto simp: identity_def)

section \<open>System call 7\<close>

lemma put_params_0:
  "length (params s) = 576 \<Longrightarrow> put_params 0 (bytes32 w) s = Inr (s\<lparr>params := bytes32 w @ drop 4 (params s)\<rparr>)"
  by (simp add: put_params_def store_def)

lemma tables_params_length: "tables v n m r s \<Longrightarrow> length (params s) = 576"
  by (simp add: tables_def kinv_def)

lemma run_exit_frame:
  "run_exit rc pid segment s = Inr (rc', s') \<Longrightarrow> params s' = params s \<and> ram s' = ram s
     \<and> kbd s' = kbd s \<and> init_name s' = init_name s \<and> console s' = console s"
  by (auto simp: run_exit_def unregister_proc_def upd_proc_def split: if_splits)

lemma run_exit_identity: "run_exit rc pid segment s = Inr (rc', s') \<Longrightarrow> identity (processes s' ! j) = identity (processes s ! j)"
  by (auto simp: run_exit_def unregister_proc_def upd_proc_def identity_update split: if_splits)

text \<open>After the program: the value returned goes over the first four bytes of the parameter block as the
  program left it, and the caller runs again.\<close>

lemma dispatch_after:
  assumes t: "tables v (Suc k) (Suc k) r s2" "0 \<le> r" "r \<le> 9" and k: "k < 8"
  obtains s' where "obind (Some (put_params 0 (bytes32 (word_of_int rc)) s2)) (\<lambda>s. Some (set_running_proc (int k + 1) s)) = ret s'"
    "tables v (Suc k) (Suc k) (int k + 1) s'" "params s' = bytes32 (word_of_int rc) @ drop 4 (params s2)" "ram s' = ram s2"
    "kbd s' = kbd s2" "init_name s' = init_name s2" "console s' = console s2" "\<And>j. identity (processes s' ! j) = identity (processes s2 ! j)"
proof -
  let ?s3 = "s2\<lparr>params := bytes32 (word_of_int rc) @ drop 4 (params s2)\<rparr>"
  have put: "put_params 0 (bytes32 (word_of_int rc)) s2 = Inr ?s3"
    by (rule put_params_0) (rule tables_params_length [OF t(1)])
  from tables_put_params [OF t(1) put] have t3: "tables v (Suc k) (Suc k) r ?s3" .
  obtain s' where s': "set_running_proc (int k + 1) ?s3 = Inr s'" "tables v (Suc k) (Suc k) (int k + 1) s'"
    using tables_set_running [OF t3 t(2,3), of k] k by auto
  with put set_running_ram [OF s'(1)] set_running_identity [OF s'(1)] show thesis by (intro that [of s']) simp_all
qed

lemma dispatch_run_leaks_params_eq:
  assumes "tables v (Suc k) (Suc k) (int k + 1) s" "Suc k < 8"
    and "run_enter e (params s) place_params s = ret (0, pid, segment, s1)"
    and "farcall segment s1 = ret s2" "tables v (Suc (Suc k)) (Suc (Suc k)) r s2" "0 \<le> r" "r \<le> 9"
  shows "\<exists>s'. dispatch farcall e 7 s = ret s' \<and> tables v (Suc k) (Suc k) (int k + 1) s'
    \<and> params s' = bytes32 0 @ drop 4 (params s2) \<and> ram s' = ram s2
    \<and> kbd s' = kbd s2 \<and> init_name s' = init_name s2 \<and> console s' = console s2
    \<and> (\<forall>j. identity (processes s' ! j) = identity (processes s2 ! j))"
proof -
  have t: "tables v (Suc k) (Suc k) (int (Suc k)) s" using assms(1) by (simp add: add.commute)
  have ok: "place_ok place_params (length (params s))"
    using place_params_ok tables_params_length [OF t] by simp
  have ids: "pid = int (Suc k) + 1" "segment = seg_base (Suc k + 2)"
    using yieldsD [OF run_enter_tables [OF t assms(2) ok] assms(3)] by (simp_all add: entered_def)
  obtain s3 where s3: "run_exit 0 pid segment s2 = Inr (0, s3)" "tables v (Suc k) (Suc k) r s3"
    using run_exit_ok [OF assms(5,2)] unfolding ids by blast
  obtain s' where s': "obind (Some (put_params 0 (bytes32 (word_of_int 0)) s3)) (\<lambda>s. Some (set_running_proc (int k + 1) s)) = ret s'"
    "tables v (Suc k) (Suc k) (int k + 1) s'" "params s' = bytes32 (word_of_int 0) @ drop 4 (params s3)" "ram s' = ram s3"
    "kbd s' = kbd s3" "init_name s' = init_name s3" "console s' = console s3" "\<forall>j. identity (processes s' ! j) = identity (processes s3 ! j)"
    using dispatch_after [OF s3(2) assms(6,7), of 0] assms(2) by auto
  have "get_running_proc s = int k + 1" using assms(1) by (simp add: get_running_proc_def tables_def)
  moreover have "run_program farcall e (params s) place_params s = ret (0, s3)"
    by (simp add: run_program_def assms(3,4) s3(1))
  ultimately have "dispatch farcall e 7 s = ret s'"
    using s'(1) by (simp add: dispatch_def Let_def)
  with s' run_exit_frame [OF s3(1)] run_exit_identity [OF s3(1)] show ?thesis by auto
qed

lemma dispatch_run_missing_eq:
  assumes "tables v (Suc k) (Suc k) (int k + 1) s" "Suc k < 8" "mounted e es n s" "terminated (params s)"
    and "program_entry e n s (params s) = None"
  shows "\<exists>s' nm. dispatch farcall e 7 s = ret s' \<and> stoupper (params s) = Inr nm \<and> params s' = bytes32 1 @ drop 4 nm
    \<and> tables v (Suc k) (Suc k) (int k + 1) s' \<and> ram s' = ram s \<and> progress (scan_text n) (kbd s) s s'"
proof -
  have t: "tables v (Suc k) (Suc k) (int (Suc k)) s" using assms(1) by (simp add: add.commute)
  obtain nm s1 where s1: "load e (params s) (junk_pid e) s = ret (1, junk_pid e, seg_base (Suc k + 2), nm, s1)"
      "length nm = length (params s)" "tables v (Suc k) (Suc (Suc k)) (int (Suc k)) s1" "ram s1 = ram s" "progress (scan_text n) (kbd s) s s1"
    using load_missing [OF t assms(2-5)] by blast
  have nm: "stoupper (params s) = Inr nm"
    using s1(1) unfolding load_def by (auto simp: obind_ret_iff Let_def split: prod.splits if_splits)
  have t1: "tables v (Suc k) (Suc (Suc k)) (int (Suc k)) (place_params nm s1)"
    using place_okD [OF place_params_ok] s1(2,3) tables_params_length [OF t] by simp
  obtain s3 where s3: "run_exit 1 (junk_pid e) (seg_base (Suc k + 2)) (place_params nm s1) = Inr (1, s3)"
      "tables v (Suc k) (Suc k) (int (Suc k)) s3"
    using run_exit_missing [OF t1 assms(2)] by blast
  obtain s' where s': "obind (Some (put_params 0 (bytes32 (word_of_int 1)) s3)) (\<lambda>s. Some (set_running_proc (int k + 1) s)) = ret s'"
    "tables v (Suc k) (Suc k) (int k + 1) s'" "params s' = bytes32 (word_of_int 1) @ drop 4 (params s3)" "ram s' = ram s3"
    "kbd s' = kbd s3" "init_name s' = init_name s3" "console s' = console s3" "\<forall>j. identity (processes s' ! j) = identity (processes s3 ! j)"
    using dispatch_after [OF s3(2), of 1] assms(2) by auto
  have "get_running_proc s = int k + 1" using assms(1) by (simp add: get_running_proc_def tables_def)
  moreover have "run_program farcall e (params s) place_params s = ret (1, s3)"
    using s3(1) by (simp add: run_program_def run_enter_def s1(1))
  ultimately have "dispatch farcall e 7 s = ret s'"
    using s'(1) by (simp add: dispatch_def Let_def)
  moreover have "progress (scan_text n) (kbd s) s s'"
  proof -
    have "rows_kept s s'"
      using s'(8) run_exit_identity [OF s3(1)] progress_rows [OF s1(5)] assms(1)
      by (intro rows_kept_tables [OF assms(1) s'(2)]) (auto simp: rows_kept_def tables_def place_params_def)
    then show ?thesis using s1(5) s'(5-7) run_exit_frame [OF s3(1)] by (auto simp: progress_def place_params_def)
  qed
  ultimately show ?thesis using s'(2-4) run_exit_frame [OF s3(1)] nm s1(4) by (auto simp: place_params_def)
qed

end
