(* ===== verification/Boot.thy ===== *)
theory Boot
  imports Running
begin

text \<open>
  Start-up on a disk with a FAT12 volume, \<open>startk\<close> of kernel/kernel.c up to its loop, and a concrete
  machine: a disk image with one program, started from the kernel's zeroed variables.
\<close>

section \<open>Start-up\<close>

lemma readable_fat_read:
  assumes "env_ok e" "disk_ok e 1" "drive_ready s" "g = geometry_of (bs s)" "unat (fat_section_start (s_pos s)) = fat_pos g"
    and "g_fats g * g_fat_sectors g \<le> 1024" "readable (fat_pos g) (g_fats g * g_fat_sectors g)"
  shows "\<exists>b c. read_fat e (junk_fat_table e) s = ret (b, seek_state (fat_section_start (s_pos s)) c s)"
proof -
  let ?n = "ucast (bs_number_of_fats s) * ucast (bs_fat_size_sectors s) :: u32"
  have "unat (bs_fat_size_sectors s) = g_fat_sectors g" "unat (bs_number_of_fats s) = g_fats g"
    by (simp_all add: assms(4) geometry_of_def bs_fat_size_sectors_def bs_number_of_fats_def)
  then have "?n = of_nat (g_fats g) * of_nat (g_fat_sectors g)"
    unfolding ucast_u16_of_nat ucast_byte_of_nat by simp
  then have "?n = of_nat (g_fats g * g_fat_sectors g)" by simp
  then have n: "unat ?n = g_fats g * g_fat_sectors g"
    using assms(6) unat_u32_of_nat [of "g_fats g * g_fat_sectors g"] by simp
  have "length (junk_fat_table e) = 1024" using assms(1) by (simp add: env_ok_def)
  then show ?thesis
    using seek_read_4 [OF assms(1-3), of "fat_section_start (s_pos s)" ?n "junk_fat_table e"] assms(5-7) n
    by (auto simp: read_fat_def)
qed

text \<open>The volume is mounted: its boot sector and FAT are read and the root directory is opened.\<close>

lemma mount_eq:
  assumes "env_ok e" "disk_ok e 1" "length (fd_list s) = 5" "length (bs s) = 512" "g = geometry_of (disk_sector e 1 0)"
    and "g_sector g \<noteq> 0" "g_sector g dvd 32 * g_entries g" "data_pos g < 2 ^ 32"
    and "g_fats g * g_fat_sectors g \<le> 1024" "readable (fat_pos g) (g_fats g * g_fat_sectors g)"
  obtains s' s'' where "mount e (cstr ''/dev/fdb'') s = ret s'" "bs s' = disk_sector e 1 0"
    "unat (fat_section_start (s_pos s')) = fat_pos g" "unat (root_directory_start (s_pos s')) = root_pos g"
    "unat (data_section_start (s_pos s')) = data_pos g" "fd_after s' = root_fd s'' (fd_after s'')" "s_pos s'' = s_pos s'"
    "console s' = console s" "kbd s' = kbd s" "ram s' = ram s" "init_name s' = init_name s"
proof -
  define s4 where "s4 = s\<lparr>fd_list := (fd_list s)[4 := device_fd (fd_list s ! 4)], drv := 4\<rparr>"
  have o4: "open_drive s = Inr (4, s4)"
    by (simp add: open_drive_def open_devices cfd_upd_def kfd_upd_def s4_def)
  have d4: "drive_ready s4" by (simp add: drive_ready_def s4_def assms(3) device_fd_def)
  obtain p where p: "read_boot_sector e s4 = ret ((seek_state 0 512 s4)\<lparr>bs := disk_sector e 1 0, s_pos := p\<rparr>)"
    "unat (fat_section_start p) = fat_pos g" "unat (root_directory_start p) = root_pos g"
    "unat (data_section_start p) = data_pos g"
    using read_boot_sector_eq [OF assms(1,2) d4 _ assms(5-8)] assms(4) by (auto simp: s4_def)
  define s5 where "s5 = (seek_state 0 512 s4)\<lparr>bs := disk_sector e 1 0, s_pos := p\<rparr>"
  have d5: "drive_ready s5" using d4 seek_state_drive [of 0 512 s4] by (simp add: s5_def drive_ready_def)
  obtain b c where f6: "read_fat e (junk_fat_table e) s5 = ret (b, seek_state (fat_section_start p) c s5)"
    using readable_fat_read [OF assms(1,2) d5, of g] assms(5,9,10) p(2) by (auto simp: s5_def)
  define s6 where "s6 = seek_state (fat_section_start p) c s5"
  define s7 where "s7 = s6\<lparr>fd_after := root_fd s6 (fd_after s6)\<rparr>"
  have o7: "open_fd (cstr ''/'') 0 0 s6 = Inr (5, s7)"
    by (simp add: open_devices cfd_upd_def kfd_upd_def s7_def)
  have "strcmp (cstr ''/dev/fdb'') (cstr ''/dev/fdb'') = Inr 0" by (simp add: cstr_def)
  then have "mount e (cstr ''/dev/fdb'') s = ret s7"
    by (simp add: mount_def o4 p(1) f6 o7 flip: s5_def s6_def)
  with p(2-4) show thesis by (intro that [of s7 s6]) (simp_all add: s7_def s6_def s5_def s4_def)
qed

lemma startk_init_eq:
  assumes "env_ok e" "disk_ok e 1" "booting {} arr s" "g = geometry_of (disk_sector e 1 0)"
    and "g_sector g \<noteq> 0" "g_sector g dvd 32 * g_entries g" "data_pos g < 2 ^ 32"
    and "g_fats g * g_fat_sectors g \<le> 1024" "readable (fat_pos g) (g_fats g * g_fat_sectors g)"
  obtains s' where "startk_init e s = ret s'" "tables (bs s', s_pos s') 0 0 (running_proc s') s'" "bs s' = disk_sector e 1 0"
    "unat (fat_section_start (s_pos s')) = fat_pos g" "unat (root_directory_start (s_pos s')) = root_pos g"
    "unat (data_section_start (s_pos s')) = data_pos g"
    "fd_pfd_offset (fd_after s') = root_directory_start (s_pos s')" "fd_pos (fd_after s') = 0"
    "console s' = console s @ map EvChar (lit ''starting kernel...'' @ [13, 10]) @ [EvSti]"
    "peek16 0x200 s' = 0" "peek16 0x202 s' = 0x1000" "init_name s' = init_name s" "kbd s' = kbd s"
proof -
  have len: "length (fd_list s) = 5" using assms(3) by (simp add: booting_def)
  define s1 where "s1 = s\<lparr>fd_list := (fd_list s)[1 := stream_fd (fd_list s ! 1)]\<rparr>"
  define s2 where "s2 = shown (lit ''starting kernel...'' @ [13, 10]) s1"
  define s3 where "s3 = set_ivt (s2\<lparr>seg_arr := init_seg (seg_arr s2)\<rparr>)"
  have o1: "open_fd (cstr ''/dev/stdout'') 0 0 s = Inr (1, s1)"
    by (simp add: open_devices cfd_upd_def kfd_upd_def s1_def)
  have p2: "printk (lit ''starting kernel...'' @ crlf) s1 = Inr s2"
    using printk_lit [of "lit ''starting kernel...'' @ [13, 10]" s1]
    by (simp add: s2_def crlf_def of_char_def)
  have s3: "length (fd_list s3) = 5" "length (bs s3) = 512" "console s3 = console s @ map EvChar (lit ''starting kernel...'' @ [13, 10])"
    "kbd s3 = kbd s" "init_name s3 = init_name s"
    using len booting_sector [OF assms(3)] by (simp_all add: s3_def set_ivt_def poke16_def s2_def s1_def)
  obtain s7 s6 where s7: "mount e (cstr ''/dev/fdb'') s3 = ret s7" "bs s7 = disk_sector e 1 0"
    "unat (fat_section_start (s_pos s7)) = fat_pos g" "unat (root_directory_start (s_pos s7)) = root_pos g"
    "unat (data_section_start (s_pos s7)) = data_pos g" "fd_after s7 = root_fd s6 (fd_after s6)" "s_pos s6 = s_pos s7"
    "console s7 = console s3" "kbd s7 = kbd s3" "ram s7 = ram s3" "init_name s7 = init_name s3"
    by (rule mount_eq [OF assms(1,2) s3(1,2) assms(4-9)]) (rule that)
  define s8 where "s8 = s7\<lparr>fd_list := (fd_list s7)[0 := stream_fd (fd_list s7 ! 0)]\<rparr>"
  have o8: "open_fd (cstr ''/dev/stdin'') 0 0 s7 = Inr (0, s8)"
    by (simp add: open_devices cfd_upd_def kfd_upd_def s8_def)
  have run: "startk_init e s = ret (sti s8)"
    unfolding startk_init_def o1 obind_simps case_prod_conv p2 Let_def s3_def [symmetric] by (simp add: s7(1) o8)
  from yieldsD [OF startk_init_booting [OF assms(3)] run] have "tables (bs (sti s8), s_pos (sti s8)) 0 0 (running_proc (sti s8)) (sti s8)"
    by (rule booting_tables)
  moreover have "peek16 0x200 s3 = 0" "peek16 0x202 s3 = 0x1000"
    by (simp_all add: peek16_def s3_def set_ivt_def poke16_def le16_def)
  ultimately show thesis
    using run s7(2-) s3 by (intro that [of "sti s8"])
      (simp_all add: sti_def emit_def peek16_def root_fd_def get_root_offset_def s8_def)
qed

section \<open>Disks to start from\<close>

text \<open>The sample volume with the given table and the given files in its root directory.\<close>

definition volume_image :: "12 word list \<Rightarrow> Fat16Entry list \<Rightarrow> nat \<Rightarrow> byte" where
  "volume_image es fs p =
     (if 9728 \<le> p \<and> p < 9728 + 32 * length fs then entry_bytes (fs ! ((p - 9728) div 32)) ! ((p - 9728) mod 32)
      else if 9728 \<le> p \<and> p < 16896 then 0 else sample_image (fat12_bytes es) p)"

abbreviation volume_env :: "12 word list \<Rightarrow> Fat16Entry list \<Rightarrow> env" where
  "volume_env es fs \<equiv> image_env (volume_image es fs)"

lemma volume_sector: "image_sector (volume_image es fs) 0 = image_sector (sample_image (fat12_bytes es)) 0"
  by (auto simp: image_sector_def volume_image_def)

lemma volume_geometry:
  "geometry_of (disk_sector (volume_env es fs) 1 0) = \<lparr>g_sector = 512, g_reserved = 1, g_fats = 2, g_fat_sectors = 9, g_entries = 224\<rparr>"
  by (simp add: image_disk_sector volume_sector geometry_of_def image_sector_field sample_image_def le16_def)

lemma volume_positions:
  "fat_pos (geometry_of (disk_sector (volume_env es fs) 1 0)) = 512" "root_pos (geometry_of (disk_sector (volume_env es fs) 1 0)) = 9728"
  "data_pos (geometry_of (disk_sector (volume_env es fs) 1 0)) = 16896"
  by (simp_all add: volume_geometry fat_pos_def root_pos_def data_pos_def)

text \<open>What is known of the kernel's variables when such a volume is mounted.\<close>

definition on_volume :: "12 word list \<Rightarrow> Fat16Entry list \<Rightarrow> kstate \<Rightarrow> bool" where
  "on_volume es fs s \<longleftrightarrow> bs s = image_sector (volume_image es fs) 0
     \<and> s_pos s = \<lparr>fat_section_start = 512, data_section_start = 16896, root_directory_start = 9728\<rparr>
     \<and> fd_pfd_offset (fd_after s) = 9728 \<and> fds_ready s \<and> num_ok (uitoa_buf s)"

lemma booting_keyboard: "booting a g s \<Longrightarrow> booting a g (s\<lparr>kbd := ks\<rparr>)"
  by (auto simp: booting_def procs_wf_def procs_busy_def)

lemma volume_start:
  obtains s where "startk_init (volume_env es fs) (zero_state\<lparr>kbd := ks\<rparr>) = ret s" "tables (bs s, s_pos s) 0 0 (running_proc s) s"
    "on_volume es fs s" "init_name s = cstr ''init''" "kbd s = ks"
proof -
  have "readable 512 18" by (simp add: readable_def floppy_pos_def chs_slip_def)
  then obtain s where s: "startk_init (volume_env es fs) (zero_state\<lparr>kbd := ks\<rparr>) = ret s" "tables (bs s, s_pos s) 0 0 (running_proc s) s"
    "bs s = disk_sector (volume_env es fs) 1 0" "unat (fat_section_start (s_pos s)) = 512" "unat (root_directory_start (s_pos s)) = 9728"
    "unat (data_section_start (s_pos s)) = 16896"
    "fd_pfd_offset (fd_after s) = root_directory_start (s_pos s)" "init_name s = init_name zero_state" "kbd s = ks"
    using startk_init_eq [OF image_env_ok image_disk_ok booting_keyboard [OF zero_state_booting] refl, of "volume_image es fs" ks]
      volume_positions [of es fs] volume_geometry [of es fs]
    by (auto simp: geometry.simps)
  have "unat w = n \<Longrightarrow> n < 2 ^ 32 \<Longrightarrow> w = of_nat n" for w :: u32 and n by auto
  from this [OF s(4)] this [OF s(5)] this [OF s(6)]
  have "s_pos s = \<lparr>fat_section_start = 512, data_section_start = 16896, root_directory_start = 9728\<rparr>"
    by (cases "s_pos s") simp
  with s show thesis by (intro that [of s]) (simp_all add: image_disk_sector zero_state_def on_volume_def tables_def kinv_def)
qed

definition files_ok :: "Fat16Entry list \<Rightarrow> bool" where
  "files_ok fs \<longleftrightarrow> length fs \<le> 224 \<and> list_all (\<lambda>f. entry_wf f \<and> names_ok f) fs"

definition no_entry :: Fat16Entry where
  "no_entry = entry_of (replicate 32 0)"

lemma no_entry_no_file: "\<not> is_file no_entry"
  by (simp add: is_file_def entry_type_file no_entry_def entry_of_def bit_numeral_rec)

lemma volume_dir_entry:
  assumes "on_volume es fs s" "files_ok fs" "i < 224"
  shows "dir_entry (volume_env es fs) s i = (if i < length fs then fs ! i else no_entry)"
proof -
  let ?p = "9728 + 32 * i"
  have r: "?p + 32 \<le> 1474560" using assms(3) by simp
  have wf: "i < length fs \<Longrightarrow> entry_wf (fs ! i)" using assms(2) by (simp add: files_ok_def list_all_length)
  have "volume_image es fs (?p + j) = (if i < length fs then entry_bytes (fs ! i) ! j else 0)" if "j < 32" for j
  proof -
    have "(32 * i + j) div 32 = i" using that by (simp add: div_mult_self4 [of 32 i j])
    moreover have "(32 * i + j) mod 32 = j" using that by simp
    moreover have "32 * i + j < 7168" using that assms(3) by simp
    moreover have "32 * i + j < 32 * length fs \<longleftrightarrow> i < length fs" using that by linarith
    ultimately show ?thesis by (simp add: volume_image_def)
  qed
  then have "disk_bytes (volume_env es fs) 1 ?p 32 = (if i < length fs then entry_bytes (fs ! i) else replicate 32 0)"
    using entry_bytes_length [OF wf] unfolding image_disk_bytes [OF r] by (auto intro!: nth_equalityI simp del: upt_rec_numeral)
  moreover have "unat (fd_pfd_offset (fd_after s)) = 9728" using assms(1) by (simp add: on_volume_def)
  ultimately show ?thesis
    using entry_of_bytes [OF wf] by (simp add: dir_entry_def no_entry_def)
qed

lemma volume_mounted:
  assumes "on_volume es fs s" "files_ok fs" "length (fat12_bytes es) \<le> 512"
  shows "mounted (volume_env es fs) es 224 s"
proof -
  have v: "fds_ready s" "num_ok (uitoa_buf s)" "unat (fd_pfd_offset (fd_after s)) = 9728"
    "fat_section_start (s_pos s) = 512" "bs s = image_sector (sample_image (fat12_bytes es)) 0"
    using assms(1) by (simp_all add: on_volume_def volume_sector)
  have "disk_bytes (volume_env es fs) 1 512 (length (fat12_bytes es))
      = disk_bytes (image_env (sample_image (fat12_bytes es))) 1 512 (length (fat12_bytes es))"
    using assms(3) by (simp add: image_disk_bytes volume_image_def)
  then have "fat_at (volume_env es fs) 512 es"
    using sample_fat_at [OF assms(3)] by (simp add: fat_at_def)
  then have vol: "vol_ok (volume_env es fs) es s"
    using v by (simp add: vol_ok_def cluster_size_def bs_sector_size_def bs_sectors_per_cluster_def image_sector_field
        sample_image_def le16_def)
  have n: "unat (bs_root_dir_entries s) = 224"
    by (simp add: v bs_root_dir_entries_def image_sector_field sample_image_def le16_def)
  have "dir_readable s 224" using sample_dir_readable by (simp add: dir_readable_def v)
  then have "dir_ok (volume_env es fs) s 224"
    using v n volume_dir_entry [OF assms(1,2)] no_entry_no_file assms(2)
    by (auto simp: dir_ok_def files_ok_def list_all_length)
  with vol show ?thesis by (simp add: mounted_def)
qed

lemma volume_directory:
  assumes "on_volume es fs s" "files_ok fs"
  shows "map (dir_entry (volume_env es fs) s) [0..<224] = fs @ replicate (224 - length fs) no_entry"
proof (rule nth_equalityI)
  show len: "length (map (dir_entry (volume_env es fs) s) [0..<224]) = length (fs @ replicate (224 - length fs) no_entry)"
    using assms(2) by (simp add: files_ok_def)
  show "map (dir_entry (volume_env es fs) s) [0..<224] ! i = (fs @ replicate (224 - length fs) no_entry) ! i"
    if "i < length (map (dir_entry (volume_env es fs) s) [0..<224])" for i
    using that volume_dir_entry [OF assms, of i] by (auto simp: nth_append simp del: upt_rec_numeral)
qed

text \<open>The file a name leads to is looked for among the files alone.\<close>

lemma volume_program:
  assumes "on_volume es fs s" "files_ok fs"
  shows "program_entry (volume_env es fs) 224 s name
    = find (\<lambda>f. is_file f \<and> field_text (filename f) = map upper_byte (cval name)) fs"
proof -
  have "find P (fs @ replicate m no_entry) = find P fs" if "\<not> P no_entry" for P m
    using that by (induction fs) (auto simp: find_None_iff)
  then show ?thesis
    using no_entry_no_file by (simp add: program_entry_def volume_entries_def volume_directory [OF assms] del: upt_rec_numeral)
qed

lemma on_volume_tables:
  assumes "on_volume es fs s" "tables v n m r s" "tables v n' m' r' s'"
  shows "on_volume es fs s'"
  using assms same_volume_tables [OF assms(2,3)] by (simp add: on_volume_def same_volume_def tables_def kinv_def)

text \<open>One file in the root directory: INIT.BIN, in clusters 2 and 3.\<close>

definition init_entry :: Fat16Entry where
  "init_entry = \<lparr>filename = lit ''INIT    '', ext = lit ''BIN'', attributes = 0x20, reserved = replicate 10 0,
     modify_time = 0, modify_date = 0, starting_cluster = 2, file_size = 5000\<rparr>"

abbreviation boot_env :: env where
  "boot_env \<equiv> volume_env two_clusters [init_entry]"

abbreviation boot_volume :: "kstate \<Rightarrow> bool" where
  "boot_volume \<equiv> on_volume two_clusters [init_entry]"

lemma init_entry_wf: "entry_wf init_entry"
  by (simp add: entry_wf_def init_entry_def)

lemma init_entry_file: "is_file init_entry"
  by (simp add: is_file_def entry_type_file init_entry_def bit_numeral_rec of_char_def)

lemma init_entry_text: "field_text (filename init_entry) = lit ''INIT''"
  by (simp add: init_entry_def field_text_def of_char_def)

lemma boot_files_ok: "files_ok [init_entry]"
  using init_entry_wf by (simp add: files_ok_def names_ok_def init_entry_def of_char_def)

lemma boot_mounted: "boot_volume s \<Longrightarrow> mounted boot_env two_clusters 224 s"
  by (rule volume_mounted [OF _ boot_files_ok]) simp_all

lemma boot_entry:
  "boot_volume s \<Longrightarrow> program_entry boot_env 224 s name
    = (if map upper_byte (cval name) = lit ''INIT'' then Some init_entry else None)"
  using init_entry_file init_entry_text by (auto simp: volume_program [OF _ boot_files_ok])

lemma boot_program:
  assumes "boot_volume s" "map upper_byte (cval name) = lit ''INIT''"
  shows "program_entry boot_env 224 s name = Some init_entry" "program_ok two_clusters s init_entry [2, 3]"
proof -
  show "program_entry boot_env 224 s name = Some init_entry" using boot_entry [OF assms(1)] assms(2) by simp
  have "cluster_ok two_clusters s c" if "c \<in> {2, 3}" for c
    using that assms(1)
    by (auto simp: cluster_ok_def entry_reachable_def in_place_def readable_def floppy_pos_def chs_slip_def cluster_pos_def on_volume_def)
  then show "program_ok two_clusters s init_entry [2, 3]"
    by (simp add: program_ok_def init_entry_def two_clusters_def)
qed

lemma boot_no_program: "boot_volume s \<Longrightarrow> map upper_byte (cval name) \<noteq> lit ''INIT'' \<Longrightarrow> program_entry boot_env 224 s name = None"
  by (simp add: boot_entry)

section \<open>The first programs\<close>

text \<open>A program's image on this volume: clusters 2 and 3, the 8192 bytes from 16896 on.\<close>

lemma boot_program_image: "boot_volume s \<Longrightarrow> program_image boot_env s [2, 3] = disk_bytes boot_env 1 16896 8192"
proof -
  assume "boot_volume s"
  then have "cluster_bytes boot_env s 2 = disk_bytes boot_env 1 16896 4096" "cluster_bytes boot_env s 3 = disk_bytes boot_env 1 20992 4096"
    by (simp_all add: cluster_bytes_def cluster_pos_def on_volume_def)
  then show ?thesis
    using disk_bytes_append [of boot_env 1 16896 4096 4096] by (simp add: program_image_def)
qed

lemma upper_init: "map upper_byte (cval (cstr ''init'')) = lit ''INIT''"
  by (simp add: cval_cstr of_char_def) (simp add: upper_byte_def)

lemma boot_runs_init:
  obtains s0 s1 where "startk_init boot_env zero_state = ret s0" "boot_volume s0" "tables (bs s0, s_pos s0) 0 0 (running_proc s0) s0"
    "session_step boot_env (s0, []) Boot (s1, frames_of 1)" "tables (bs s0, s_pos s0) 1 1 1 s1" "boot_volume s1"
    "ram s1 = store_ram 0x20000 (disk_bytes boot_env 1 16896 8192) (ram s0)" "cval (p_name (processes s1 ! 0)) = lit ''INIT''"
    "init_name s0 = cstr ''init''"
proof -
  have "zero_state\<lparr>kbd := []\<rparr> = zero_state" by (simp add: zero_state_def)
  then obtain s0 where s0: "startk_init boot_env zero_state = ret s0" "tables (bs s0, s_pos s0) 0 0 (running_proc s0) s0"
    "boot_volume s0" "init_name s0 = cstr ''init''"
    using volume_start [of two_clusters "[init_entry]" "[]"] by auto
  note v0 = s0(3)
  let ?s = "init_processes s0"
  have t: "tables (bs s0, s_pos s0) 0 0 (int 0) ?s" using tables_init [OF s0(2)] by simp
  have v: "boot_volume ?s" by (rule on_volume_tables [OF v0 s0(2) t])
  have name: "terminated (cstr ''init'')" "length (cval (cstr ''init'')) < 32" by (simp_all add: cval_cstr of_char_def)
  obtain s1 where s1: "run_enter boot_env (cstr ''init'') place_init ?s = ret (0, int 0 + 1, seg_base (0 + 2), s1)"
    "tables (bs s0, s_pos s0) (Suc 0) (Suc 0) (int 0 + 1) s1" "ram s1 = store_ram ((0 + 2) * 65536) (program_image boot_env ?s [2, 3]) (ram ?s)"
    "identity (processes s1 ! 0) = (map upper_byte (cval (cstr ''init'')), file_size init_entry)"
    using run_enter_found [OF t _ boot_mounted [OF v] name boot_program [OF v upper_init] place_init_ok] by auto
  have "session_step boot_env (s0, []) Boot (s1, frames_of 1)"
    using step_boot [of boot_env s0] s1(1) s0(4) by simp
  moreover have "ram ?s = ram s0" by (simp add: init_processes_def)
  ultimately show thesis
    using s0(1,2,4) v0 s1(2-4) on_volume_tables [OF v t s1(2)] boot_program_image [OF v]
    by (intro that [of s0 s1]) (simp_all add: identity_def upper_init)
qed

text \<open>The first program runs another one: the call's parameter block holds its name.\<close>

definition exec_block :: "byte list" where
  "exec_block = cstr ''init'' @ replicate 571 7"

lemma exec_block_simps: "length exec_block = 576" "terminated exec_block" "cval exec_block = lit ''init''"
proof -
  show "length exec_block = 576" by (simp add: exec_block_def cstr_def)
  have e: "exec_block = lit ''init'' @ 0 # replicate 571 7" unfolding exec_block_def cstr_def by simp
  show "terminated exec_block" unfolding e by (rule terminated_append_NUL)
  show "cval exec_block = lit ''init''" unfolding e by (rule cval_append_NUL) (simp add: of_char_def)
qed

lemma boot_runs_next:
  assumes "boot_volume s" "tables v k k (int k) s" "k < 8"
  obtains s' where "run_enter boot_env exec_block place_params (s\<lparr>params := exec_block\<rparr>) = ret (0, int k + 1, seg_base (k + 2), s')"
    "tables v (Suc k) (Suc k) (int k + 1) s'" "boot_volume s'"
    "ram s' = store_ram ((k + 2) * 65536) (disk_bytes boot_env 1 16896 8192) (ram s)"
proof -
  let ?s = "s\<lparr>params := exec_block\<rparr>"
  have t: "tables v k k (int k) ?s" using tables_params [OF assms(2) exec_block_simps(1)] by simp
  have v: "boot_volume ?s" by (rule on_volume_tables [OF assms(1,2) t])
  have name: "length (cval exec_block) < 32" "map upper_byte (cval exec_block) = lit ''INIT''"
    using upper_init unfolding exec_block_simps(3) by (simp_all add: cval_cstr of_char_def)
  have place: "place_ok place_params (length exec_block)" using place_params_ok exec_block_simps(1) by simp
  obtain s' where s': "run_enter boot_env exec_block place_params ?s = ret (0, int k + 1, seg_base (k + 2), s')"
    "tables v (Suc k) (Suc k) (int k + 1) s'" "ram s' = store_ram ((k + 2) * 65536) (program_image boot_env ?s [2, 3]) (ram ?s)"
    using run_enter_found [OF t assms(3) boot_mounted [OF v] exec_block_simps(2) name(1) boot_program [OF v name(2)] place] by auto
  then show thesis
    using on_volume_tables [OF v t s'(2)] boot_program_image [OF v] by (intro that [of s']) simp_all
qed

lemma boot_runs_second:
  assumes "boot_volume s" "tables v 1 1 1 s"
  obtains s' where "run_enter boot_env exec_block place_params (s\<lparr>params := exec_block\<rparr>) = ret (0, 2, 0x3000, s')"
    "tables v 2 2 2 s'" "boot_volume s'" "ram s' = store_ram 0x30000 (disk_bytes boot_env 1 16896 8192) (ram s)"
  using boot_runs_next [OF assms(1), of v 1] assms(2) by (auto simp: seg_base_def numeral_2_eq_2)

end
