(* ===== verification/User_Library.thy ===== *)
theory User_Library
  imports Boot
begin

text \<open>
  The library programs are linked with: the system call stubs of arch/8088/kernel/io.c, the output and
  input of lib/stdio.c and \<open>system\<close> of lib/stdlib.c.  A program's state is its own variables and the
  kernel's; the programs it runs are the argument \<open>farcall\<close>, as in Kernel.  The names the kernel uses too
  have the prefix \<open>usr_\<close>.
\<close>

section \<open>State\<close>

text \<open>\<open>sysparam\<close> is the block of 576 bytes that a system call exchanges with the kernel, the two buffers are the
  static ones of \<open>itoa\<close> and \<open>ultoa\<close>, and \<open>ustack\<close> is what the memory of uninitialised locals holds.\<close>

record ustate =
  sysparam :: "byte list"
  itoa_buf :: "byte list"
  ultoa_buf :: "byte list"
  ustack :: "byte list"
  kern :: kstate

type_synonym farcall = "u32 \<Rightarrow> kstate \<Rightarrow> kstate run"

text \<open>The 576 bytes of the block are copied to the kernel and back (arch/8088/kernel/dispatch.asm).\<close>

definition user_syscall :: "farcall \<Rightarrow> env \<Rightarrow> int \<Rightarrow> ustate \<Rightarrow> ustate run" where
  "user_syscall fc e service u =
     obind (Some (fetch (sysparam u) 0 576)) (\<lambda>b.
     obind (dispatch fc e service ((kern u)\<lparr>params := b\<rparr>)) (\<lambda>s.
     obind (Some (fetch (params s) 0 576)) (\<lambda>b. ret (u\<lparr>sysparam := b, kern := s\<rparr>))))"

text \<open>Stores to the members of the block: \<open>data\<close> at 0, \<open>size\<close> at 512, \<open>fd\<close> at 516, \<open>offset\<close> at 520.\<close>

definition put_sysparam :: "nat \<Rightarrow> byte list \<Rightarrow> ustate \<Rightarrow> ustate res" where
  "put_sysparam off b u = rbind (store (sysparam u) off b) (\<lambda>p. Inr (u\<lparr>sysparam := p\<rparr>))"

definition copy_sysparam :: "byte list \<Rightarrow> int \<Rightarrow> ustate \<Rightarrow> ustate res" where
  "copy_sysparam src n u = rbind (memcpy (sysparam u) src n) (\<lambda>p. Inr (u\<lparr>sysparam := p\<rparr>))"

section \<open>arch/8088/kernel/io.c\<close>

definition call_int :: "farcall \<Rightarrow> env \<Rightarrow> ustate \<Rightarrow> ustate run" where
  "call_int fc e u = user_syscall fc e 0 u"

definition usr_halt :: "farcall \<Rightarrow> env \<Rightarrow> ustate \<Rightarrow> ustate run" where
  "usr_halt fc e u = user_syscall fc e 1 u"

definition usr_reboot :: "farcall \<Rightarrow> env \<Rightarrow> ustate \<Rightarrow> ustate run" where
  "usr_reboot fc e u = user_syscall fc e 2 u"

definition usr_run_program :: "farcall \<Rightarrow> env \<Rightarrow> byte list \<Rightarrow> ustate \<Rightarrow> (int \<times> ustate) run" where
  "usr_run_program fc e string u =
     obind (Some (copy_sysparam string 576 u)) (\<lambda>u.
     obind (user_syscall fc e 7 u) (\<lambda>u.
     obind (Some (load_byte (sysparam u) 0)) (\<lambda>c. ret (sint c, u))))"

definition usr_get_process_list :: "farcall \<Rightarrow> env \<Rightarrow> ustate \<Rightarrow> ustate run" where
  "usr_get_process_list fc e u = user_syscall fc e 8 u"

definition myopen :: "farcall \<Rightarrow> env \<Rightarrow> byte list \<Rightarrow> ustate \<Rightarrow> (int \<times> ustate) run" where
  "myopen fc e pathname u =
     obind (Some (strlen pathname)) (\<lambda>n.
     obind (Some (copy_sysparam pathname (int n) u)) (\<lambda>u.
     obind (user_syscall fc e 10 u) (\<lambda>u.
     ret (sint (le32 (take 4 (drop 516 (sysparam u)))), u))))"

definition myclose :: "farcall \<Rightarrow> env \<Rightarrow> int \<Rightarrow> ustate \<Rightarrow> ustate run" where
  "myclose fc e fd u =
     obind (Some (put_sysparam 516 (bytes32 (word_of_int fd)) u)) (\<lambda>u. user_syscall fc e 11 u)"

definition mylseek :: "farcall \<Rightarrow> env \<Rightarrow> int \<Rightarrow> u32 \<Rightarrow> ustate \<Rightarrow> ustate run" where
  "mylseek fc e fildes offset u =
     obind (Some (put_sysparam 516 (bytes32 (word_of_int fildes)) u)) (\<lambda>u.
     obind (Some (put_sysparam 520 (bytes32 offset) u)) (\<lambda>u. user_syscall fc e 12 u))"

definition myread :: "farcall \<Rightarrow> env \<Rightarrow> int \<Rightarrow> byte list \<Rightarrow> u32 \<Rightarrow> ustate \<Rightarrow> (byte list \<times> ustate) run" where
  "myread fc e fd buf count u =
     obind (Some (put_sysparam 516 (bytes32 (word_of_int fd)) u)) (\<lambda>u.
     obind (Some (put_sysparam 512 (bytes32 count) u)) (\<lambda>u.
     obind (user_syscall fc e 13 u) (\<lambda>u.
     obind (Some (memcpy buf (sysparam u) (sint count))) (\<lambda>buf. ret (buf, u)))))"

definition mywrite :: "farcall \<Rightarrow> env \<Rightarrow> int \<Rightarrow> byte list \<Rightarrow> u32 \<Rightarrow> ustate \<Rightarrow> ustate run" where
  "mywrite fc e fd buf count u =
     obind (Some (put_sysparam 516 (bytes32 (word_of_int fd)) u)) (\<lambda>u.
     obind (Some (put_sysparam 512 (bytes32 count) u)) (\<lambda>u.
     obind (Some (copy_sysparam buf (sint count) u)) (\<lambda>u. user_syscall fc e 14 u)))"

definition usr_time :: "farcall \<Rightarrow> env \<Rightarrow> ustate \<Rightarrow> ustate run" where
  "usr_time fc e u = user_syscall fc e 15 u"

section \<open>lib/stdio.c and lib/stdlib.c\<close>

definition putchar :: "farcall \<Rightarrow> env \<Rightarrow> byte \<Rightarrow> ustate \<Rightarrow> ustate run" where
  "putchar fc e c u = mywrite fc e 1 [c] 1 u"

definition getchar :: "farcall \<Rightarrow> env \<Rightarrow> ustate \<Rightarrow> (byte \<times> ustate) run" where
  "getchar fc e u =
     obind (myread fc e 0 (take 1 (ustack u)) 1 u) (\<lambda>(b, u).
     obind (Some (load_byte b 0)) (\<lambda>c. ret (c, u)))"

text \<open>A stream; of its members only \<open>fd\<close> is ever used.  The one \<open>printf\<close> makes up is a local of which only \<open>fd\<close> is set:
  the rest is what its 28 bytes of the stack hold.\<close>

record FILE =
  file_level :: u16
  file_token :: u16
  file_bsize :: u16
  file_fd :: byte
  file_flags :: u32
  file_hold :: byte
  file_buffer :: u32
  file_curp :: u32
  file_istemp :: u32

definition stack_FILE :: "byte list \<Rightarrow> FILE" where
  "stack_FILE b = \<lparr>file_level = le16 (take 2 b), file_token = le16 (take 2 (drop 2 b)), file_bsize = le16 (take 2 (drop 4 b)),
     file_fd = b ! 6, file_flags = le32 (take 4 (drop 8 b)), file_hold = b ! 12, file_buffer = le32 (take 4 (drop 16 b)),
     file_curp = le32 (take 4 (drop 20 b)), file_istemp = le32 (take 4 (drop 24 b))\<rparr>"

definition fgetc :: "farcall \<Rightarrow> env \<Rightarrow> FILE \<Rightarrow> ustate \<Rightarrow> (int \<times> ustate) run" where
  "fgetc fc e stream u =
     (if file_fd stream = 0 then obind (getchar fc e u) (\<lambda>(c, u). ret (sint c, u)) else ret (0, u))"

definition fputc :: "farcall \<Rightarrow> env \<Rightarrow> int \<Rightarrow> FILE \<Rightarrow> ustate \<Rightarrow> (int \<times> ustate) run" where
  "fputc fc e c stream u =
     obind (mywrite fc e (sint (file_fd stream)) (bytes32 (word_of_int c)) 1 u) (\<lambda>u. ret (0, u))"

definition usr_itoa :: "int \<Rightarrow> ustate \<Rightarrow> (byte list \<times> ustate) res" where
  "usr_itoa i u = rbind (itoa (itoa_buf u) i) (\<lambda>(b, p). Inr (drop p b, u\<lparr>itoa_buf := b\<rparr>))"

definition usr_ultoa :: "u32 \<Rightarrow> ustate \<Rightarrow> (byte list \<times> ustate) res" where
  "usr_ultoa i u = rbind (ultoa (ultoa_buf u) i) (\<lambda>(b, p). Inr (drop p b, u\<lparr>ultoa_buf := b\<rparr>))"

text \<open>A variable argument: \<open>va_arg\<close> with another type, or with none left, is a fault.\<close>

datatype va = VInt int | VStr "byte list"

function put_string :: "farcall \<Rightarrow> env \<Rightarrow> byte list \<Rightarrow> nat \<Rightarrow> ustate \<Rightarrow> ustate run" where
  "put_string fc e sval i u =
     obind (Some (load_byte sval i)) (\<lambda>c.
     if c \<noteq> 0 then obind (putchar fc e c u) (\<lambda>u. put_string fc e sval (Suc i) u) else ret u)"
  by pat_completeness auto
termination
  by (relation "measure (\<lambda>(fc, e, sval, i, u). length sval - i)") (auto dest!: load_byte_InrD)

definition put_int :: "farcall \<Rightarrow> env \<Rightarrow> int \<Rightarrow> ustate \<Rightarrow> ustate run" where
  "put_int fc e ival u =
     obind (Some (usr_itoa ival u)) (\<lambda>(str, u).
     obind (Some (strcpy (take 7 (ustack u)) str)) (\<lambda>strnum.
     obind (Some (strlen strnum)) (\<lambda>n. mywrite fc e 1 strnum (of_nat n) u)))"

function vfprintf_loop :: "farcall \<Rightarrow> env \<Rightarrow> byte list \<Rightarrow> va list \<Rightarrow> nat \<Rightarrow> ustate \<Rightarrow> (int \<times> ustate) run" where
  "vfprintf_loop fc e template ap i u =
     obind (Some (load_byte template i)) (\<lambda>c.
     if c = 0 then ret (int i, u)
     else if c \<noteq> 37 then obind (putchar fc e c u) (\<lambda>u. vfprintf_loop fc e template ap (Suc i) u)
     else obind (Some (load_byte template (Suc i))) (\<lambda>d.
       if d = 115
       then (case ap of
           VStr sval # ap' \<Rightarrow> obind (put_string fc e sval 0 u) (\<lambda>u. vfprintf_loop fc e template ap' (i + 2) u)
         | _ \<Rightarrow> Some (Inl ReadPast))
       else if d = 100
       then (case ap of
           VInt ival # ap' \<Rightarrow> obind (put_int fc e ival u) (\<lambda>u. vfprintf_loop fc e template ap' (i + 2) u)
         | _ \<Rightarrow> Some (Inl ReadPast))
       else vfprintf_loop fc e template ap (Suc i) u))"
  by pat_completeness auto
termination
  by (relation "measure (\<lambda>(fc, e, template, ap, i, u). length template - i)") (auto dest!: load_byte_InrD)

declare put_string.simps [simp del] vfprintf_loop.simps [simp del]

definition vfprintf :: "farcall \<Rightarrow> env \<Rightarrow> FILE \<Rightarrow> byte list \<Rightarrow> va list \<Rightarrow> ustate \<Rightarrow> (int \<times> ustate) run" where
  "vfprintf fc e stream template ap u = (if file_fd stream = 1 then vfprintf_loop fc e template ap 0 u else ret (0, u))"

definition fprintf :: "farcall \<Rightarrow> env \<Rightarrow> FILE \<Rightarrow> byte list \<Rightarrow> va list \<Rightarrow> ustate \<Rightarrow> (int \<times> ustate) run" where
  "fprintf fc e stream format va u = vfprintf fc e stream format va u"

definition printf :: "farcall \<Rightarrow> env \<Rightarrow> byte list \<Rightarrow> va list \<Rightarrow> ustate \<Rightarrow> (int \<times> ustate) run" where
  "printf fc e format va u = vfprintf fc e ((stack_FILE (ustack u))\<lparr>file_fd := 1\<rparr>) format va u"

definition usr_system :: "farcall \<Rightarrow> env \<Rightarrow> byte list \<Rightarrow> ustate \<Rightarrow> (int \<times> ustate) run" where
  "usr_system fc e command u = usr_run_program fc e command u"

text \<open>\<open>list_root_files\<close> of arch/8088/kernel/io.c, which prints: the records of the reply are copied to the
  caller's buffer one by one.\<close>

fun usr_list_loop :: "byte list \<Rightarrow> nat \<Rightarrow> nat \<Rightarrow> byte list \<Rightarrow> byte list res" where
  "usr_list_loop param i 0 buf = Inr buf"
| "usr_list_loop param i (Suc n) buf =
     rbind (memcpy_at buf (28 * i) (drop (28 * i) param) 28) (\<lambda>buf. usr_list_loop param (Suc i) n buf)"

definition usr_list_root_files :: "farcall \<Rightarrow> env \<Rightarrow> byte list \<Rightarrow> ustate \<Rightarrow> (int \<times> byte list \<times> ustate) run" where
  "usr_list_root_files fc e buf u =
     obind (myopen fc e (cstr ''/'') u) (\<lambda>(fd, u).
     obind (printf fc e (lit ''opened / with file descriptor %d'' @ crlf) [VInt fd] u) (\<lambda>(_, u).
     obind (user_syscall fc e 9 u) (\<lambda>u.
     let files = sint (le32 (take 4 (drop 512 (sysparam u)))) in
     obind (Some (usr_list_loop (sysparam u) 0 (nat files) buf)) (\<lambda>buf. ret (files, buf, u)))))"

end
