(* ===== verification/User_Text.thy ===== *)
theory User_Text
  imports User_Library
begin

text \<open>
  What the library's input and output do on the console: \<open>printf\<close> against a reference that formats the whole
  text at once, and reading a key.
\<close>

section \<open>Running states\<close>

text \<open>The buffers have their declared sizes, and the kernel's keyboard descriptor is open.\<close>

definition usr_ok :: "ustate \<Rightarrow> bool" where
  "usr_ok u \<longleftrightarrow> length (sysparam u) = 576 \<and> length (itoa_buf u) = 7 \<and> length (ultoa_buf u) = 12
     \<and> 1024 \<le> length (ustack u) \<and> length (params (kern u)) = 576"

text \<open>\<open>printed t u u'\<close>: from \<open>u\<close> to \<open>u'\<close> the text \<open>t\<close> has gone to the console; apart from that only the parameter
  blocks and the number buffers may differ.\<close>

definition printed :: "byte list \<Rightarrow> ustate \<Rightarrow> ustate \<Rightarrow> bool" where
  "printed t u u' \<longleftrightarrow> usr_ok u' \<and> (\<exists>p a b q. u' = u\<lparr>sysparam := p, itoa_buf := a, ultoa_buf := b,
     kern := (shown t (kern u))\<lparr>params := q\<rparr>\<rparr>)"

lemma printed_ok: "printed t u u' \<Longrightarrow> usr_ok u'"
  by (simp add: printed_def)

lemma printed_stack [simp]: "printed t u u' \<Longrightarrow> ustack u' = ustack u"
  by (auto simp: printed_def)

lemma printed_refl: "usr_ok u \<Longrightarrow> printed [] u u"
  unfolding printed_def
  by (intro conjI exI [of _ "sysparam u"] exI [of _ "itoa_buf u"] exI [of _ "ultoa_buf u"] exI [of _ "params (kern u)"]) simp_all

lemma printed_trans: "printed t u v \<Longrightarrow> printed t' v w \<Longrightarrow> printed (t @ t') u w"
  unfolding printed_def by (clarsimp simp: shown_def) blast

lemma printed_kern: "printed t u u' \<Longrightarrow> \<exists>q. length q = 576 \<and> kern u' = (shown t (kern u))\<lparr>params := q\<rparr>"
  by (auto simp: printed_def usr_ok_def)

lemma store_in: "off + length xs \<le> length b \<Longrightarrow> store b off xs = Inr (take off b @ xs @ drop (off + length xs) b)"
  by (simp add: store_def)

lemma fetch_all [simp]: "length b = n \<Longrightarrow> fetch b 0 n = Inr b"
  by (simp add: fetch_def)

section \<open>Output\<close>

lemma sint_u32_of_nat: "n < 2 ^ 31 \<Longrightarrow> sint (of_nat n :: u32) = int n"
  by (simp add: sint_uint signed_take_bit_int_eq_self unsigned_of_nat take_bit_nat_eq_self)

lemma mywrite_prints:
  assumes "usr_ok u" "n \<le> 512" "n \<le> length buf"
  shows "gives (printed (take n buf) u) (mywrite fc e 1 buf (of_nat n) u)"
proof -
  have l: "length (sysparam u) = 576" using assms(1) by (simp add: usr_ok_def)
  let ?p = "take n buf @ drop n (take 512 (sysparam u)) @ bytes32 (of_nat n) @ bytes32 1 @ drop 520 (sysparam u)"
  let ?s = "(kern u)\<lparr>params := ?p\<rparr>"
  have n: "sint (of_nat n :: u32) = int n" "unat (of_nat n :: u32) = n"
    using assms(2) by (simp_all add: sint_u32_of_nat unat_u32_of_nat)
  have p: "length ?p = 576" using l assms(2,3) by simp
  have "md_fd ?s = 1" "md_size ?s = of_nat n"
    using assms(2,3) l by (simp_all add: md_fd_def md_size_def)
  then have call: "dispatch fc e 14 ?s = ret (shown (take n buf) ?s)"
    using p n assms(2,3) by (simp add: dispatch_def service_call_def no_value_def write_fd_eq Let_def)
  have "mywrite fc e 1 buf (of_nat n) u = user_syscall fc e 14 (u\<lparr>sysparam := ?p\<rparr>)"
    using assms(2,3) l n
    by (simp add: mywrite_def put_sysparam_def copy_sysparam_def store_in memcpy_eq take_append drop_append min_def)
  also have "\<dots> = ret (u\<lparr>sysparam := ?p, kern := shown (take n buf) ?s\<rparr>)"
    unfolding user_syscall_def using call p by simp
  finally have r: "mywrite fc e 1 buf (of_nat n) u = ret (u\<lparr>sysparam := ?p, kern := shown (take n buf) ?s\<rparr>)" .
  have "printed (take n buf) u (u\<lparr>sysparam := ?p, kern := shown (take n buf) ?s\<rparr>)"
    unfolding printed_def using assms(1) p
    by (intro conjI exI [of _ ?p] exI [of _ "itoa_buf u"] exI [of _ "ultoa_buf u"]) (simp_all add: usr_ok_def shown_def)
  with r show ?thesis by simp
qed

lemma putchar_prints: "usr_ok u \<Longrightarrow> gives (printed [c] u) (putchar fc e c u)"
  using mywrite_prints [of u 1 "[c]"] by (simp add: putchar_def)

text \<open>Output composes.\<close>

lemma printed_bind:
  assumes "gives (printed t u) m" and "\<And>v. printed t u v \<Longrightarrow> gives (printed t' v) (f v)"
  shows "gives (printed (t @ t') u) (obind m f)"
  using assms(1)
proof (rule gives_obind)
  fix v assume v: "printed t u v"
  from assms(2) [OF v] show "gives (printed (t @ t') u) (f v)"
    by (rule gives_mono) (rule printed_trans [OF v])
qed

lemma put_string_prints:
  assumes "usr_ok u" "terminated (drop i s)"
  shows "gives (printed (cval (drop i s)) u) (put_string fc e s i u)"
  using assms
proof (induction "length s - i" arbitrary: i u)
  case 0
  then show ?case by (simp add: terminated_def)
next
  case (Suc k)
  then have i: "i < length s" by simp
  note d = drop_tail_cons [OF i]
  show ?case
  proof (cases "s ! i = 0")
    case True
    with i Suc.prems printed_refl show ?thesis by (subst put_string.simps) (simp add: d cval_Cons)
  next
    case False
    have "gives (printed ([s ! i] @ cval (drop (Suc i) s)) u)
        (obind (putchar fc e (s ! i) u) (\<lambda>u. put_string fc e s (Suc i) u))"
      using Suc False i
      by (intro printed_bind putchar_prints Suc.hyps(1)) (auto simp: d terminated_Cons dest: printed_ok)
    with False i show ?thesis by (subst put_string.simps) (simp add: d cval_Cons)
  qed
qed

lemma usr_itoa_eq:
  assumes "usr_ok u" "- (10 ^ 5) < i" "i < 10 ^ 6"
  shows "\<exists>b. usr_itoa i u = Inr (decimal i @ [0], u\<lparr>itoa_buf := b\<rparr>) \<and> length b = 7"
  using assms itoa_eq [of "itoa_buf u" i] by (auto simp: usr_ok_def usr_itoa_def)

lemma usr_ultoa_eq:
  assumes "usr_ok u"
  shows "\<exists>b. usr_ultoa i u = Inr (dec (unat i) @ [0], u\<lparr>ultoa_buf := b\<rparr>) \<and> length b = 12"
  using assms ultoa_eq [of "ultoa_buf u" i] by (auto simp: usr_ok_def usr_ultoa_def)

lemma decimal_length: "- (10 ^ 5) < i \<Longrightarrow> i < 10 ^ 6 \<Longrightarrow> length (decimal i) \<le> 6"
  using dec_length [of "nat (- i)" 4] dec_length [of "nat i" 5] by (auto simp: decimal_def nat_less_iff)

lemma printed_buf: "usr_ok u \<Longrightarrow> length b = 7 \<Longrightarrow> printed t (u\<lparr>itoa_buf := b\<rparr>) v \<Longrightarrow> printed t u v"
  unfolding printed_def by force

lemma put_int_prints:
  assumes "usr_ok u" "- (10 ^ 5) < i" "i < 10 ^ 6"
  shows "gives (printed (decimal i) u) (put_int fc e i u)"
proof -
  obtain b where b: "usr_itoa i u = Inr (decimal i @ [0], u\<lparr>itoa_buf := b\<rparr>)" "length b = 7"
    using usr_itoa_eq [OF assms] by blast
  let ?d = "decimal i" and ?u = "u\<lparr>itoa_buf := b\<rparr>"
  have u: "usr_ok ?u" using assms(1) b(2) by (simp add: usr_ok_def)
  have l: "length ?d \<le> 6" using decimal_length assms(2,3) .
  have c: "cval (?d @ 0 # r) = ?d" for r by (rule cval_append_NUL [OF decimal_no_NUL])
  have copy: "strcpy (take 7 (ustack ?u)) (?d @ [0]) = Inr (?d @ 0 # drop (Suc (length ?d)) (take 7 (ustack ?u)))"
    using strcpy_eq [of "?d @ [0]" "take 7 (ustack ?u)"] c l u by (simp add: usr_ok_def)
  let ?b = "?d @ 0 # drop (Suc (length ?d)) (take 7 (ustack ?u))"
  have "put_int fc e i u = mywrite fc e 1 ?b (of_nat (length ?d)) ?u"
    unfolding put_int_def b(1) using copy c by simp
  moreover have "gives (printed (take (length ?d) ?b) ?u) (mywrite fc e 1 ?b (of_nat (length ?d)) ?u)"
    using l u by (intro mywrite_prints) simp_all
  ultimately show ?thesis
    using printed_buf [OF assms(1) b(2)] by (auto elim: gives_mono)
qed

section \<open>\<open>printf\<close>\<close>

text \<open>The text of a format with its arguments; none if a directive finds no argument of its type or a number is
  too long for the buffer.  A percent sign before anything but \<open>s\<close> and \<open>d\<close> is dropped.\<close>

fun format_text :: "byte list \<Rightarrow> va list \<Rightarrow> byte list option" where
  "format_text [] ap = Some []"
| "format_text [c] ap = Some (if c = 37 then [] else [c])"
| "format_text (c # d # t) ap =
     (if c \<noteq> 37 then map_option ((#) c) (format_text (d # t) ap)
      else if d = 115 then (case ap of
          VStr s # ap' \<Rightarrow> if terminated s then map_option ((@) (cval s)) (format_text t ap') else None
        | _ \<Rightarrow> None)
      else if d = 100 then (case ap of
          VInt i # ap' \<Rightarrow> if - (10 ^ 5) < i \<and> i < 10 ^ 6 then map_option ((@) (decimal i)) (format_text t ap') else None
        | _ \<Rightarrow> None)
      else format_text (d # t) ap)"

lemma format_text_plain: "37 \<notin> set t \<Longrightarrow> format_text t ap = Some t"
  by (induction t ap rule: format_text.induct) auto

lemma printed_bind_pair:
  assumes "gives (printed t u) m"
    and "\<And>v. printed t u v \<Longrightarrow> gives (\<lambda>(k, w). k = n \<and> printed t' v w) (f v)"
  shows "gives (\<lambda>(k, w). k = n \<and> printed (t @ t') u w) (obind m f)"
  using assms(1)
proof (rule gives_obind)
  fix v assume v: "printed t u v"
  from assms(2) [OF v] show "gives (\<lambda>(k, w). k = n \<and> printed (t @ t') u w) (f v)"
    by (rule gives_mono) (auto intro: printed_trans [OF v])
qed

text \<open>A directive, when the rest of the format is printed as described.\<close>

lemma vfprintf_directive:
  assumes i: "i < length fmt" "fmt ! i = 37" and u: "usr_ok u" and fmt: "terminated (drop i fmt)"
    and described: "format_text (cval (drop i fmt)) ap = Some t"
    and IH: "\<And>j v' ap' t'. \<lbrakk>j = Suc i \<or> j = i + 2; usr_ok v'; terminated (drop j fmt); format_text (cval (drop j fmt)) ap' = Some t'\<rbrakk> \<Longrightarrow>
      gives (\<lambda>(n, v). n = int (j + length (cval (drop j fmt))) \<and> printed t' v' v) (vfprintf_loop fc e fmt ap' j v')"
  shows "gives (\<lambda>(n, v). n = int (i + length (cval (drop i fmt))) \<and> printed t u v) (vfprintf_loop fc e fmt ap i u)"
proof -
  let ?n = "\<lambda>i. int (i + length (cval (drop i fmt)))"
  note d = drop_tail_cons [OF i(1)]
  have i2: "Suc i < length fmt" "terminated (drop (Suc i) fmt)"
    using fmt i(2) by (cases "Suc i < length fmt"; simp add: d terminated_Cons terminated_def)+
  note d2 = drop_tail_cons [OF i2(1)]
  consider (str) "fmt ! Suc i = 115" | (num) "fmt ! Suc i = 100" | (other) "fmt ! Suc i \<noteq> 115" "fmt ! Suc i \<noteq> 100" by auto
  then show ?thesis
  proof cases
    case str
    with described i obtain s ap' t' where
      a: "ap = VStr s # ap'" "terminated s" "format_text (cval (drop (i + 2) fmt)) ap' = Some t'" "t = cval s @ t'"
      by (auto simp: d d2 cval_Cons split: list.splits va.splits if_splits)
    have "gives (\<lambda>(n, v). n = ?n (i + 2) \<and> printed (cval s @ t') u v)
      (obind (put_string fc e s 0 u) (\<lambda>u. vfprintf_loop fc e fmt ap' (i + 2) u))"
      using u a i2 str put_string_prints [of u 0 s]
      by (intro printed_bind_pair IH) (auto simp: d d2 terminated_Cons dest: printed_ok)
    with str i i2 a show ?thesis by (subst vfprintf_loop.simps) (simp add: d d2 cval_Cons)
  next
    case num
    with described i obtain k ap' t' where
      a: "ap = VInt k # ap'" "- (10 ^ 5) < k" "k < 10 ^ 6" "format_text (cval (drop (i + 2) fmt)) ap' = Some t'" "t = decimal k @ t'"
      by (auto simp: d d2 cval_Cons split: list.splits va.splits if_splits)
    have "gives (\<lambda>(n, v). n = ?n (i + 2) \<and> printed (decimal k @ t') u v)
      (obind (put_int fc e k u) (\<lambda>u. vfprintf_loop fc e fmt ap' (i + 2) u))"
      using u a i2 num
      by (intro printed_bind_pair put_int_prints IH) (auto simp: d d2 terminated_Cons dest: printed_ok)
    with num i i2 a show ?thesis by (subst vfprintf_loop.simps) (simp add: d d2 cval_Cons)
  next
    case other
    have "gives (\<lambda>(n, v). n = ?n (Suc i) \<and> printed t u v) (vfprintf_loop fc e fmt ap (Suc i) u)"
      using u described i other i2 by (intro IH) (auto simp: d d2 cval_Cons split: if_splits)
    with other i i2 show ?thesis by (subst vfprintf_loop.simps) (simp add: d d2 cval_Cons)
  qed
qed

lemma vfprintf_loop_prints:
  assumes "usr_ok u" "terminated (drop i fmt)" "format_text (cval (drop i fmt)) ap = Some t"
  shows "gives (\<lambda>(n, v). n = int (i + length (cval (drop i fmt))) \<and> printed t u v) (vfprintf_loop fc e fmt ap i u)"
  using assms
proof (induction "length fmt - i" arbitrary: i u t ap rule: less_induct)
  case less
  from less.prems(2) have i: "i < length fmt" by (cases "i < length fmt") (simp_all add: terminated_def)
  note d = drop_tail_cons [OF i]
  let ?n = "\<lambda>i. int (i + length (cval (drop i fmt)))"
  have IH: "gives (\<lambda>(n, v). n = ?n j \<and> printed t' v' v) (vfprintf_loop fc e fmt ap' j v')"
    if "j = Suc i \<or> j = i + 2" "usr_ok v'" "terminated (drop j fmt)" "format_text (cval (drop j fmt)) ap' = Some t'" for j v' ap' t'
    using that i by (intro less.hyps) auto
  consider (nul) "fmt ! i = 0" | (plain) "fmt ! i \<noteq> 0" "fmt ! i \<noteq> 37" | (percent) "fmt ! i = 37" by auto
  then show ?case
  proof cases
    case nul
    with i less.prems printed_refl show ?thesis by (subst vfprintf_loop.simps) (simp add: d cval_Cons)
  next
    case plain
    then obtain t' where t': "format_text (cval (drop (Suc i) fmt)) ap = Some t'" "t = [fmt ! i] @ t'"
      using less.prems(3) by (cases "cval (drop (Suc i) fmt)") (auto simp: d cval_Cons)
    have "gives (\<lambda>(n, v). n = ?n (Suc i) \<and> printed ([fmt ! i] @ t') u v)
      (obind (putchar fc e (fmt ! i) u) (\<lambda>u. vfprintf_loop fc e fmt ap (Suc i) u))"
      using less.prems plain t'(1)
      by (intro printed_bind_pair putchar_prints IH) (auto simp: d terminated_Cons dest: printed_ok)
    with plain i t'(2) show ?thesis by (subst vfprintf_loop.simps) (simp add: d cval_Cons)
  next
    case percent
    from vfprintf_directive [OF i this less.prems IH] show ?thesis .
  qed
qed

lemma printf_prints:
  assumes "usr_ok u" "terminated fmt" "format_text (cval fmt) ap = Some t"
  shows "gives (\<lambda>(n, v). n = int (length (cval fmt)) \<and> printed t u v) (printf fc e fmt ap u)"
  using vfprintf_loop_prints [of u 0 fmt ap t] assms by (simp add: printf_def vfprintf_def)

end
