(* ===== verification/Programs.thy ===== *)
theory Programs
  imports User_Text
begin

text \<open>
  The programs: utils/shell.c, utils/ls.c, utils/ps.c, utils/demo.c and src/init/init.c, each as a function of the
  program's state.
\<close>

text \<open>A \<open>printf\<close> whose value is not used, with the format as its only argument.\<close>

definition prints :: "farcall \<Rightarrow> env \<Rightarrow> byte list \<Rightarrow> ustate \<Rightarrow> ustate run" where
  "prints fc e format u = obind (printf fc e format [] u) (\<lambda>r. ret (snd r))"

section \<open>utils/shell.c\<close>

text \<open>The loop that reads a line; the length of \<open>buf\<close> is not looked at.\<close>

partial_function (option) read_line ::
    "farcall \<Rightarrow> env \<Rightarrow> byte list \<Rightarrow> nat \<Rightarrow> ustate \<Rightarrow> (byte list \<times> nat \<times> ustate) run" where
  "read_line fc e buf i u =
     obind (getchar fc e u) (\<lambda>r.
     if fst r = 13 then ret (buf, i, snd r)
     else if fst r = 8 \<and> i = 0 then read_line fc e buf i (snd r)
     else if fst r = 8
     then obind (putchar fc e (fst r) (snd r)) (\<lambda>u.
          obind (putchar fc e 32 u) (\<lambda>u.
          obind (putchar fc e 8 u) (\<lambda>u. read_line fc e buf (i - 1) u)))
     else obind (putchar fc e (fst r) (snd r)) (\<lambda>u.
          obind (Some (store_byte buf i (fst r))) (\<lambda>buf. read_line fc e buf (Suc i) u)))"

text \<open>The command \<open>ccc\<close>: ten characters into \<open>buf\<close> from \<open>j\<close> on.\<close>

fun read_chars :: "farcall \<Rightarrow> env \<Rightarrow> nat \<Rightarrow> nat \<Rightarrow> byte list \<Rightarrow> ustate \<Rightarrow> (byte list \<times> ustate) run" where
  "read_chars fc e j 0 buf u = ret (buf, u)"
| "read_chars fc e j (Suc n) buf u =
     obind (getchar fc e u) (\<lambda>(c, u).
     obind (Some (store_byte buf j c)) (\<lambda>buf.
     obind (putchar fc e (buf ! j) u) (\<lambda>u. read_chars fc e (Suc j) n buf u)))"

text \<open>One command; the first component tells whether the loop is left.  \<open>system\<close> is given the address of \<open>buf\<close>, and
  \<open>run_program\<close> copies 576 bytes from there on.\<close>

definition shell_command ::
    "farcall \<Rightarrow> env \<Rightarrow> byte list \<Rightarrow> ustate \<Rightarrow> (bool \<times> byte list \<times> ustate) run" where
  "shell_command fc e buf u =
     (let is_cmd = (\<lambda>t m m'. obind (Some (strcmp buf (cstr t))) (\<lambda>c. if c = 0 then m else m'));
          go_on = (\<lambda>m. obind m (\<lambda>u. ret (False, buf, u))) in
      is_cmd ''syscall'' (go_on (call_int fc e u)) (
      is_cmd ''aaa'' (go_on (prints fc e (cstr ''Hello kernel!'') u)) (
      is_cmd ''bbb'' (go_on (putchar fc e 83 u)) (
      is_cmd ''ccc''
        (obind (read_chars fc e 0 10 buf u) (\<lambda>(buf, u).
         obind (Some (store_byte buf 10 0)) (\<lambda>buf.
         obind (prints fc e crlf u) (\<lambda>u.
         obind (prints fc e buf u) (\<lambda>u. ret (False, buf, u)))))) (
      is_cmd ''halt'' (go_on (usr_halt fc e u)) (
      is_cmd ''reboot'' (go_on (usr_reboot fc e u)) (
      is_cmd ''exit'' (ret (True, buf, u)) (
      is_cmd ''date'' (go_on (usr_time fc e u)) (
      obind (usr_system fc e (buf @ drop 50 (ustack u)) u) (\<lambda>(retcode, u).
      if retcode \<noteq> 0
      then go_on (obind (prints fc e buf u) (\<lambda>u. prints fc e (cstr '': command not found'') u))
      else ret (False, buf, u)))))))))))"

definition shell_line :: "farcall \<Rightarrow> env \<Rightarrow> byte list \<Rightarrow> ustate \<Rightarrow> (byte list \<times> ustate) run" where
  "shell_line fc e buf u =
     obind (prints fc e crlf u) (\<lambda>u.
     obind (prints fc e (cstr ''# '') u) (\<lambda>u.
     obind (read_line fc e buf 0 u) (\<lambda>(buf, i, u).
     obind (prints fc e crlf u) (\<lambda>u.
     obind (Some (store_byte buf i 0)) (\<lambda>buf. ret (buf, u))))))"

partial_function (option) shell_loop :: "farcall \<Rightarrow> env \<Rightarrow> byte list \<Rightarrow> ustate \<Rightarrow> ustate run" where
  "shell_loop fc e buf u =
     obind (shell_line fc e buf u) (\<lambda>r.
     obind (shell_command fc e (fst r) (snd r)) (\<lambda>r.
     if fst r then ret (snd (snd r)) else shell_loop fc e (fst (snd r)) (snd (snd r))))"

definition shell :: "farcall \<Rightarrow> env \<Rightarrow> ustate \<Rightarrow> (int \<times> ustate) run" where
  "shell fc e u = obind (shell_loop fc e (take 50 (ustack u)) u) (\<lambda>u. ret (0, u))"

definition shell_main :: "farcall \<Rightarrow> env \<Rightarrow> ustate \<Rightarrow> ustate run" where
  "shell_main fc e u = obind (shell fc e u) (\<lambda>r. ret (snd r))"

section \<open>src/init/init.c, utils/ps.c, utils/demo.c\<close>

text \<open>The literal \<open>"shell"\<close> is passed with what follows it in memory.\<close>

definition init_main :: "farcall \<Rightarrow> env \<Rightarrow> ustate \<Rightarrow> ustate run" where
  "init_main fc e u =
     obind (prints fc e (lit ''Entered to init...'' @ crlf) u) (\<lambda>u.
     obind (prints fc e (lit ''call to shell...'' @ crlf) u) (\<lambda>u.
     obind (usr_run_program fc e (cstr ''shell'' @ ustack u) u) (\<lambda>r. ret (snd r))))"

definition ps_main :: "farcall \<Rightarrow> env \<Rightarrow> ustate \<Rightarrow> ustate run" where
  "ps_main fc e u = obind (usr_get_process_list fc e u) (\<lambda>u. prints fc e crlf u)"

fun demo_upper :: "nat \<Rightarrow> nat \<Rightarrow> byte list \<Rightarrow> byte list res" where
  "demo_upper i 0 string = Inr string"
| "demo_upper i (Suc n) string =
     rbind (load_byte string i) (\<lambda>c.
     rbind (store_byte string i (word_of_int (toupper (sint c)))) (\<lambda>string. demo_upper (Suc i) n string))"

definition demo_main :: "farcall \<Rightarrow> env \<Rightarrow> ustate \<Rightarrow> ustate run" where
  "demo_main fc e u =
     obind (Some (usr_ultoa 1048576 u)) (\<lambda>(str, u).
     obind (printf fc e (lit ''%s'' @ crlf) [VStr str] u) (\<lambda>(_, u).
     obind (Some (strcpy (take 13 (ustack u)) (cstr ''hello world!''))) (\<lambda>string.
     obind (prints fc e string u) (\<lambda>u.
     obind (Some (demo_upper 0 5 string)) (\<lambda>string. prints fc e string u)))))"

section \<open>utils/ls.c\<close>

text \<open>\<open>curr_entry\<close>: the record number \<open>i\<close> of \<open>buf\<close>, its two strings from their first byte on.\<close>

definition curr_entry :: "byte list \<Rightarrow> nat \<Rightarrow> SYSCALL_FILE_ENTRY res" where
  "curr_entry buf i =
     (if 28 * i + 28 \<le> length buf
      then Inr ((sys_entry_at buf i)\<lparr>se_name := drop (28 * i) buf, se_ext := drop (28 * i + 9) buf\<rparr>)
      else Inl ReadPast)"

definition month_text :: "byte \<Rightarrow> string" where
  "month_text m =
     (if m = 1 then ''Jan'' else if m = 2 then ''Feb'' else if m = 3 then ''Mar'' else if m = 4 then ''Apr''
      else if m = 5 then ''May'' else if m = 6 then ''Jun'' else if m = 7 then ''Jul'' else if m = 8 then ''Aug''
      else if m = 9 then ''Sep'' else if m = 10 then ''Oct'' else if m = 11 then ''Nov'' else if m = 12 then ''Dec''
      else ''   '')"

definition print_itoa :: "farcall \<Rightarrow> env \<Rightarrow> byte \<Rightarrow> ustate \<Rightarrow> ustate run" where
  "print_itoa fc e c u = obind (Some (usr_itoa (sint c) u)) (\<lambda>(str, u). prints fc e str u)"

definition print_ultoa :: "farcall \<Rightarrow> env \<Rightarrow> u32 \<Rightarrow> ustate \<Rightarrow> ustate run" where
  "print_ultoa fc e i u = obind (Some (usr_ultoa i u)) (\<lambda>(str, u). prints fc e str u)"

fun ls_modes :: "farcall \<Rightarrow> env \<Rightarrow> SYSCALL_FILE_ENTRY \<Rightarrow> nat \<Rightarrow> ustate \<Rightarrow> ustate run" where
  "ls_modes fc e entry 0 u = ret u"
| "ls_modes fc e entry (Suc n) u =
     obind (prints fc e (cstr ''r'') u) (\<lambda>u.
     obind (prints fc e (if se_read_only entry \<noteq> 0 then cstr ''-'' else cstr ''w'') u) (\<lambda>u.
     obind (prints fc e (cstr ''x'') u) (\<lambda>u. ls_modes fc e entry n u)))"

definition ls_wide :: "farcall \<Rightarrow> env \<Rightarrow> SYSCALL_FILE_ENTRY \<Rightarrow> ustate \<Rightarrow> ustate run" where
  "ls_wide fc e entry u =
     obind (prints fc e (se_name entry) u) (\<lambda>u.
     obind (prints fc e (cstr ''.'') u) (\<lambda>u.
     obind (prints fc e (se_ext entry) u) (\<lambda>u.
     obind (prints fc e (cstr '' '') u) (\<lambda>u. prints fc e (cstr ''   '') u))))"

definition ls_list :: "farcall \<Rightarrow> env \<Rightarrow> SYSCALL_FILE_ENTRY \<Rightarrow> ustate \<Rightarrow> ustate run" where
  "ls_list fc e entry u =
     obind (prints fc e (if se_dir entry \<noteq> 0 then cstr ''d'' else cstr ''-'') u) (\<lambda>u.
     obind (ls_modes fc e entry 3 u) (\<lambda>u.
     obind (prints fc e (cstr '' root root '') u) (\<lambda>u.
     obind (print_ultoa fc e (se_size entry) u) (\<lambda>u.
     obind (prints fc e (cstr '' '') u) (\<lambda>u.
     obind (prints fc e (cstr (month_text (se_month entry))) u) (\<lambda>u.
     obind (prints fc e (cstr '' '') u) (\<lambda>u.
     obind (print_itoa fc e (se_day entry) u) (\<lambda>u.
     obind (prints fc e (cstr '' '') u) (\<lambda>u.
     obind (print_itoa fc e (se_hours entry) u) (\<lambda>u.
     obind (prints fc e (cstr '':'') u) (\<lambda>u.
     obind (print_itoa fc e (se_minutes entry) u) (\<lambda>u.
     obind (prints fc e (cstr '' '') u) (\<lambda>u.
     obind (prints fc e (se_name entry) u) (\<lambda>u.
     obind (prints fc e (cstr ''.'') u) (\<lambda>u.
     obind (prints fc e (se_ext entry) u) (\<lambda>u. prints fc e crlf u))))))))))))))))"

text \<open>The variable \<open>out_format\<close> is never set: its value is an argument (\<open>FILE_OUT_LIST\<close> is 0, \<open>FILE_OUT_WIDE\<close> 1).\<close>

fun ls_loop :: "farcall \<Rightarrow> env \<Rightarrow> int \<Rightarrow> byte list \<Rightarrow> nat \<Rightarrow> nat \<Rightarrow> u32 \<Rightarrow> ustate \<Rightarrow> (u32 \<times> ustate) run" where
  "ls_loop fc e out_format buf i 0 tot u = ret (tot, u)"
| "ls_loop fc e out_format buf i (Suc n) tot u =
     obind (Some (curr_entry buf i)) (\<lambda>entry.
     obind (if out_format = 1 then ls_wide fc e entry u
            else if out_format = 0 then ls_list fc e entry u else ret u) (\<lambda>u.
     ls_loop fc e out_format buf (Suc i) n (tot + se_size entry) u))"

definition ls_main :: "farcall \<Rightarrow> env \<Rightarrow> int \<Rightarrow> ustate \<Rightarrow> ustate run" where
  "ls_main fc e out_format u =
     obind (usr_list_root_files fc e (take 512 (ustack u)) u) (\<lambda>(files, buf, u).
     obind (ls_loop fc e out_format buf 0 (nat files) 0 u) (\<lambda>(tot, u).
     obind (prints fc e (cstr ''total '') u) (\<lambda>u.
     obind (print_ultoa fc e tot u) (\<lambda>u. prints fc e crlf u))))"

end
