(* ===== verification/Program_Sessions.thy ===== *)
theory Program_Sessions
  imports Programs
begin

text \<open>
  Programs act on the kernel by system calls only: whatever a library function or a program does is a run of the
  steps of Sessions, so that the invariants of the running system hold with these programs.
\<close>

section \<open>Acting by steps\<close>

named_theorems act_intros "library functions and programs act by steps"

definition steps_from :: "env \<Rightarrow> ustate \<Rightarrow> ustate \<Rightarrow> bool" where
  "steps_from e u u' \<longleftrightarrow> (\<forall>f fr. session_steps e (kern u, f # fr) (kern u', f # fr))"

definition acts :: "env \<Rightarrow> ustate \<Rightarrow> ('a \<Rightarrow> ustate) \<Rightarrow> 'a run \<Rightarrow> bool" where
  "acts e u k m \<longleftrightarrow> yields (\<lambda>r. steps_from e u (k r)) m"

lemma steps_from_same: "kern u' = kern u \<Longrightarrow> steps_from e u u'"
  by (simp add: steps_from_def session_steps_refl)

lemma steps_from_trans: "steps_from e u v \<Longrightarrow> steps_from e v w \<Longrightarrow> steps_from e u w"
  unfolding steps_from_def using session_steps_trans by blast

lemma acts_ret [act_intros]: "kern (k r) = kern u \<Longrightarrow> acts e u k (ret r)"
  by (simp add: acts_def steps_from_same)

lemma acts_fault [act_intros]: "acts e u k (Some (Inl f))"
  by (simp add: acts_def)

lemma acts_bind:
  assumes "acts e u k m" "\<And>r. acts e (k r) k' (g r)"
  shows "acts e u k' (obind m g)"
  unfolding acts_def
proof (rule yields_obind)
  show "yields (\<lambda>r. steps_from e u (k r)) m" using assms(1) by (simp add: acts_def)
  fix r assume "steps_from e u (k r)"
  with assms(2) [of r] show "yields (\<lambda>r. steps_from e u (k' r)) (g r)"
    unfolding acts_def by (auto elim!: yields_mono intro: steps_from_trans)
qed

text \<open>Computations on the program's own memory.\<close>

lemma acts_value [act_intros]:
  "(\<And>r. m = Inr r \<Longrightarrow> acts e u k (g r)) \<Longrightarrow> acts e u k (obind (Some m) g)"
  by (cases m) (simp_all add: acts_def)

lemma acts_if [act_intros]: "acts e u k m \<Longrightarrow> acts e u k m' \<Longrightarrow> acts e u k (if b then m else m')"
  by simp

lemma acts_from: "kern v = kern u \<Longrightarrow> acts e v k m \<Longrightarrow> acts e u k m"
  by (simp add: acts_def steps_from_def)

lemma put_sysparam_kern: "put_sysparam off b u = Inr v \<Longrightarrow> kern v = kern u"
  by (auto simp: put_sysparam_def rbind_Inr_iff)

lemma copy_sysparam_kern: "copy_sysparam b n u = Inr v \<Longrightarrow> kern v = kern u"
  by (auto simp: copy_sysparam_def rbind_Inr_iff)

lemma usr_itoa_kern: "usr_itoa i u = Inr r \<Longrightarrow> kern (snd r) = kern u"
  by (auto simp: usr_itoa_def rbind_Inr_iff)

lemma usr_ultoa_kern: "usr_ultoa i u = Inr r \<Longrightarrow> kern (snd r) = kern u"
  by (auto simp: usr_ultoa_def rbind_Inr_iff)

section \<open>The library\<close>

text \<open>What the library needs of the programs it runs: they act by steps themselves.\<close>

locale stepping_programs =
  fixes fc :: "u32 \<Rightarrow> kstate \<Rightarrow> kstate run" and e :: env
  assumes prog: "session_program e fc"
begin

lemma user_syscall_acts: "kern v = kern u \<Longrightarrow> acts e u id (user_syscall fc e service v)"
proof (rule acts_from)
  show "acts e v id (user_syscall fc e service v)"
    unfolding user_syscall_def
  proof (rule acts_value)
    fix b assume "fetch (sysparam v) 0 576 = Inr b"
    then have "length b = 576" by (rule fetch_length)
    then have d: "yields (\<lambda>s. steps_from e v (v\<lparr>kern := s\<rparr>)) (dispatch fc e service ((kern v)\<lparr>params := b\<rparr>))"
      unfolding yields_def steps_from_def using dispatch_runs_session_eq [OF prog] by simp
    show "acts e v id (obind (dispatch fc e service ((kern v)\<lparr>params := b\<rparr>)) (\<lambda>s.
       obind (Some (fetch (params s) 0 576)) (\<lambda>b. ret (v\<lparr>sysparam := b, kern := s\<rparr>))))"
      unfolding acts_def by (rule yields_obind [OF d]) (simp add: steps_from_def fetch_def)
  qed
qed

lemmas call_acts = acts_ret acts_fault acts_value acts_if user_syscall_acts
lemmas own_memory = put_sysparam_kern copy_sysparam_kern usr_itoa_kern usr_ultoa_kern

lemma stub_acts:
  assumes "kern v = kern u"
  shows "acts e u id (call_int fc e v)" "acts e u id (usr_halt fc e v)" "acts e u id (usr_reboot fc e v)"
    "acts e u id (usr_get_process_list fc e v)" "acts e u id (usr_time fc e v)" "acts e u id (myclose fc e fd v)"
    "acts e u id (mylseek fc e fd off v)" "acts e u id (mywrite fc e fd buf n v)" "acts e u snd (myread fc e fd buf n v)"
    "acts e u snd (myopen fc e path v)" "acts e u snd (usr_run_program fc e str v)" "acts e u snd (usr_system fc e str v)"
  using assms
  by (auto simp: call_int_def usr_halt_def usr_reboot_def usr_get_process_list_def usr_time_def myclose_def mylseek_def
      mywrite_def myread_def myopen_def usr_run_program_def usr_system_def dest!: own_memory
      intro!: call_acts acts_bind [OF user_syscall_acts])

lemma putchar_acts: "kern v = kern u \<Longrightarrow> acts e u id (putchar fc e c v)"
  by (simp add: putchar_def stub_acts)

lemma getchar_acts: "kern v = kern u \<Longrightarrow> acts e u snd (getchar fc e v)"
  unfolding getchar_def by (auto intro!: call_acts acts_bind [OF stub_acts(9)])

lemma fputc_acts: "kern v = kern u \<Longrightarrow> acts e u snd (fputc fc e c fd v)"
  unfolding fputc_def by (auto intro!: call_acts acts_bind [OF stub_acts(8)])

lemma fgetc_acts: "kern v = kern u \<Longrightarrow> acts e u snd (fgetc fc e fd v)"
  unfolding fgetc_def by (auto intro!: call_acts acts_bind [OF getchar_acts])

lemma put_string_acts: "kern v = kern u \<Longrightarrow> acts e u id (put_string fc e s i v)"
proof (induction "length s - i" arbitrary: i u v rule: less_induct)
  case less
  show ?case
    by (subst put_string.simps, rule acts_value)
      (auto dest!: load_byte_InrD intro!: call_acts acts_bind [OF putchar_acts] less)
qed

lemma put_int_acts: "kern v = kern u \<Longrightarrow> acts e u id (put_int fc e i v)"
  unfolding put_int_def by (auto dest!: own_memory intro!: call_acts stub_acts(8))

lemma vfprintf_loop_acts: "kern v = kern u \<Longrightarrow> acts e u snd (vfprintf_loop fc e fmt ap i v)"
proof (induction "length fmt - i" arbitrary: i u v ap rule: less_induct)
  case less
  show ?case
  proof (subst vfprintf_loop.simps, rule acts_value)
    fix c assume "load_byte fmt i = Inr c"
    then have "length fmt - Suc i < length fmt - i" "length fmt - (i + 2) < length fmt - i"
      by (auto dest!: load_byte_InrD)
    with less show "acts e u snd (if c = 0 then ret (int i, v)
     else if c \<noteq> 37 then obind (putchar fc e c v) (\<lambda>u. vfprintf_loop fc e fmt ap (Suc i) u)
     else obind (Some (load_byte fmt (Suc i))) (\<lambda>d.
       if d = 115
       then (case ap of
           VStr sval # ap' \<Rightarrow> obind (put_string fc e sval 0 v) (\<lambda>u. vfprintf_loop fc e fmt ap' (i + 2) u)
         | _ \<Rightarrow> Some (Inl ReadPast))
       else if d = 100
       then (case ap of
           VInt ival # ap' \<Rightarrow> obind (put_int fc e ival v) (\<lambda>u. vfprintf_loop fc e fmt ap' (i + 2) u)
         | _ \<Rightarrow> Some (Inl ReadPast))
       else vfprintf_loop fc e fmt ap (Suc i) v))"
      by (auto intro!: call_acts acts_bind [OF putchar_acts] acts_bind [OF put_string_acts] acts_bind [OF put_int_acts]
          split: list.splits va.splits)
  qed
qed

lemma printf_acts: "kern v = kern u \<Longrightarrow> acts e u snd (printf fc e fmt ap v)"
  by (simp add: printf_def vfprintf_def vfprintf_loop_acts)

lemma fprintf_acts: "kern v = kern u \<Longrightarrow> acts e u snd (fprintf fc e fd fmt ap v)"
  by (simp add: fprintf_def vfprintf_def vfprintf_loop_acts acts_ret)

lemma prints_acts: "kern v = kern u \<Longrightarrow> acts e u id (prints fc e fmt v)"
  unfolding prints_def by (auto intro!: acts_bind [OF printf_acts] acts_ret)

lemma list_root_files_acts: "kern v = kern u \<Longrightarrow> acts e u (snd \<circ> snd) (usr_list_root_files fc e buf v)"
  unfolding usr_list_root_files_def Let_def
  by (auto intro!: call_acts acts_bind [OF stub_acts(10)] acts_bind [OF printf_acts] acts_bind [OF user_syscall_acts])

section \<open>The programs\<close>

lemma read_line_acts:
  assumes "read_line fc e buf i u = Some r"
  shows "acts e u (snd \<circ> snd) (Some r)"
proof (rule read_line.raw_induct [where P = "\<lambda>fc' e' buf i u r. fc' = fc \<longrightarrow> e' = e \<longrightarrow> acts e u (snd \<circ> snd) (Some r)", rule_format, OF _ assms refl refl])
  fix self fc' e' buf i u r
  assume IH: "\<And>fc' e' buf i u r. self fc' e' buf i u = Some r \<Longrightarrow> fc' = fc \<Longrightarrow> e' = e \<Longrightarrow> acts e u (snd \<circ> snd) (Some r)"
    and run: "obind (getchar fc' e' u) (\<lambda>r.
     if fst r = 13 then ret (buf, i, snd r)
     else if fst r = 8 \<and> i = 0 then self fc' e' buf i (snd r)
     else if fst r = 8
     then obind (putchar fc' e' (fst r) (snd r)) (\<lambda>u.
          obind (putchar fc' e' 32 u) (\<lambda>u.
          obind (putchar fc' e' 8 u) (\<lambda>u. self fc' e' buf (i - 1) u)))
     else obind (putchar fc' e' (fst r) (snd r)) (\<lambda>u.
          obind (Some (store_byte buf i (fst r))) (\<lambda>buf. self fc' e' buf (Suc i) u))) = Some r"
    and eqs: "fc' = fc" "e' = e"
  have self: "acts e v (snd \<circ> snd) (self fc e b j w)" if "kern w = kern v" for b j v w
  proof (rule acts_from [OF that])
    show "acts e w (snd \<circ> snd) (self fc e b j w)"
      using IH [of fc e b j w] by (cases "self fc e b j w") (auto simp: acts_def)
  qed
  show "acts e u (snd \<circ> snd) (Some r)"
    unfolding run [symmetric] eqs
    by (auto intro!: acts_bind [OF getchar_acts] acts_bind [OF putchar_acts] call_acts self)
qed

lemma read_line_acts': "kern v = kern u \<Longrightarrow> acts e u (snd \<circ> snd) (read_line fc e buf i v)"
  by (rule acts_from, assumption) (cases "read_line fc e buf i v", auto simp: acts_def dest: read_line_acts)

lemma read_chars_acts: "kern v = kern u \<Longrightarrow> acts e u snd (read_chars fc e j n buf v)"
  by (induction n arbitrary: j buf u v)
    (auto intro!: call_acts acts_bind [OF getchar_acts] acts_bind [OF putchar_acts])

lemma shell_command_acts: "kern v = kern u \<Longrightarrow> acts e u (snd \<circ> snd) (shell_command fc e buf v)"
  unfolding shell_command_def Let_def
  by (intro acts_value acts_if)
    (auto intro!: call_acts acts_bind [OF stub_acts(1)] acts_bind [OF stub_acts(2)] acts_bind [OF stub_acts(3)]
      acts_bind [OF stub_acts(5)] acts_bind [OF stub_acts(12)] acts_bind [OF prints_acts] acts_bind [OF putchar_acts]
      acts_bind [OF read_chars_acts] simp: obind_assoc)

lemma shell_line_acts: "kern v = kern u \<Longrightarrow> acts e u snd (shell_line fc e buf v)"
  unfolding shell_line_def by (auto intro!: call_acts acts_bind [OF prints_acts] acts_bind [OF read_line_acts'])

lemma shell_loop_acts:
  assumes "shell_loop fc e buf u = Some r"
  shows "acts e u id (Some r)"
proof (rule shell_loop.raw_induct [where P = "\<lambda>fc' e' buf u r. fc' = fc \<longrightarrow> e' = e \<longrightarrow> acts e u id (Some r)", rule_format, OF _ assms refl refl])
  fix self fc' e' buf u r
  assume IH: "\<And>fc' e' buf u r. self fc' e' buf u = Some r \<Longrightarrow> fc' = fc \<Longrightarrow> e' = e \<Longrightarrow> acts e u id (Some r)"
    and run: "obind (shell_line fc' e' buf u) (\<lambda>r.
     obind (shell_command fc' e' (fst r) (snd r)) (\<lambda>r.
     if fst r then ret (snd (snd r)) else self fc' e' (fst (snd r)) (snd (snd r)))) = Some r"
    and eqs: "fc' = fc" "e' = e"
  have self: "acts e v id (self fc e b w)" if "kern w = kern v" for b v w
  proof (rule acts_from [OF that])
    show "acts e w id (self fc e b w)"
      using IH [of fc e b w] by (cases "self fc e b w") (auto simp: acts_def)
  qed
  show "acts e u id (Some r)"
    unfolding run [symmetric] eqs
    by (auto intro!: acts_bind [OF shell_line_acts] acts_bind [OF shell_command_acts] call_acts self)
qed

lemma shell_main_acts: "acts e u id (shell_main fc e u)"
proof -
  have "acts e u id (shell_loop fc e b u)" for b
    by (cases "shell_loop fc e b u") (auto simp: acts_def dest: shell_loop_acts)
  then show ?thesis
    unfolding shell_main_def shell_def by (auto intro!: acts_bind acts_ret simp: obind_assoc)
qed

lemma init_main_acts: "acts e u id (init_main fc e u)"
  unfolding init_main_def by (auto intro!: acts_bind [OF prints_acts] acts_bind [OF stub_acts(11)] acts_ret)

lemma ps_main_acts: "acts e u id (ps_main fc e u)"
  unfolding ps_main_def by (auto intro!: acts_bind [OF stub_acts(4)] prints_acts)

lemma demo_main_acts: "acts e u id (demo_main fc e u)"
  unfolding demo_main_def
  by (auto dest!: own_memory intro!: call_acts acts_bind [OF printf_acts] acts_bind [OF prints_acts] prints_acts)

lemma print_number_acts:
  "kern v = kern u \<Longrightarrow> acts e u id (print_itoa fc e c v)" "kern v = kern u \<Longrightarrow> acts e u id (print_ultoa fc e i v)"
  unfolding print_itoa_def print_ultoa_def by (auto dest!: own_memory intro!: call_acts prints_acts)

lemma ls_modes_acts: "kern v = kern u \<Longrightarrow> acts e u id (ls_modes fc e entry n v)"
  by (induction n arbitrary: u v) (auto intro!: acts_bind [OF prints_acts] acts_ret)

lemma ls_entry_acts: "kern v = kern u \<Longrightarrow> acts e u id (ls_wide fc e entry v)" "kern v = kern u \<Longrightarrow> acts e u id (ls_list fc e entry v)"
  unfolding ls_wide_def ls_list_def
  by (auto intro!: acts_bind [OF prints_acts] acts_bind [OF ls_modes_acts] acts_bind [OF print_number_acts(1)]
      acts_bind [OF print_number_acts(2)] prints_acts)

lemma ls_loop_acts: "kern v = kern u \<Longrightarrow> acts e u snd (ls_loop fc e out_format buf i n tot v)"
proof (induction n arbitrary: i tot u v)
  case (Suc n)
  have one: "acts e u id (if out_format = 1 then ls_wide fc e entry v else if out_format = 0 then ls_list fc e entry v else ret v)" for entry
    using Suc.prems by (intro acts_if ls_entry_acts acts_ret) simp_all
  show ?case unfolding ls_loop.simps by (rule acts_value, rule acts_bind [OF one], rule Suc.IH) simp
qed (simp add: acts_ret)

lemma ls_main_acts: "acts e u id (ls_main fc e out_format u)"
  unfolding ls_main_def
  by (auto intro!: acts_bind [OF list_root_files_acts] acts_bind [OF ls_loop_acts] acts_bind [OF prints_acts]
      acts_bind [OF print_number_acts(2)] prints_acts)

end

section \<open>A system of these programs\<close>

text \<open>
  \<open>prog_at\<close> says which program lies in a segment and \<open>fresh\<close> what its memory holds when it is entered.  Programs
  run programs: \<open>world n\<close> is what is reached with at most \<open>n\<close> programs nested.
\<close>

datatype program = Init | Shell | Ls int | Ps | Demo

fun program_main :: "program \<Rightarrow> farcall \<Rightarrow> env \<Rightarrow> ustate \<Rightarrow> ustate run" where
  "program_main Init = init_main"
| "program_main Shell = shell_main"
| "program_main (Ls out_format) = (\<lambda>fc e. ls_main fc e out_format)"
| "program_main Ps = ps_main"
| "program_main Demo = demo_main"

fun world :: "(u32 \<Rightarrow> kstate \<Rightarrow> program) \<Rightarrow> (u32 \<Rightarrow> kstate \<Rightarrow> ustate) \<Rightarrow> env \<Rightarrow> nat \<Rightarrow> farcall" where
  "world prog_at fresh e 0 = (\<lambda>segment s. None)"
| "world prog_at fresh e (Suc n) = (\<lambda>segment s.
     obind (program_main (prog_at segment s) (world prog_at fresh e n) e ((fresh segment s)\<lparr>kern := s\<rparr>)) (\<lambda>u. ret (kern u)))"

lemma program_main_acts: "session_program e fc \<Longrightarrow> acts e u id (program_main p fc e u)"
  by (cases p) (simp_all add: stepping_programs.init_main_acts stepping_programs.shell_main_acts stepping_programs.ps_main_acts
    stepping_programs.demo_main_acts stepping_programs.ls_main_acts stepping_programs_def)

lemma world_steps: "session_program e (world prog_at fresh e n)"
proof (induction n)
  case 0
  show ?case by (simp add: session_program_def)
next
  case (Suc n)
  have "session_steps e (s1, f # fr) (s2, f # fr)" if "world prog_at fresh e (Suc n) segment s1 = ret s2" for f fr segment s1 s2
  proof -
    from that obtain u where u: "program_main (prog_at segment s1) (world prog_at fresh e n) e ((fresh segment s1)\<lparr>kern := s1\<rparr>) = ret u"
      "s2 = kern u" by (auto simp: obind_ret_iff)
    from yieldsD [OF program_main_acts [OF Suc, unfolded acts_def] u(1)] u(2) show ?thesis by (cases f) (simp add: steps_from_def)
  qed
  then show ?case by (simp add: session_program_def)
qed

interpretation world: stepping_programs "world prog_at fresh e n" e for prog_at fresh e n
  by unfold_locales (rule world_steps)

text \<open>The kernel with its own programs: when \<open>init\<close> is run by the kernel and the shell, \<open>ls\<close>, \<open>ps\<close> and the demo
  run each other as they do, in whatever segments and to whatever depth, every run that comes back is a run of the
  steps of the system.\<close>

lemma programs_run_by_steps:
  "session_program e (world prog_at fresh e n)
   \<and> yields (\<lambda>(rc, s'). session_steps e (s, []) (s', []))
       (run_program (world prog_at fresh e n) e (init_name s) place_init (init_processes s))"
  using world.prog boot_runs_session_eq [OF world.prog] by (auto simp: yields_def)

end
