(* ===== verification/Shell_Line.thy ===== *)
theory Shell_Line
  imports Program_Sessions
begin

text \<open>
  The shell's line editor against a reference that works on the keys alone, and what its commands do.
\<close>

section \<open>Reading a key\<close>

text \<open>\<open>talked t ks u u'\<close>: the text \<open>t\<close> has been printed and the keys \<open>ks\<close> are still to come; else as \<open>printed\<close>.\<close>

definition talked :: "byte list \<Rightarrow> byte list \<Rightarrow> ustate \<Rightarrow> ustate \<Rightarrow> bool" where
  "talked t ks u u' \<longleftrightarrow> usr_ok u' \<and> (\<exists>p a b q. u' = u\<lparr>sysparam := p, itoa_buf := a, ultoa_buf := b,
     kern := (shown t (kern u))\<lparr>params := q, kbd := ks\<rparr>\<rparr>)"

definition keyboard_ready :: "ustate \<Rightarrow> bool" where
  "keyboard_ready u \<longleftrightarrow> length (fd_list (kern u)) = 5 \<and> fd_pfd (fd_list (kern u) ! 0) = -1"

lemma talked_ok: "talked t ks u u' \<Longrightarrow> usr_ok u'"
  by (simp add: talked_def)

lemma talked_kbd [simp]: "talked t ks u u' \<Longrightarrow> kbd (kern u') = ks"
  by (auto simp: talked_def)

lemma talked_stack [simp]: "talked t ks u u' \<Longrightarrow> ustack u' = ustack u"
  by (auto simp: talked_def)

lemma talked_ready: "talked t ks u u' \<Longrightarrow> keyboard_ready u' = keyboard_ready u"
  by (auto simp: talked_def keyboard_ready_def)

lemma printed_talked: "printed t u u' \<Longrightarrow> talked t (kbd (kern u)) u u'"
  unfolding printed_def talked_def by (clarsimp simp: shown_def)

lemma talked_trans: "talked t ks u v \<Longrightarrow> talked t' ks' v w \<Longrightarrow> talked (t @ t') ks' u w"
  unfolding talked_def by (clarsimp simp: shown_def) blast

lemma talked_refl: "usr_ok u \<Longrightarrow> talked [] (kbd (kern u)) u u"
  using printed_talked [OF printed_refl] .

lemma put_field:
  "length p = 576 \<Longrightarrow> off + length b \<le> 576 \<Longrightarrow> store p off b = Inr (take off p @ b @ drop (off + length b) p)"
  by (simp add: store_def)

lemma getchar_reads:
  assumes "usr_ok u" "keyboard_ready u" "kbd (kern u) = k # ks"
  shows "gives (\<lambda>(c, v). c = k \<and> talked [] ks u v) (getchar fc e u)"
proof -
  have l: "length (sysparam u) = 576" "1024 \<le> length (ustack u)" using assms(1) by (simp_all add: usr_ok_def)
  define p where "p = take 512 (sysparam u) @ bytes32 1 @ bytes32 0 @ drop 520 (sysparam u)"
  let ?s = "(kern u)\<lparr>params := p\<rparr>"
  let ?p' = "p[0 := k]"
  have p: "length p = 576" using l by (simp add: p_def)
  have fields: "md_fd ?s = 0" "md_size ?s = 1"
    using l by (simp_all add: md_fd_def md_size_def p_def)
  have get: "kfd_get 0 ?s = Inr (fd_list (kern u) ! 0)" by (simp add: kfd_get_def)
  have upd: "kfd_upd 0 (\<lambda>d. d\<lparr>fd_pos := fd_pos d + 0\<rparr>) (?s\<lparr>kbd := ks\<rparr>) = Inr (?s\<lparr>kbd := ks\<rparr>)"
    by (simp add: kfd_upd_def)
  have kbd: "kbd_loop p 0 1 ?s = ret (?p', ?s\<lparr>kbd := ks\<rparr>)"
    using p assms(3) by (simp add: b_getchar_sync_def)
  have "read_fd e 0 p 1 pid ?s = ret (0, ?p', ?s\<lparr>kbd := ks\<rparr>)" for pid
    using assms(2) get upd kbd
    by (subst read_fd.simps) (simp add: keyboard_ready_def read_device_def read_done_def)
  then have call: "dispatch fc e 13 ?s = ret (?s\<lparr>kbd := ks, params := ?p'\<rparr>)"
    using fields by (simp add: dispatch_def service_call_def read_params_def Let_def)
  let ?v = "u\<lparr>sysparam := ?p', kern := ?s\<lparr>kbd := ks, params := ?p'\<rparr>\<rparr>"
  have "user_syscall fc e 13 (u\<lparr>sysparam := p\<rparr>) = ret ?v"
    unfolding user_syscall_def using call p by simp
  moreover have "memcpy (take 1 (ustack u)) ?p' 1 = Inr [k]"
    using memcpy_eq [of 1 ?p' "take 1 (ustack u)"] p l by (cases p) simp_all
  ultimately have "getchar fc e u = ret (k, ?v)"
    using l by (simp add: getchar_def myread_def put_sysparam_def put_field take_append drop_append p_def)
  moreover have "talked [] ks u ?v"
    unfolding talked_def using assms(1) p
    by (intro conjI exI [of _ ?p'] exI [of _ "itoa_buf u"] exI [of _ "ultoa_buf u"]) (simp_all add: usr_ok_def)
  ultimately show ?thesis by simp
qed

section \<open>The line editor\<close>

text \<open>
  What a sequence of keys makes of a line, and the echo: backspace takes the last character off and erases it on
  the screen, at the start of the line it is ignored.  The 51st character is one too many.
\<close>

fun edit_keys :: "byte list \<Rightarrow> byte list \<Rightarrow> (byte list \<times> byte list) option" where
  "edit_keys l [] = Some (l, [])"
| "edit_keys l (k # ks) =
     (if k = 8 then if l = [] then edit_keys l ks
        else map_option (\<lambda>(l', t). (l', [8, 32, 8] @ t)) (edit_keys (butlast l) ks)
      else if length l < 50 then map_option (\<lambda>(l', t). (l', k # t)) (edit_keys (l @ [k]) ks)
      else None)"

text \<open>What the loop has to do with the reference's answer.\<close>

definition line_result ::
    "ustate \<Rightarrow> byte list \<Rightarrow> (byte list \<times> byte list) option \<Rightarrow> (byte list \<times> nat \<times> ustate) run \<Rightarrow> bool" where
  "line_result u rest answer m \<longleftrightarrow> (case answer of
     Some (l, t) \<Rightarrow> gives (\<lambda>(b, n, v). length b = 50 \<and> n = length l \<and> take n b = l \<and> talked t rest u v) m
   | None \<Rightarrow> m = Some (Inl WritePast))"

lemma line_result_after:
  assumes "talked t ks u v" "line_result v rest answer m"
  shows "line_result u rest (map_option (\<lambda>(l, t'). (l, t @ t')) answer) m"
  using assms by (auto simp: line_result_def elim!: gives_mono intro: talked_trans split: option.splits)

lemma talked_printed: "talked t ks u v \<Longrightarrow> printed t' v w \<Longrightarrow> talked (t @ t') ks u w"
  using talked_trans [OF _ printed_talked] by fastforce

lemma getchar_ret:
  assumes "usr_ok u" "keyboard_ready u" "kbd (kern u) = k # ks"
  obtains v where "getchar fc e u = ret (k, v)" "talked [] ks u v"
  using getchar_reads [OF assms, of fc e] by (auto simp: gives_def)

lemma putchar_ret:
  assumes "usr_ok u"
  obtains v where "putchar fc e c u = ret v" "printed [c] u v" "usr_ok v"
  using putchar_prints [OF assms, of c fc e] by (auto simp: gives_def dest: printed_ok)

lemma read_line_eq:
  "\<lbrakk>usr_ok u; keyboard_ready u; kbd (kern u) = ks @ 13 # rest; 13 \<notin> set ks; length buf = 50; i \<le> 50\<rbrakk> \<Longrightarrow>
   line_result u rest (edit_keys (take i buf) ks) (read_line fc e buf i u)"
proof (induction ks arbitrary: buf i u)
  case Nil
  then obtain v where "getchar fc e u = ret (13, v)" "talked [] rest u v" by (auto elim: getchar_ret)
  with Nil show ?case by (subst read_line.simps) (simp add: line_result_def)
next
  case (Cons k ks)
  from Cons.prems obtain v where v: "getchar fc e u = ret (k, v)" "talked [] (ks @ 13 # rest) u v" by (auto elim: getchar_ret)
  have k: "k \<noteq> 13" "13 \<notin> set ks" using Cons.prems(4) by auto
  have ok: "usr_ok v" using v(2) by (rule talked_ok)
  have IH: "line_result u rest (map_option (\<lambda>(l, t'). (l, t @ t')) (edit_keys (take j b) ks)) (read_line fc e b j w)"
    if w: "talked t (ks @ 13 # rest) u w" and b: "length b = 50" "j \<le> 50" for t j b w
    using Cons.prems(2) k(2) b talked_ok [OF w] talked_ready [OF w] talked_kbd [OF w]
    by (intro line_result_after [OF w] Cons.IH) auto
  consider (ignored) "k = 8" "i = 0" | (erase) "k = 8" "0 < i" | (char) "k \<noteq> 8" by auto
  then show ?case
  proof cases
    case ignored
    with v k IH [OF v(2) Cons.prems(5), of 0] show ?thesis
      by (subst read_line.simps) (simp add: option.map_ident case_prod_unfold)
  next
    case erase
    obtain v1 where v1: "putchar fc e 8 v = ret v1" "printed [8] v v1" "usr_ok v1" using putchar_ret [OF ok] .
    obtain v2 where v2: "putchar fc e 32 v1 = ret v2" "printed [32] v1 v2" "usr_ok v2" using putchar_ret [OF v1(3)] .
    obtain v3 where v3: "putchar fc e 8 v2 = ret v3" "printed [8] v2 v3" "usr_ok v3" using putchar_ret [OF v2(3)] .
    have "talked ([] @ [8, 32, 8]) (ks @ 13 # rest) u v3"
      using printed_trans [OF printed_trans [OF v1(2) v2(2)] v3(2)] by (intro talked_printed [OF v(2)]) simp
    moreover have "buf \<noteq> []" using Cons.prems(5) by auto
    ultimately show ?thesis
      using IH [of _ v3 buf "i - 1"] erase v(1) v1(1) v2(1) v3(1) k Cons.prems(5,6)
      by (subst read_line.simps) (fastforce simp: butlast_take)
  next
    case char
    obtain w where w: "putchar fc e k v = ret w" "printed [k] v w" "usr_ok w" using putchar_ret [OF ok] .
    show ?thesis
    proof (cases "i < 50")
      case True
      from IH [OF talked_printed [OF v(2) w(2)], of "buf[i := k]" "Suc i"] True char v(1) w(1) k Cons.prems(5) show ?thesis
        by (subst read_line.simps) (simp add: take_Suc_conv_app_nth)
    next
      case False
      with char v(1) w(1) k Cons.prems(5,6) show ?thesis
        by (subst read_line.simps) (simp add: line_result_def store_byte_def)
    qed
  qed
qed

lemma prints_text:
  assumes "usr_ok u" "terminated f" "37 \<notin> set (cval f)"
  shows "gives (printed (cval f) u) (prints fc e f u)"
proof -
  have "gives (\<lambda>(n, v). n = int (length (cval f)) \<and> printed (cval f) u v) (printf fc e f [] u)"
    by (rule printf_prints [OF assms(1,2) format_text_plain [OF assms(3)]])
  then show ?thesis unfolding prints_def by (auto simp: gives_def)
qed

lemma prints_cstr: "usr_ok u \<Longrightarrow> 0 \<notin> set (lit t) \<Longrightarrow> 37 \<notin> set (lit t) \<Longrightarrow> gives (printed (lit t) u) (prints fc e (cstr t) u)"
  using prints_text [of u "cstr t"] by (simp add: cval_cstr)

lemma prints_crlf: "usr_ok u \<Longrightarrow> gives (printed [13, 10] u) (prints fc e crlf u)"
  using prints_text [of u crlf] by (simp add: crlf_def cval_Cons terminated_def)

lemma shell_line_eq:
  assumes "usr_ok u" "keyboard_ready u" "kbd (kern u) = ks @ 13 # rest" "13 \<notin> set ks" "length buf = 50"
  shows "case edit_keys [] ks of
      Some (l, t) \<Rightarrow> if length l < 50
        then gives (\<lambda>(b, v). length b = 50 \<and> take (Suc (length l)) b = l @ [0]
          \<and> talked ([13, 10, 35, 32] @ t @ [13, 10]) rest u v) (shell_line fc e buf u)
        else shell_line fc e buf u = Some (Inl WritePast)
    | None \<Rightarrow> shell_line fc e buf u = Some (Inl WritePast)"
proof -
  obtain u1 where u1: "prints fc e crlf u = ret u1" "printed [13, 10] u u1"
    using prints_crlf [OF assms(1), of fc e] by (auto simp: gives_def)
  obtain u2 where u2: "prints fc e (cstr ''# '') u1 = ret u2" "printed [35, 32] u1 u2"
    using prints_cstr [OF printed_ok [OF u1(2)], of "''# ''" fc e] by (auto simp: gives_def of_char_def)
  have p: "talked [13, 10, 35, 32] (kbd (kern u)) u u2" using printed_talked [OF printed_trans [OF u1(2) u2(2)]] by simp
  have m: "shell_line fc e buf u = obind (read_line fc e buf 0 u2) (\<lambda>(buf, i, u).
     obind (prints fc e crlf u) (\<lambda>u. obind (Some (store_byte buf i 0)) (\<lambda>buf. ret (buf, u))))"
    by (simp add: shell_line_def u1(1) u2(1))
  have "line_result u2 rest (edit_keys [] ks) (read_line fc e buf 0 u2)"
    using read_line_eq [of u2 ks rest buf 0] assms talked_ok [OF p] talked_ready [OF p] talked_kbd [OF p] by simp
  then have r: "line_result u rest (map_option (\<lambda>(l, t). (l, [13, 10, 35, 32] @ t)) (edit_keys [] ks)) (read_line fc e buf 0 u2)"
    by (rule line_result_after [OF p])
  show ?thesis
  proof (cases "edit_keys [] ks")
    case None
    with r show ?thesis by (simp add: m line_result_def)
  next
    case (Some a)
    obtain l t where a: "a = (l, t)" by (cases a)
    with r Some obtain b v where v: "read_line fc e buf 0 u2 = ret (b, length l, v)" "length b = 50" "take (length l) b = l"
      "talked ([13, 10, 35, 32] @ t) rest u v" by (auto simp: line_result_def gives_def)
    obtain w where w: "prints fc e crlf v = ret w" "printed [13, 10] v w"
      using prints_crlf [OF talked_ok [OF v(4)], of fc e] by (auto simp: gives_def)
    have "length l \<le> 50" using v(2,3) by (metis length_take min.cobounded1)
    with v(2,3) w talked_printed [OF v(4) w(2)] show ?thesis
      by (simp add: Some a m v(1) w(1) store_byte_def take_Suc_conv_app_nth)
  qed
qed

end
