(* ===== verification/Session_Stack.thy ===== *)
theory Session_Stack
  imports Running
begin

text \<open>
  What the nesting of programs promises: a stack.  The abstract machine of this theory knows a catalogue of programs and the
  list of those entered, by name and size; running pushes, returning pops, and nothing else changes it.  The kernel's tables,
  with their slots, segments and descriptors, implement it.  The memory of the programs on the stack is theirs.
\<close>

section \<open>The abstract machine\<close>

fun stack_step :: "(byte list \<Rightarrow> (byte list \<times> u32) option) \<Rightarrow> byte list \<Rightarrow> (byte list \<times> u32) list \<Rightarrow> action \<Rightarrow> (byte list \<times> u32) list" where
  "stack_step catalogue boot rs (SystemCall service b) = rs"
| "stack_step catalogue boot rs (Poke a c) = rs"
| "stack_step catalogue boot rs (Exec b) = (case catalogue b of None \<Rightarrow> rs | Some x \<Rightarrow> rs @ [x])"
| "stack_step catalogue boot rs Return = butlast rs"
| "stack_step catalogue boot rs Boot = (case catalogue boot of None \<Rightarrow> rs | Some x \<Rightarrow> rs @ [x])"

text \<open>The stack of a state: the slots of the entered programs, in order.\<close>

definition program_stack :: "kstate \<times> frame list \<Rightarrow> (byte list \<times> u32) list" where
  "program_stack m = map (\<lambda>j. identity (processes (fst m) ! j)) [0..<length (snd m)]"

lemma program_stack_simps [simp]:
  "program_stack (s, []) = []" "length (program_stack m) = length (snd m)"
  by (simp_all add: program_stack_def)

lemma program_stack_same:
  "length fr' = length fr \<Longrightarrow> (\<And>j. j < length fr \<Longrightarrow> identity (processes s' ! j) = identity (processes s ! j)) \<Longrightarrow>
   program_stack (s', fr') = program_stack (s, fr)"
  by (simp add: program_stack_def)

lemma program_stack_pop:
  "(\<And>j. j < length fr \<Longrightarrow> identity (processes s' ! j) = identity (processes s ! j)) \<Longrightarrow>
   program_stack (s', fr) = butlast (program_stack (s, f # fr))"
  by (simp add: program_stack_def)

lemma program_stack_push:
  "(\<And>j. j < length fr \<Longrightarrow> identity (processes s' ! j) = identity (processes s ! j)) \<Longrightarrow>
   program_stack (s', f # fr) = program_stack (s, fr) @ [identity (processes s' ! length fr)]"
  by (simp add: program_stack_def)

section \<open>One step\<close>

text \<open>The name \<open>startk\<close> boots from, and the programs of the volume: both stay what they are, \<open>load\<close> capitalising the
  name in place.\<close>

definition catalogue_kept :: "env \<Rightarrow> nat \<Rightarrow> kstate \<Rightarrow> kstate \<Rightarrow> bool" where
  "catalogue_kept e n s s' \<longleftrightarrow> lookup_program e n s' = lookup_program e n s
     \<and> map upper_byte (cval (init_name s')) = map upper_byte (cval (init_name s))"

lemma lookup_program_same: "same_volume s s' \<Longrightarrow> lookup_program e n s' = lookup_program e n s"
  by (simp add: lookup_program_def fun_eq_iff same_volume_entries)

lemma lookup_program_capitals:
  "map upper_byte (cval b) = map upper_byte (cval b') \<Longrightarrow> lookup_program e n s b = lookup_program e n s b'"
  by (simp add: lookup_program_def program_entry_def)

lemma upper_byte_idem: "upper_byte (upper_byte c) = upper_byte c"
proof (cases "97 \<le> c \<and> c \<le> 122")
  case True
  then have "(32 :: byte) \<le> c" by (simp add: word_le_nat_alt)
  then have "unat (c - 32) = unat c - 32" by (simp add: unat_sub)
  with True show ?thesis by (auto simp: upper_byte_def word_le_nat_alt)
qed (auto simp: upper_byte_def)

lemma catalogue_kept_tables:
  "tables v n m r s \<Longrightarrow> tables v n' m' r' s' \<Longrightarrow> map upper_byte (cval (init_name s')) = map upper_byte (cval (init_name s)) \<Longrightarrow>
   catalogue_kept e k s s'"
  unfolding catalogue_kept_def using lookup_program_same [OF same_volume_tables] by blast

text \<open>What is shown of each kind of step: the stack moves as the abstract one, and the name to boot keeps its letters.\<close>

definition stack_moves :: "env \<Rightarrow> nat \<Rightarrow> kstate \<times> frame list \<Rightarrow> action \<Rightarrow> kstate \<times> frame list \<Rightarrow> bool" where
  "stack_moves e n m a m' \<longleftrightarrow>
     program_stack m' = stack_step (lookup_program e n (fst m)) (init_name (fst m)) (program_stack m) a
     \<and> map upper_byte (cval (init_name (fst m'))) = map upper_byte (cval (init_name (fst m)))"

lemma kept_moves:
  assumes "kept A s s'" "procs_busy s = {..<length fr}" "length fr' = length fr"
  shows "program_stack (s', fr') = program_stack (s, fr)" "init_name s' = init_name s"
  using rows_kept_kept [OF assms(1)] assms by (auto simp: rows_kept_def kept_def intro!: program_stack_same)

lemma exec_moves:
  assumes t: "tables v (Suc k) (Suc k) (int k + 1) s" and k: "Suc k < 8" and b: "length b = 576" and m: "mounted e es n s"
    and run: "run_enter e b place_params (s\<lparr>params := b\<rparr>) = ret (rc, pid, seg, s')"
  shows "answers (lookup_program e n s b) (Suc k) s rc s'" "init_name s' = init_name s"
proof -
  let ?s = "s\<lparr>params := b\<rparr>"
  have t': "tables v (Suc k) (Suc k) (int (Suc k)) ?s" using tables_params [OF t b] by (simp add: add.commute)
  have same: "same_volume s ?s" by (simp add: same_volume_def)
  have m': "mounted e es n ?s" by (rule mounted_tables [OF m t t'])
  have ok: "place_ok place_params (length b)" using place_params_ok b by simp
  have p: "place_keeps place_params" by simp
  show "answers (lookup_program e n s b) (Suc k) s rc s'"
    using run_enter_ret(1) [OF t' k m' ok p run] by (simp add: answers_def lookup_program_same [OF same])
  show "init_name s' = init_name s"
    using run_enter_ret(2) [OF t' k m' ok p run] by (auto simp: place_params_def)
qed

lemma boot_moves:
  assumes t: "tables v 0 0 r s" and m: "mounted e es n s"
    and run: "run_enter e (init_name s) place_init (init_processes s) = ret (rc, pid, seg, s')"
  shows "answers (lookup_program e n s (init_name s)) 0 s rc s'"
    "map upper_byte (cval (init_name s')) = map upper_byte (cval (init_name s))"
proof -
  have t': "tables v 0 0 (int 0) (init_processes s)" using tables_init [OF t] by simp
  have m': "mounted e es n (init_processes s)" by (rule mounted_tables [OF m t t'])
  have k: "(0 :: nat) < 8" and p: "place_keeps place_init" by simp_all
  note ret = run_enter_ret [OF t' k m' place_init_ok p run]
  show "answers (lookup_program e n s (init_name s)) 0 s rc s'"
    using ret(1) by (simp add: answers_def lookup_program_same [OF same_volume_tables [OF t t']])
  show "map upper_byte (cval (init_name s')) = map upper_byte (cval (init_name s))"
    using ret(2) by (auto simp: place_init_def upper_byte_idem)
qed

text \<open>After the program is left: the rest of its caller's work.\<close>

lemma back_identity:
  assumes "run_exit rc pid segment s1 = Inr (rc', s2)" "put_params 0 x s2 = Inr s3" "set_running_proc c s3 = Inr s'"
  shows "identity (processes s' ! j) = identity (processes s1 ! j)" "init_name s' = init_name s1" "ram s' = ram s1"
proof -
  have "processes s3 = processes s2 \<and> init_name s3 = init_name s2 \<and> ram s3 = ram s2"
    using assms(2) by (auto simp: put_params_def rbind_def split: sum.splits)
  then show "identity (processes s' ! j) = identity (processes s1 ! j)" "init_name s' = init_name s1" "ram s' = ram s1"
    using run_exit_identity [OF assms(1)] run_exit_frame [OF assms(1)] set_running_identity [OF assms(3)] set_running_ram [OF assms(3)]
    by simp_all
qed

lemma step_moves:
  assumes step: "session_step e m a m'" and inv: "session_inv v m" and fit: "within m a" and vol: "mounted e es n (fst m)"
  shows "stack_moves e n m a m'"
  using step
proof cases
  case (step_call service b s s' f fr)
  obtain k where fr: "f # fr = frames_of (Suc k)" "k < 8" and t: "tables v (Suc k) (Suc k) (int k + 1) s"
    using session_inv_top inv unfolding step_call(1) by metis
  have "kept {} (s\<lparr>params := b\<rparr>) s'" by (rule service_keeps(1) [OF t fr(2) step_call(5,6)])
  moreover have "procs_busy (s\<lparr>params := b\<rparr>) = {..<length (f # fr)}" using t by (simp add: fr(1) tables_def procs_busy_def)
  ultimately have "program_stack (s', f # fr) = program_stack (s\<lparr>params := b\<rparr>, f # fr)" "init_name s' = init_name s"
    using kept_moves [of "{}" "s\<lparr>params := b\<rparr>" s' "f # fr" "f # fr"] by simp_all
  then show ?thesis by (simp add: stack_moves_def step_call(1-3) program_stack_def)
next
  case (step_poke a s f fr c)
  then show ?thesis by (simp add: stack_moves_def program_stack_def)
next
  case (step_exec b s pid segment s' f fr)
  obtain k where fr: "f # fr = frames_of (Suc k)" and t: "tables v (Suc k) (Suc k) (int k + 1) s"
    using session_inv_top inv unfolding step_exec(1) by metis
  have l: "length (f # fr) = Suc k" by (simp add: fr)
  have k: "Suc k < 8" using fit l by (simp add: step_exec(1,2))
  have "mounted e es n s" using vol by (simp add: step_exec(1))
  note x = exec_moves [OF t k step_exec(4) this step_exec(5)]
  show ?thesis
    using x l program_stack_push [of "f # fr" s' s]
    by (auto simp: stack_moves_def step_exec(1-3) answers_def split: option.splits)
next
  case (step_exec_fails b s rc pid segment s1 rc' s2 s3 s' f fr)
  obtain k where fr: "f # fr = frames_of (Suc k)" and t: "tables v (Suc k) (Suc k) (int k + 1) s"
    using session_inv_top inv unfolding step_exec_fails(1) by metis
  have l: "length (f # fr) = Suc k" by (simp add: fr)
  have k: "Suc k < 8" using fit l by (simp add: step_exec_fails(1,2))
  have "mounted e es n s" using vol by (simp add: step_exec_fails(1))
  note x = exec_moves [OF t k step_exec_fails(4) this step_exec_fails(5)] back_identity [OF step_exec_fails(7-9)]
  have "program_stack (s', f # fr) = program_stack (s, f # fr)"
    using x l by (intro program_stack_same) (auto simp: answers_def)
  then show ?thesis
    using x step_exec_fails(6) by (auto simp: stack_moves_def step_exec_fails(1-3) answers_def split: option.splits)
next
  case (step_return pid segment s rc' s2 s3 caller s' f fr)
  note x = back_identity [OF step_return(4-6)]
  show ?thesis
    using program_stack_pop [of "f # fr" s' s] x by (simp add: stack_moves_def step_return(1-3))
next
  case (step_boot s pid segment s')
  obtain r where t: "tables v 0 0 r s" using inv by (auto simp: session_inv_empty step_boot(1))
  have "mounted e es n s" using vol by (simp add: step_boot(1))
  note x = boot_moves [OF t this step_boot(4)]
  show ?thesis
    using x program_stack_push [of "[]" s' s]
    by (auto simp: stack_moves_def step_boot(1-3) answers_def split: option.splits)
next
  case (step_boot_fails s rc pid segment s1 rc' s')
  obtain r where t: "tables v 0 0 r s" using inv by (auto simp: session_inv_empty step_boot_fails(1))
  have "mounted e es n s" using vol by (simp add: step_boot_fails(1))
  note x = boot_moves [OF t this step_boot_fails(4)]
  show ?thesis
    using x step_boot_fails(5) run_exit_frame [OF step_boot_fails(6)]
    by (auto simp: stack_moves_def step_boot_fails(1-3) answers_def split: option.splits)
next
  case (step_init_returns pid segment s rc' s' caller)
  then show ?thesis
    using program_stack_pop [of "[]" s' s] run_exit_frame [OF step_init_returns(4)] by (simp add: stack_moves_def)
qed

section \<open>Histories\<close>

text \<open>Start-up leaves nothing entered; from then on the stack of the kernel's state is the one the abstract machine computes
  from the actions.\<close>

lemma history_inv:
  assumes "booting {} g s0" "startk_init e s0 = ret s1" "history e d s0 acts m" "d \<le> 8"
  shows "session_inv (bs s1, s_pos s1) m"
  using reachable_inv [OF history_reachable [OF assms(3,4)] assms(1,2)] .

lemma inv_mounted:
  assumes "booting {} g s0" "startk_init e s0 = ret s1" "mounted e es n s1" "session_inv (bs s1, s_pos s1) m"
  shows "mounted e es n (fst m)" "same_volume s1 (fst m)"
proof -
  obtain r where t1: "tables (bs s1, s_pos s1) 0 0 r s1"
    using yieldsD [OF startk_init_booting [OF assms(1)] assms(2)] booting_tables by blast
  obtain k q where t: "tables (bs s1, s_pos s1) k k q (fst m)" using assms(4) by (auto simp: session_inv_def)
  show "mounted e es n (fst m)" by (rule mounted_tables [OF assms(3) t1 t])
  show "same_volume s1 (fst m)" by (rule same_volume_tables [OF t1 t])
qed

lemma stack_step_capitals:
  assumes "map upper_byte (cval b) = map upper_byte (cval b')"
  shows "stack_step (lookup_program e n s) b rs a = stack_step (lookup_program e n s) b' rs a"
  using lookup_program_capitals [OF assms, of e n s] by (cases a) simp_all

lemma history_stack:
  assumes "booting {} g s0" "startk_init e s0 = ret s1" "mounted e es n s1" "history e d s0 acts m" "d \<le> 8"
  shows "program_stack m = foldl (stack_step (lookup_program e n s1) (init_name s1)) [] acts"
    and "map upper_byte (cval (init_name (fst m))) = map upper_byte (cval (init_name s1))"
proof -
  have "program_stack m = foldl (stack_step (lookup_program e n s1) (init_name s1)) [] acts
      \<and> map upper_byte (cval (init_name (fst m))) = map upper_byte (cval (init_name s1))"
    using assms(4)
  proof (induction rule: history.induct)
    case (hist_start s)
    then show ?case using assms(2) by simp
  next
    case (hist_step acts m a m')
    have inv: "session_inv (bs s1, s_pos s1) m" by (rule history_inv [OF assms(1,2) hist_step.hyps(1) assms(5)])
    have fit: "within m a" using hist_step.hyps(3) assms(5) by (cases a) auto
    note vol = inv_mounted [OF assms(1-3) inv]
    have "stack_moves e n m a m'" by (rule step_moves [OF hist_step.hyps(2) inv fit vol(1)])
    moreover have "lookup_program e n (fst m) = lookup_program e n s1" by (rule lookup_program_same [OF vol(2)])
    moreover have "stack_step (lookup_program e n s1) (init_name (fst m)) rs a = stack_step (lookup_program e n s1) (init_name s1) rs a" for rs
      using hist_step.IH by (intro stack_step_capitals) simp
    ultimately show ?case using hist_step.IH by (simp add: stack_moves_def)
  qed
  then show "program_stack m = foldl (stack_step (lookup_program e n s1) (init_name s1)) [] acts"
    "map upper_byte (cval (init_name (fst m))) = map upper_byte (cval (init_name s1))" by simp_all
qed

lemma history_refines:
  assumes "booting {} g s0" "startk_init e s0 = ret s1" "mounted e es n s1" "history e d s0 acts (s, fr)" "d \<le> 8"
    and "rs = foldl (stack_step (lookup_program e n s1) (init_name s1)) [] acts"
  shows "length rs \<le> 8 \<and> fr = frames_of (length rs) \<and> roster rs s \<and> segs_busy (seg_arr s) = {..<length rs + 2}
    \<and> (rs \<noteq> [] \<longrightarrow> running_proc s = int (length rs))"
proof -
  have rs: "program_stack (s, fr) = rs" using history_stack(1) [OF assms(1-5)] assms(6) by simp
  then have l: "length rs = length fr" by auto
  obtain k r where k: "k \<le> 8" "fr = frames_of k" "k \<noteq> 0 \<longrightarrow> r = int k" "tables (bs s1, s_pos s1) k k r s"
    using history_inv [OF assms(1,2,4,5)] by (auto simp: session_inv_def)
  have "rs ! j = identity (processes s ! j)" if "j < length rs" for j
    using that unfolding rs [symmetric] by (simp add: program_stack_def)
  then show ?thesis using k l by (auto simp: roster_def tables_def)
qed

section \<open>Memory\<close>

lemma seg_area_base:
  assumes "j \<le> 9"
  shows "seg_area (seg_base j) = {j * 65536..<j * 65536 + 65536}"
proof -
  have "unat (seg_base j) = j * 4096" using assms by (intro unat_seg_base) (simp add: NUM_SEG_def)
  then have "unat (ucast (seg_base j) :: u16) = j * 4096"
    using assms by (simp add: unsigned_ucast_eq take_bit_nat_eq_self)
  then have "unat (ucast (seg_base j) :: u16) * 16 = j * 65536" by simp
  then show ?thesis unfolding seg_area_def by (simp only:)
qed

lemma frame_memory_below:
  assumes "k \<le> 8" "f \<in> set (frames_of k)" "x \<in> segment_memory f"
  shows "0x20000 \<le> x" "x < (k + 2) * 65536"
proof -
  obtain i where i: "i < k" "f = frames_of k ! i" using assms(2) by (auto simp: in_set_conv_nth)
  have "x \<in> {(k - i + 1) * 65536..<(k - i + 1) * 65536 + 65536}"
    using assms(3) unfolding i(2) segment_memory_frame [OF assms(1) i(1)] .
  with i(1) show "0x20000 \<le> x" "x < (k + 2) * 65536" by (auto simp: algebra_simps)
qed

lemma step_memory:
  assumes step: "session_step e m a m'" and inv: "session_inv v m" and fit: "within m a"
    and no: "\<And>y c. a \<noteq> Poke y c" and f: "f \<in> set (snd m)" "x \<in> segment_memory f"
  shows "ram (fst m') x = ram (fst m) x"
  using step
proof cases
  case (step_call service b s s' g fr)
  obtain k where fr: "g # fr = frames_of (Suc k)" "k < 8" and t: "tables v (Suc k) (Suc k) (int k + 1) s"
    using session_inv_top inv unfolding step_call(1) by metis
  from kept_ram [OF service_keeps(1) [OF t fr(2) step_call(5,6)]] show ?thesis by (simp add: step_call(1,3))
next
  case (step_exec b s pid segment s' g fr)
  obtain k where fr: "g # fr = frames_of (Suc k)" and t: "tables v (Suc k) (Suc k) (int k + 1) s"
    using session_inv_top inv unfolding step_exec(1) by metis
  have k: "Suc k < 8" using fit arg_cong [OF fr, of length] by (simp add: step_exec(1,2))
  have "x < (Suc k + 2) * 65536" using frame_memory_below(2) [of "Suc k" f x] f k by (simp add: step_exec(1) fr)
  then have "x \<notin> seg_area (seg_base (Suc k + 2))" using k by (subst seg_area_base) simp_all
  with exec_inv [OF t k step_exec(4,5)] show ?thesis by (auto simp: entered_def step_exec(1,3))
next
  case (step_exec_fails b s rc pid segment s1 rc' s2 s3 s' g fr)
  obtain k where fr: "g # fr = frames_of (Suc k)" and t: "tables v (Suc k) (Suc k) (int k + 1) s"
    using session_inv_top inv unfolding step_exec_fails(1) by metis
  have k: "Suc k < 8" using fit arg_cong [OF fr, of length] by (simp add: step_exec_fails(1,2))
  have "x < (Suc k + 2) * 65536" using frame_memory_below(2) [of "Suc k" f x] f k by (simp add: step_exec_fails(1) fr)
  then have "x \<notin> seg_area (seg_base (Suc k + 2))" using k by (subst seg_area_base) simp_all
  with exec_inv [OF t k step_exec_fails(4,5)] back_identity(3) [OF step_exec_fails(7-9)] show ?thesis
    by (auto simp: entered_def step_exec_fails(1,3))
next
  case (step_return pid segment s rc' s2 s3 caller s' g fr)
  from back_identity(3) [OF step_return(4-6)] show ?thesis by (simp add: step_return(1,3))
next
  case (step_init_returns pid segment s rc' s' caller)
  from run_exit_frame [OF step_init_returns(4)] show ?thesis by (simp add: step_init_returns(1,3))
qed (use no f in simp_all)

end
