(* ===== verification/Service_Calls.thy ===== *)
theory Service_Calls
  imports Sessions
begin

text \<open>
  When the system calls of kernel/kernel.c's \<open>dispatch\<close> come back: what of the parameter block, which the process fills, they
  rely on without a test.
\<close>

section \<open>Operations on what the process passes\<close>

text \<open>A comparison ends within the shorter string, whatever the longer one holds.\<close>

lemma strcmp_within:
  "terminated b \<Longrightarrow> length b \<le> length a \<Longrightarrow> \<exists>c. strcmp a b = Inr c"
  by (induction a b rule: strcmp.induct) (auto simp: terminated_Cons)

text \<open>The number of descriptors a process reaches: its five and, with index 5, the next slot of the table.\<close>

lemma cfd_upd_process:
  assumes "1 \<le> pid" "pid \<le> 8"
  shows "if 0 \<le> fd \<and> fd \<le> 5 then \<exists>s'. cfd_upd pid fd f s = Inr s' else cfd_upd pid fd f s = Inl WritePast"
  using assms by (auto simp: cfd_upd_def ftab_upd_def upd_proc_def NUM_FILES_def NUM_PROCESSES_def)

lemma open_fd_returns:
  assumes "1 \<le> pid" "pid \<le> 8" "length path = 576"
  shows "\<exists>r. open_fd path 0 pid s = Inr r"
proof -
  have set_up: "\<exists>r. rbind (cfd_upd pid fd f s) (\<lambda>s. Inr (fd, s)) = Inr r" if "fd \<in> {0, 1, 3, 4, 5}" for fd f
    using cfd_upd_process [OF assms(1,2), of fd f s] that by auto
  have cmp: "\<exists>c. strcmp path (cstr t) = Inr c" if "length (cstr t) \<le> 576" for t
    using that assms(3) by (intro strcmp_within) simp_all
  obtain c0 c1 c2 c3 c4 where "strcmp path (cstr ''/dev/fda'') = Inr c0" "strcmp path (cstr ''/dev/stdin'') = Inr c1"
    "strcmp path (cstr ''/dev/stdout'') = Inr c2" "strcmp path (cstr ''/dev/fdb'') = Inr c3" "strcmp path (cstr ''/'') = Inr c4"
    using cmp [of "''/dev/fda''"] cmp [of "''/dev/stdin''"] cmp [of "''/dev/stdout''"] cmp [of "''/dev/fdb''"] cmp [of "''/''"]
    by (auto simp: cstr_def)
  then show ?thesis
    unfolding open_fd_def Let_def using set_up by simp
qed

lemma write_loop_past: "i \<le> length buf \<Longrightarrow> length buf < i + n \<Longrightarrow> write_loop buf i n s = Inl ReadPast"
proof (induction n arbitrary: i s)
  case (Suc n)
  then show ?case by (cases "i < length buf") (simp_all add: load_byte_def)
qed simp

lemma write_fd_returns: "(\<exists>r. write_fd fd buf count pid s = Inr r) \<longleftrightarrow> (fd = 1 \<or> fd = 2 \<longrightarrow> unat count \<le> length buf)"
proof (cases "fd = 1 \<or> fd = 2")
  case True
  then show ?thesis
    using write_fd_eq [of fd count buf pid s] write_loop_past [of 0 buf "unat count" s]
    by (cases "unat count \<le> length buf") (auto simp: write_fd_def)
qed (simp add: write_fd_def)

section \<open>The calls\<close>

text \<open>What a call needs of the block: for service 4 a string that ends in it, for \<open>close\<close> and \<open>lseek\<close> a descriptor of the process' table
  or the one behind it, for a \<open>write\<close> to the screen a size that fits the block.\<close>

definition call_fits :: "int \<Rightarrow> kstate \<Rightarrow> bool" where
  "call_fits service s \<longleftrightarrow>
     (if service = 4 then terminated (params s)
      else if service = 11 \<or> service = 12 then 0 \<le> md_fd s \<and> md_fd s \<le> 5
      else if service = 14 then md_fd s = 1 \<or> md_fd s = 2 \<longrightarrow> unat (md_size s) \<le> 576
      else True)"

lemma put_params_returns: "length (params s) = 576 \<Longrightarrow> off + length b \<le> 576 \<Longrightarrow> \<exists>s'. put_params off b s = Inr s'"
  by (simp add: put_params_def store_def)

lemma no_value_returns: "(\<exists>s'. no_value m = ret s') \<longleftrightarrow> (\<exists>r. m = Inr r)"
  by (cases m) (auto simp: no_value_def)

lemma service_returns:
  assumes t: "tables v (Suc k) (Suc k) (int k + 1) s" and k: "k < 8" and service: "service \<notin> {6, 7, 8, 9, 13, 15}"
  shows "(\<exists>s'. service_call e service s = ret s') \<longleftrightarrow> call_fits service s"
proof -
  have l: "length (params s) = 576" using t by (simp add: tables_def kinv_def)
  define pid where "pid = get_running_proc s"
  have pid: "1 \<le> pid" "pid \<le> 8" using t k by (simp_all add: pid_def get_running_proc_def tables_def)
  note upd = cfd_upd_process [OF pid]
  have u14: "unat (14 :: u32) = 14" and u1: "unat (1 :: u32) = 1" by simp_all
  consider "service = 0" | "service \<in> {1, 2, 3}" | "service = 4" | "service = 5" | "service = 10" | "service = 11" | "service = 12"
    | "service = 14" | "service \<notin> {0, 1, 2, 3, 4, 5, 6, 7, 8, 9, 10, 11, 12, 13, 14, 15}"
    using service by blast
  then show ?thesis
  proof cases
    case 1
    then show ?thesis
      using write_fd_returns [of 1 "lit ''system call!'' @ crlf" 14 0 s] by (simp add: service_call_def no_value_returns call_fits_def crlf_def)
  next
    case 2
    then show ?thesis by (auto simp: service_call_def call_fits_def)
  next
    case 3
    show ?thesis
    proof (cases "terminated (params s)")
      case True
      then have c: "length (cval (params s)) < 576" using cval_length l by metis
      then have "unat (of_nat (length (cval (params s))) :: u32) \<le> 576" by (subst unat_u32_of_nat) simp_all
      then obtain r where "write_fd 1 (params s) (of_nat (length (cval (params s)))) 0 s = Inr r"
        using write_fd_returns [of 1 "params s" "of_nat (length (cval (params s)))" 0 s] l by auto
      with 3 True show ?thesis by (simp add: service_call_def call_fits_def strlen_eq)
    qed (use 3 in \<open>simp add: service_call_def call_fits_def strlen_eq\<close>)
  next
    case 4
    then show ?thesis
      using write_fd_returns [of 1 "params s" 1 0 s] l by (simp add: service_call_def no_value_returns call_fits_def)
  next
    case 5
    obtain fd s1 where o: "open_fd (params s) 0 pid s = Inr (fd, s1)" using open_fd_returns [OF pid l, of s] by auto
    have "caller_ok s pid" using tables_caller [OF t k] t by (simp add: pid_def get_running_proc_def tables_def)
    from deliversD [OF open_fd_kept [OF tables_self [OF t] this] o] have "length (params s1) = 576"
      by (simp add: kept_def kinv_def)
    then obtain s2 where "put_params 516 (bytes32 (word_of_int fd)) s1 = Inr s2"
      using put_params_returns [of s1 516 "bytes32 (word_of_int fd)"] by auto
    with 5 o show ?thesis by (simp add: service_call_def call_fits_def pid_def)
  next
    case 6
    show ?thesis
    proof (cases "0 \<le> md_fd s \<and> md_fd s \<le> 5")
      case True
      then have "\<exists>s'. cfd_upd pid (md_fd s) f s = Inr s'" for f using upd by simp
      from this [of "\<lambda>d. d\<lparr>fd_pathname := (fd_pathname d)[0 := 0], fd_pfd := 0, fd_pfd_offset := 0, fd_pos := 0, fd_size := 0\<rparr>"] show ?thesis
        using 6 True by (auto simp: service_call_def no_value_returns call_fits_def close_fd_def pid_def)
    next
      case False
      then have "cfd_upd pid (md_fd s) f s = Inl WritePast" for f using upd by (simp split: if_splits)
      with 6 False show ?thesis by (simp add: service_call_def no_value_returns call_fits_def close_fd_def pid_def)
    qed
  next
    case 7
    show ?thesis
    proof (cases "0 \<le> md_fd s \<and> md_fd s \<le> 5")
      case True
      then have "\<exists>s'. cfd_upd pid (md_fd s) f s = Inr s'" for f using upd by simp
      from this [of "\<lambda>d. d\<lparr>fd_pos := md_offset s\<rparr>"] show ?thesis
        using 7 True by (auto simp: service_call_def no_value_returns call_fits_def lseek_def pid_def)
    next
      case False
      then have "cfd_upd pid (md_fd s) f s = Inl WritePast" for f using upd by (simp split: if_splits)
      with 7 False show ?thesis by (simp add: service_call_def no_value_returns call_fits_def lseek_def pid_def)
    qed
  next
    case 8
    then show ?thesis
      using write_fd_returns [of "md_fd s" "params s" "md_size s" pid s] l
      by (simp add: service_call_def no_value_returns call_fits_def pid_def)
  next
    case 9
    then show ?thesis by (simp add: service_call_def call_fits_def)
  qed
qed

lemma descriptor_out_of_range:
  assumes t: "tables v (Suc k) (Suc k) (int k + 1) s" and k: "k < 8" and service: "service = 11 \<or> service = 12"
    and fd: "md_fd s < 0 \<or> 5 < md_fd s"
  shows "service_call e service s = Some (Inl WritePast)"
proof -
  have "1 \<le> get_running_proc s" "get_running_proc s \<le> 8" using t k by (simp_all add: get_running_proc_def tables_def)
  from cfd_upd_process [OF this, of "md_fd s" _ s] fd service show ?thesis
    by (auto simp: service_call_def no_value_def close_fd_def lseek_def)
qed

end
