(* ===== verification/Session_Theorems.thy ===== *)
theory Session_Theorems
  imports Boot Session_Stack Service_Calls
begin

text \<open>
  What holds of the running system: the properties of Sessions, Session_Stack, Service_Calls, Running and Boot, each with the
  concrete machine of Boot as an instance.
\<close>

section \<open>Every reachable state\<close>

text \<open>C1: in every state the system reaches from its zeroed variables, as long as no more than eight programs
  are nested, the entered programs, the process table, the segment table and \<open>running_proc\<close> tell the
  same nesting: the \<open>k\<close>-th program has pid \<open>k + 1\<close>, the slot and the segment that go with it and the
  one before it as its parent, exactly the innermost one is marked running, and no other slot or
  segment is taken.\<close>

theorem reachable_follows_nesting:
  assumes "booting {} g s0" "reachable e s0 (s, fr)"
  shows "\<exists>n\<le>8. fr = frames_of n \<and> procs_busy s = {..<n} \<and> segs_busy (seg_arr s) = {..<n + 2}
    \<and> (0 < n \<longrightarrow> running_proc s = int n) \<and> (\<forall>k<n. entry_ok (running_proc s) k (processes s ! k)) \<and> kinv s"
proof (rule reachable_tables [OF assms])
  fix n r s1
  assume "n \<le> 8" "fr = frames_of n" "n \<noteq> 0 \<longrightarrow> r = int n" "tables (bs s1, s_pos s1) n n r s"
  then show ?thesis by (intro exI [of _ n]) (auto simp: tables_def)
qed

lemma boot_one:
  obtains v s where "tables v 1 1 1 s" "boot_volume s"
proof (rule boot_runs_init)
  fix s0 s
  assume "tables (bs s0, s_pos s0) 1 1 1 s" "boot_volume s"
  then show thesis by (rule that)
qed

lemma boot_reachable:
  obtains s0 s where "startk_init boot_env zero_state = ret s0" "boot_volume s0" "reachable boot_env zero_state (s, frames_of 1)"
proof -
  obtain s0 s1 where s: "startk_init boot_env zero_state = ret s0" "boot_volume s0"
    "session_step boot_env (s0, []) Boot (s1, frames_of 1)"
    by (rule boot_runs_init) (rule that)
  have "reachable boot_env zero_state (s1, frames_of 1)"
    using reach_step [OF reach_start [OF s(1)] s(3)] by simp
  with s show thesis by (intro that)
qed

theorem reachable_follows_nesting_witness:
  "\<exists>s. reachable boot_env zero_state (s, frames_of 1) \<and> (\<exists>n\<le>8. frames_of 1 = frames_of n \<and> procs_busy s = {..<n}
    \<and> segs_busy (seg_arr s) = {..<n + 2} \<and> (0 < n \<longrightarrow> running_proc s = int n)
    \<and> (\<forall>k<n. entry_ok (running_proc s) k (processes s ! k)) \<and> kinv s)"
proof -
  obtain s where "reachable boot_env zero_state (s, frames_of 1)" by (rule boot_reachable)
  with reachable_follows_nesting [OF zero_state_booting this] show ?thesis by blast
qed

lemma boot_history:
  obtains s0 s where "startk_init boot_env zero_state = ret s0" "boot_volume s0" "init_name s0 = cstr ''init''"
    "history boot_env 8 zero_state [Boot, Exec exec_block] (s, frames_of 2)" "tables (bs s0, s_pos s0) 2 2 2 s"
proof -
  obtain s0 s1 where s: "startk_init boot_env zero_state = ret s0" "boot_volume s0" "init_name s0 = cstr ''init''"
    "session_step boot_env (s0, []) Boot (s1, frames_of 1)" "tables (bs s0, s_pos s0) 1 1 1 s1" "boot_volume s1"
    by (rule boot_runs_init) (rule that)
  obtain s2 where s2: "run_enter boot_env exec_block place_params (s1\<lparr>params := exec_block\<rparr>) = ret (0, 2, 0x3000, s2)"
      "tables (bs s0, s_pos s0) 2 2 2 s2"
    by (rule boot_runs_second [OF s(6,5)]) (rule that)
  have "get_running_proc s1 = 1" using s(5) by (simp add: get_running_proc_def tables_def)
  with step_exec [OF exec_block_simps(1) s2(1), of "(1, seg_base 2, 0)" "[]"]
  have "session_step boot_env (s1, frames_of 1) (Exec exec_block) (s2, frames_of 2)"
    by (simp add: numeral_2_eq_2 seg_base_def)
  moreover have "history boot_env 8 zero_state [Boot] (s1, frames_of 1)"
    using hist_step [OF hist_start [OF s(1)] s(4), of 8] by simp
  ultimately have "history boot_env 8 zero_state [Boot, Exec exec_block] (s2, frames_of 2)"
    using hist_step [of boot_env 8 zero_state "[Boot]" "(s1, frames_of 1)" "Exec exec_block" "(s2, frames_of 2)"] by simp
  with s(1-3) s2(2) show thesis by (intro that)
qed

text \<open>C9: the kernel implements a stack of programs.  The abstract machine \<open>stack_step\<close> knows which programs the volume has and the
  list of those entered, each by its capitalised name and the size of its file: running one that is there pushes it, running one
  that is not changes nothing, returning pops, and neither system calls nor stores of a program change it.  After any history from start-up
  on a mounted volume with run calls made by fewer than \<open>d \<le> 8\<close> nested programs, the process table holds exactly the
  programs of the stack, in order, in its first slots, as many segments are taken from the third on, and the topmost one
  runs.\<close>

theorem session_refines_stack:
  assumes "booting {} g s0" "startk_init e s0 = ret s1" "mounted e es n s1" "history e d s0 acts (s, fr)" "d \<le> 8"
    and "rs = foldl (stack_step (lookup_program e n s1) (init_name s1)) [] acts"
  shows "length rs \<le> 8 \<and> fr = frames_of (length rs) \<and> roster rs s \<and> segs_busy (seg_arr s) = {..<length rs + 2}
    \<and> (rs \<noteq> [] \<longrightarrow> running_proc s = int (length rs))"
  using assms by (rule history_refines)

theorem session_refines_stack_witness:
  "\<exists>s. history boot_env 8 zero_state [Boot, Exec exec_block] (s, frames_of 2)
    \<and> roster [(lit ''INIT'', 5000), (lit ''INIT'', 5000)] s \<and> segs_busy (seg_arr s) = {..<4} \<and> running_proc s = 2"
proof -
  obtain s0 s where s: "startk_init boot_env zero_state = ret s0" "boot_volume s0" "init_name s0 = cstr ''init''"
    "history boot_env 8 zero_state [Boot, Exec exec_block] (s, frames_of 2)"
    by (rule boot_history) (rule that)
  have "lookup_program boot_env 224 s0 name = Some (lit ''INIT'', 5000)" if "map upper_byte (cval name) = lit ''INIT''" for name
    using boot_program(1) [OF s(2) that] that by (simp add: lookup_program_def init_entry_def)
  moreover have "cval exec_block = cval (cstr ''init'')" by (simp add: exec_block_simps(3) cval_cstr of_char_def)
  ultimately have "[(lit ''INIT'', 5000), (lit ''INIT'', 5000)] =
      foldl (stack_step (lookup_program boot_env 224 s0) (init_name s0)) [] [Boot, Exec exec_block]"
    using upper_init by (simp add: s(3) del: lit_simps)
  from session_refines_stack [OF zero_state_booting s(1) boot_mounted [OF s(2)] s(4) _ this] s(4)
  have "roster [(lit ''INIT'', 5000), (lit ''INIT'', 5000)] s \<and> segs_busy (seg_arr s) = {..<2 + 2} \<and> running_proc s = 2"
    by (simp add: numeral_2_eq_2 del: lit_simps)
  with s(4) show ?thesis by auto
qed

text \<open>C11: as long as every run call is made with fewer than eight programs nested (what a call by the eighth does is C26), the
  memories of the entered programs are pairwise disjoint, the kernel's segment and the one below it are outside all of them, and
  no step of the kernel, the loading of another program included, changes a byte in any of them; only a program's own
  stores do.  (The parameter block that the entry code copies to and from the caller is not part of \<open>ram\<close> here.)\<close>

theorem programs_isolated:
  assumes "booting {} g s0" "history e d s0 acts (s, fr)" "d \<le> 8"
  shows "length fr \<le> 8
    \<and> (\<forall>i<length fr. segment_memory (fr ! i) \<inter> {..<0x20000} = {}
        \<and> (\<forall>j<length fr. i \<noteq> j \<longrightarrow> segment_memory (fr ! i) \<inter> segment_memory (fr ! j) = {}))
    \<and> (\<forall>a s' fr' f x. session_step e (s, fr) a (s', fr') \<and> (\<forall>b. a = Exec b \<longrightarrow> length fr < d) \<and> (\<forall>y c. a \<noteq> Poke y c)
        \<and> f \<in> set fr \<and> x \<in> segment_memory f \<longrightarrow> ram s' x = ram s x)"
proof -
  obtain s1 where "startk_init e s0 = ret s1" using reachable_start [OF history_reachable [OF assms(2,3)]] by blast
  note inv = history_inv [OF assms(1) this assms(2,3)]
  then obtain k where k: "k \<le> 8" "fr = frames_of k" by (auto simp: session_inv_def)
  have low: "segment_memory (fr ! i) \<inter> {..<0x20000} = {}" if "i < length fr" for i
  proof -
    have "fr ! i \<in> set (frames_of k)" using that k(2) by simp
    from frame_memory_below(1) [OF k(1) this] show ?thesis by fastforce
  qed
  have keep: "ram s' x = ram s x"
    if "session_step e (s, fr) a (s', fr')" "\<forall>b. a = Exec b \<longrightarrow> length fr < d" "\<forall>y c. a \<noteq> Poke y c" "f \<in> set fr" "x \<in> segment_memory f"
    for a s' fr' f x
  proof -
    have "within (s, fr) a" using that(2) assms(3) by (cases a) auto
    from step_memory [OF that(1) inv this] that(3-5) show ?thesis by simp
  qed
  show ?thesis
    using k low keep segment_memory_disjoint [OF k(1)] by (intro conjI allI impI) auto
qed

theorem programs_isolated_witness:
  "\<exists>s. history boot_env 8 zero_state [Boot, Exec exec_block] (s, frames_of 2)
    \<and> segment_memory (frames_of 2 ! 0) \<inter> segment_memory (frames_of 2 ! 1) = {}"
proof -
  obtain s where s: "history boot_env 8 zero_state [Boot, Exec exec_block] (s, frames_of 2)" by (rule boot_history) (rule that)
  from programs_isolated [OF zero_state_booting s order_refl] have
    "\<forall>i<length (frames_of 2). \<forall>j<length (frames_of 2). i \<noteq> j \<longrightarrow> segment_memory (frames_of 2 ! i) \<inter> segment_memory (frames_of 2 ! j) = {}"
    by blast
  then have "segment_memory (frames_of 2 ! 0) \<inter> segment_memory (frames_of 2 ! 1) = {}" by simp
  with s show ?thesis by blast
qed

text \<open>C20: a volume that is mounted when start-up is done stays mounted, with the same directory, whatever
  programs and system calls do.\<close>

theorem reachable_stays_mounted:
  assumes "booting {} g s0" "startk_init e s0 = ret s1" "mounted e es n s1" "reachable e s0 (s, fr)"
  shows "mounted e es n s \<and> volume_entries e n s = volume_entries e n s1"
proof -
  obtain k r s2 where s2: "startk_init e s0 = ret s2" and t2: "tables (bs s2, s_pos s2) k k r s"
    by (rule reachable_tables [OF assms(1,4)]) (rule that)
  from s2 assms(2) have "s2 = s1" by simp
  with t2 have t: "tables (bs s1, s_pos s1) k k r s" by simp
  obtain r1 where t1: "tables (bs s1, s_pos s1) 0 0 r1 s1"
    using yieldsD [OF startk_init_booting [OF assms(1)] assms(2)] booting_tables by blast
  from mounted_tables [OF assms(3) t1 t] same_volume_entries(2) [OF same_volume_tables [OF t1 t]] show ?thesis by simp
qed

theorem reachable_stays_mounted_witness:
  "\<exists>s s1. reachable boot_env zero_state (s, frames_of 1) \<and> startk_init boot_env zero_state = ret s1
    \<and> mounted boot_env two_clusters 224 s \<and> volume_entries boot_env 224 s = volume_entries boot_env 224 s1"
proof -
  obtain s0 s where s: "startk_init boot_env zero_state = ret s0" "boot_volume s0" "reachable boot_env zero_state (s, frames_of 1)"
    using boot_reachable .
  from reachable_stays_mounted [OF zero_state_booting s(1) boot_mounted [OF s(2)] s(3)] s show ?thesis by blast
qed

section \<open>Start-up and programs\<close>

text \<open>C12: start-up on a disk whose boot sector describes a volume: the kernel's tables are ready and empty,
  the sections of the volume are located and the root directory is open at its start, the
  message has been printed and interrupts are enabled, and vector 80h points to the kernel's entry.\<close>

theorem startk_init_correct:
  assumes "env_ok e" "disk_ok e 1" "booting {} arr s" "g = geometry_of (disk_sector e 1 0)"
    and "g_sector g \<noteq> 0" "g_sector g dvd 32 * g_entries g" "data_pos g < 2 ^ 32"
    and "g_fats g * g_fat_sectors g \<le> 1024" "readable (fat_pos g) (g_fats g * g_fat_sectors g)"
  shows "\<exists>s'. startk_init e s = ret s' \<and> tables (bs s', s_pos s') 0 0 (running_proc s') s' \<and> bs s' = disk_sector e 1 0
    \<and> unat (fat_section_start (s_pos s')) = fat_pos g \<and> unat (root_directory_start (s_pos s')) = root_pos g
    \<and> unat (data_section_start (s_pos s')) = data_pos g
    \<and> fd_pfd_offset (fd_after s') = root_directory_start (s_pos s') \<and> fd_pos (fd_after s') = 0
    \<and> console s' = console s @ map EvChar (lit ''starting kernel...'' @ [13, 10]) @ [EvSti]
    \<and> peek16 0x200 s' = 0 \<and> peek16 0x202 s' = 0x1000"
  using startk_init_eq [OF assms] by metis

theorem startk_init_correct_witness:
  "\<exists>s'. startk_init boot_env zero_state = ret s' \<and> tables (bs s', s_pos s') 0 0 (running_proc s') s' \<and> bs s' = disk_sector boot_env 1 0
    \<and> unat (fat_section_start (s_pos s')) = 512 \<and> unat (root_directory_start (s_pos s')) = 9728
    \<and> unat (data_section_start (s_pos s')) = 16896
    \<and> fd_pfd_offset (fd_after s') = root_directory_start (s_pos s') \<and> fd_pos (fd_after s') = 0
    \<and> console s' = console zero_state @ map EvChar (lit ''starting kernel...'' @ [13, 10]) @ [EvSti]
    \<and> peek16 0x200 s' = 0 \<and> peek16 0x202 s' = 0x1000"
proof -
  have "readable 512 18" by (simp add: readable_def floppy_pos_def chs_slip_def)
  then show ?thesis
    using startk_init_correct [OF image_env_ok image_disk_ok zero_state_booting refl, of "volume_image two_clusters [init_entry]"]
    unfolding volume_positions by (simp add: volume_geometry zero_state_def)
qed

text \<open>C3: entering a program on a mounted volume, from a state in which \<open>k\<close> programs are nested: the first
  file of the directory with the name, in upper case, is found; the data of its clusters, each from its own
  place on the disk (none of them starts in the last sector of a track, which the code confuses with another), lies in
  segment \<open>k + 2\<close> from offset 0 on and nothing else of the memory has changed; it has the next slot of the process
  table, with its name, its size and its parent, and runs.\<close>

theorem run_enter_loads_program:
  assumes "tables v k k (int k) s" "k < 8" "mounted e es n s" "terminated name" "length (cval name) < 32"
    and "program_entry e n s name = Some f" "program_ok es s f cs" "place_ok place (length name)" "place_keeps place"
  shows "\<exists>s'. run_enter e name place s = ret (0, int k + 1, seg_base (k + 2), s')
    \<and> tables v (Suc k) (Suc k) (int k + 1) s'
    \<and> ram s' = store_ram ((k + 2) * 65536) (program_image e s cs) (ram s)
    \<and> cval (p_name (processes s' ! k)) = map upper_byte (cval name) \<and> p_size (processes s' ! k) = file_size f"
  using assms by (rule run_enter_loads_program_eq)

theorem run_enter_loads_program_witness:
  "\<exists>s s'. run_enter boot_env exec_block place_params (s\<lparr>params := exec_block\<rparr>) = ret (0, 2, 0x3000, s')
    \<and> ram s' = store_ram 0x30000 (disk_bytes boot_env 1 16896 8192) (ram s)
    \<and> cval (p_name (processes s' ! 1)) = lit ''INIT'' \<and> p_size (processes s' ! 1) = 5000"
proof -
  obtain v s where s: "tables v 1 1 1 s" "boot_volume s" by (rule boot_one)
  let ?s = "s\<lparr>params := exec_block\<rparr>"
  have t: "tables v 1 1 (int 1) ?s" using tables_params [OF s(1) exec_block_simps(1)] by simp
  have v: "boot_volume ?s" by (rule on_volume_tables [OF s(2,1) t])
  have name: "length (cval exec_block) < 32" "map upper_byte (cval exec_block) = lit ''INIT''"
    using upper_init unfolding exec_block_simps(3) by (simp_all add: cval_cstr of_char_def)
  have place: "place_ok place_params (length exec_block)" using place_params_ok exec_block_simps(1) by simp
  have "\<exists>s'. run_enter boot_env exec_block place_params ?s = ret (0, int 1 + 1, seg_base (1 + 2), s')
    \<and> tables v (Suc 1) (Suc 1) (int 1 + 1) s'
    \<and> ram s' = store_ram ((1 + 2) * 65536) (program_image boot_env ?s [2, 3]) (ram ?s)
    \<and> cval (p_name (processes s' ! 1)) = map upper_byte (cval exec_block) \<and> p_size (processes s' ! 1) = file_size init_entry"
    by (rule run_enter_loads_program [OF t _ boot_mounted [OF v] exec_block_simps(2) name(1) boot_program [OF v name(2)] place]) simp_all
  then show ?thesis
    using boot_program_image [OF v] name(2) by (auto simp: seg_base_def init_entry_def)
qed

text \<open>C22: system call 7 with a name the directory does not have: the caller gets 1 in the first four bytes,
  the rest of its name in upper case, and its tables and the memory are as before; the screen shows the search of the
  directory and nothing else.\<close>

theorem dispatch_run_missing:
  assumes "tables v (Suc k) (Suc k) (int k + 1) s" "Suc k < 8" "mounted e es n s" "terminated (params s)"
    and "program_entry e n s (params s) = None"
  shows "\<exists>s' nm. dispatch farcall e 7 s = ret s' \<and> stoupper (params s) = Inr nm \<and> params s' = bytes32 1 @ drop 4 nm
    \<and> tables v (Suc k) (Suc k) (int k + 1) s' \<and> ram s' = ram s
    \<and> (\<exists>c. console s' = console s @ c \<and> chars c = scan_text n)"
  using dispatch_run_missing_eq [OF assms] unfolding progress_def by blast

definition missing_block :: "byte list" where
  "missing_block = cstr ''shell'' @ replicate 570 7"

theorem dispatch_run_missing_witness:
  "\<exists>s s'. dispatch (\<lambda>_ _. None) boot_env 7 (s\<lparr>params := missing_block\<rparr>) = ret s'
    \<and> params s' = bytes32 1 @ drop 4 (cstr ''SHELL'' @ replicate 570 7) \<and> ram s' = ram s"
proof -
  obtain v s where s: "tables v 1 1 1 s" "boot_volume s" by (rule boot_one)
  let ?s = "s\<lparr>params := missing_block\<rparr>"
  have b: "length missing_block = 576" by (simp add: missing_block_def cstr_def)
  have e: "missing_block = lit ''shell'' @ 0 # replicate 570 7" unfolding missing_block_def cstr_def by simp
  have c: "terminated missing_block" "cval missing_block = lit ''shell''"
    unfolding e by (rule terminated_append_NUL, rule cval_append_NUL) (simp add: of_char_def)
  have up: "stoupper missing_block = Inr (cstr ''SHELL'' @ replicate 570 7)"
    unfolding stoupper_eq [OF c(1)] c(2) by (simp add: missing_block_def cstr_def upper_byte_def of_char_def)
  have t: "tables v (Suc 0) (Suc 0) (int 0 + 1) ?s" using tables_params [OF s(1) b] by simp
  have v: "boot_volume ?s" by (rule on_volume_tables [OF s(2,1) t])
  have none: "program_entry boot_env 224 ?s (params ?s) = None"
    by (rule boot_no_program [OF v]) (simp add: c(2) of_char_def upper_byte_def)
  from dispatch_run_missing [OF t _ boot_mounted [OF v] _ none, of "\<lambda>_ _. None"] c(1)
  obtain s' nm where "dispatch (\<lambda>_ _. None) boot_env 7 ?s = ret s'" "stoupper missing_block = Inr nm" "params s' = bytes32 1 @ drop 4 nm"
    "ram s' = ram s" by auto
  with up show ?thesis by (intro exI [of _ s] exI [of _ s']) simp
qed

text \<open>C23: system call 7 with a program that is entered and returns, having kept the tables (as every run of
  steps does): the caller gets 0 in the first four bytes and finds its tables as they were, and the other
  572 bytes of its parameter block are those of the program's last system call.\<close>

theorem dispatch_run_leaks_params:
  assumes "tables v (Suc k) (Suc k) (int k + 1) s" "Suc k < 8"
    and "run_enter e (params s) place_params s = ret (0, pid, segment, s1)"
    and "farcall segment s1 = ret s2" "tables v (Suc (Suc k)) (Suc (Suc k)) r s2" "0 \<le> r" "r \<le> 9"
  shows "\<exists>s'. dispatch farcall e 7 s = ret s' \<and> tables v (Suc k) (Suc k) (int k + 1) s'
    \<and> params s' = bytes32 0 @ drop 4 (params s2) \<and> ram s' = ram s2"
  using dispatch_run_leaks_params_eq [where farcall = farcall, OF assms] by blast

text \<open>A program that makes one system call with a block of nines before it returns.\<close>

theorem dispatch_run_leaks_params_witness:
  "\<exists>s s'. dispatch (\<lambda>_ s. ret (s\<lparr>params := replicate 576 9\<rparr>)) boot_env 7 (s\<lparr>params := exec_block\<rparr>) = ret s'
    \<and> params s' = bytes32 0 @ replicate 572 9"
proof -
  obtain v s where s: "tables v 1 1 1 s" "boot_volume s" by (rule boot_one)
  let ?s = "s\<lparr>params := exec_block\<rparr>"
  have t: "tables v (Suc 0) (Suc 0) (int 0 + 1) ?s" using tables_params [OF s(1) exec_block_simps(1)] by simp
  obtain s1 where s1: "run_enter boot_env exec_block place_params ?s = ret (0, 2, 0x3000, s1)" "tables v 2 2 2 s1"
    by (rule boot_runs_second [OF s(2,1)]) (rule that)
  have t2: "tables v (Suc (Suc 0)) (Suc (Suc 0)) 2 (s1\<lparr>params := replicate 576 9\<rparr>)"
    using tables_params [OF s1(2), of "replicate 576 9"] by (simp add: numeral_2_eq_2)
  have "\<exists>s'. dispatch (\<lambda>_ s. ret (s\<lparr>params := replicate 576 9\<rparr>)) boot_env 7 ?s = ret s' \<and> tables v (Suc 0) (Suc 0) (int 0 + 1) s'
    \<and> params s' = bytes32 0 @ drop 4 (params (s1\<lparr>params := replicate 576 9\<rparr>)) \<and> ram s' = ram (s1\<lparr>params := replicate 576 9\<rparr>)"
    by (rule dispatch_run_leaks_params [OF t _ _ _ t2]) (use s1(1) in simp_all)
  then show ?thesis by auto
qed

section \<open>The kernel's loop without a first program\<close>

lemma turn_without_init:
  assumes t: "tables v 0 0 r s" and m: "mounted e es n s" and name: "terminated (init_name s)" "lookup_program e n s (init_name s) = None"
  obtains s' where "startk_turn farcall e s = ret s'" "tables v 0 0 0 s'" "mounted e es n s'" "terminated (init_name s')"
    "lookup_program e n s' (init_name s') = None" "kbd s' = kbd s" "ram s' = ram s" "\<exists>c. console s' = console s @ c \<and> chars c = scan_text n"
proof -
  let ?s = "init_processes s"
  have same: "init_name ?s = init_name s" "kbd ?s = kbd s" "ram ?s = ram s" "console ?s = console s" by (simp_all add: init_processes_def)
  have ti: "tables v 0 0 (int 0) ?s" using tables_init [OF t] by simp
  have mi: "mounted e es n ?s" by (rule mounted_tables [OF m t ti])
  have lookup: "lookup_program e n ?s (init_name s) = None"
    using name(2) lookup_program_same [OF same_volume_tables [OF t ti]] by simp
  then have none: "program_entry e n ?s (init_name s) = None" by (simp add: lookup_program_def)
  obtain nm s1 where s1: "load e (init_name s) (junk_pid e) ?s = ret (1, junk_pid e, seg_base (0 + 2), nm, s1)" "length nm = length (init_name s)"
      "tables v 0 (Suc 0) (int 0) s1" "ram s1 = ram ?s" "progress (scan_text n) (kbd ?s) ?s s1"
    using load_missing [OF ti _ mi name(1) none] by auto
  have nm: "cval nm = map upper_byte (cval (init_name s))" by (rule load_ret(2) [OF ti _ mi s1(1)]) simp
  have "length (cval (init_name s)) < length (init_name s)" by (rule cval_length [OF name(1)])
  moreover have "cval nm = nm" if "\<not> terminated nm"
    using that by (auto simp: cval_def terminated_def takeWhile_eq_all_conv)
  ultimately have ok: "terminated nm" using s1(2) arg_cong [OF nm, of length] by (metis length_map nat_neq_iff)
  have t1: "tables v 0 (Suc 0) (int 0) (place_init nm s1)" using place_okD [OF place_init_ok _ s1(3)] s1(2) by blast
  obtain s2 where s2: "run_exit 1 (junk_pid e) (seg_base (0 + 2)) (place_init nm s1) = Inr (1, s2)" "tables v 0 0 (int 0) s2"
    using run_exit_missing [OF t1, of "junk_pid e"] by auto
  have turn: "startk_turn farcall e s = ret s2"
    by (simp add: startk_turn_def run_program_def run_enter_def same s1(1) s2(1) [simplified])
  have m2: "mounted e es n s2" by (rule mounted_tables [OF m t s2(2)])
  note f = run_exit_frame [OF s2(1)]
  have i2: "init_name s2 = nm" using f by (simp add: place_init_def)
  have "map upper_byte (cval nm) = map upper_byte (cval (init_name s))" by (simp add: nm upper_byte_idem)
  then have "lookup_program e n s2 nm = None"
    using lookup_program_capitals [of nm "init_name s" e n s2] lookup_program_same [OF same_volume_tables [OF t s2(2)]] name(2) by simp
  then show thesis
    using s2(2) m2 turn ok i2 f s1(4,5) same by (intro that [of s2]) (simp_all add: place_init_def progress_def)
qed

lemma turns_without_init:
  "\<lbrakk>tables v 0 0 r s; mounted e es n s; terminated (init_name s); lookup_program e n s (init_name s) = None\<rbrakk> \<Longrightarrow>
   \<exists>s' r'. startk_turns farcall e k s = ret s' \<and> tables v 0 0 r' s' \<and> ram s' = ram s \<and> kbd s' = kbd s
     \<and> (\<exists>c. console s' = console s @ c \<and> chars c = concat (replicate k (scan_text n)))"
proof (induction k arbitrary: r s)
  case 0
  then show ?case by auto
next
  case (Suc k)
  obtain s1 where s1: "startk_turn farcall e s = ret s1" "tables v 0 0 0 s1" "mounted e es n s1" "terminated (init_name s1)"
    "lookup_program e n s1 (init_name s1) = None" "kbd s1 = kbd s" "ram s1 = ram s" "\<exists>c. console s1 = console s @ c \<and> chars c = scan_text n"
    by (rule turn_without_init [OF Suc.prems]) (rule that)
  obtain s' r' c where s': "startk_turns farcall e k s1 = ret s'" "tables v 0 0 r' s'" "ram s' = ram s1" "kbd s' = kbd s1"
    "console s' = console s1 @ c" "chars c = concat (replicate k (scan_text n))"
    using Suc.IH [OF s1(2-5)] by blast
  obtain c1 where "console s1 = console s @ c1" "chars c1 = scan_text n" using s1(8) by blast
  with s' s1(1,6,7) show ?case by (intro exI [of _ s'] exI [of _ r']) simp
qed

lemma loop_without_init:
  assumes "startk_loop farcall e s = Some x" "tables v 0 0 r s" "mounted e es n s" "terminated (init_name s)"
    "lookup_program e n s (init_name s) = None"
  shows False
proof -
  have "tables v 0 0 r s \<longrightarrow> mounted e es n s \<longrightarrow> terminated (init_name s) \<longrightarrow> lookup_program e n s (init_name s) \<noteq> None"
  proof (rule startk_loop.raw_induct [where P = "\<lambda>farcall e s x. \<forall>r. tables v 0 0 r s \<longrightarrow> mounted e es n s \<longrightarrow> terminated (init_name s)
      \<longrightarrow> lookup_program e n s (init_name s) \<noteq> None", OF _ assms(1), THEN spec], intro allI impI notI)
    fix f farcall e s x r
    assume IH: "\<And>farcall e s x. f farcall e s = Some x \<Longrightarrow> \<forall>r. tables v 0 0 r s \<longrightarrow> mounted e es n s \<longrightarrow> terminated (init_name s)
        \<longrightarrow> lookup_program e n s (init_name s) \<noteq> None"
      and eq: "obind (startk_turn farcall e s) (\<lambda>s. f farcall e s) = Some x"
      and s: "tables v 0 0 r s" "mounted e es n s" "terminated (init_name s)" "lookup_program e n s (init_name s) = None"
    obtain s1 where s1: "startk_turn farcall e s = ret s1" "tables v 0 0 0 s1" "mounted e es n s1" "terminated (init_name s1)"
      "lookup_program e n s1 (init_name s1) = None"
      by (rule turn_without_init [OF s]) (rule that)
    then show False using eq IH [of farcall e s1 x] by auto
  qed
  with assms(2-5) show False by blast
qed

text \<open>C24: on a volume without the first program, \<open>startk\<close> runs for ever and nothing runs out: after any number of turns of its
  loop the process table is empty, the kernel's two segments alone are taken, the memory is what it was, no key has been read, and the screen
  has shown the messages of one more reading of the directory for every turn; so the whole neither returns nor faults.\<close>

theorem startk_without_init:
  assumes "startk_init e s0 = ret s" "tables v 0 0 r s" "mounted e es n s" "terminated (init_name s)"
    and "lookup_program e n s (init_name s) = None"
  shows "(\<forall>k. \<exists>s' r'. startk farcall e s0 = obind (startk_turns farcall e k s) (\<lambda>s. startk_loop farcall e s)
      \<and> startk_turns farcall e k s = ret s' \<and> tables v 0 0 r' s' \<and> ram s' = ram s \<and> kbd s' = kbd s
      \<and> (\<exists>c. console s' = console s @ c \<and> chars c = concat (replicate k (scan_text n))))
    \<and> startk farcall e s0 = None"
proof -
  have "startk_loop farcall e s = None" using loop_without_init [OF _ assms(2-5)] by (cases "startk_loop farcall e s") auto
  then have "startk farcall e s0 = None" using startk_from_turns [OF assms(1), of farcall 0] by simp
  moreover have "\<exists>s' r'. startk farcall e s0 = obind (startk_turns farcall e k s) (\<lambda>s. startk_loop farcall e s)
      \<and> startk_turns farcall e k s = ret s' \<and> tables v 0 0 r' s' \<and> ram s' = ram s \<and> kbd s' = kbd s
      \<and> (\<exists>c. console s' = console s @ c \<and> chars c = concat (replicate k (scan_text n)))" for k
    unfolding startk_from_turns [OF assms(1), of farcall k, symmetric] using turns_without_init [OF assms(2-5), of farcall k] by simp
  ultimately show ?thesis by (intro conjI allI)
qed

text \<open>A volume with nothing in its root directory.\<close>

theorem startk_without_init_witness:
  "\<exists>s s'. startk_init (volume_env two_clusters []) zero_state = ret s \<and> startk (\<lambda>_ _. None) (volume_env two_clusters []) zero_state = None
    \<and> startk_turns (\<lambda>_ _. None) (volume_env two_clusters []) 1000 s = ret s' \<and> procs_busy s' = {} \<and> segs_busy (seg_arr s') = {..<2}"
proof -
  have z: "zero_state\<lparr>kbd := []\<rparr> = zero_state" by (simp add: zero_state_def)
  obtain s where s: "startk_init (volume_env two_clusters []) zero_state = ret s" "tables (bs s, s_pos s) 0 0 (running_proc s) s"
    "on_volume two_clusters [] s" "init_name s = cstr ''init''"
    by (rule volume_start [of two_clusters "[]" "[]", unfolded z]) (rule that)
  have ok: "files_ok []" by (simp add: files_ok_def)
  have m: "mounted (volume_env two_clusters []) two_clusters 224 s" by (rule volume_mounted [OF s(3) ok]) simp
  have none: "lookup_program (volume_env two_clusters []) 224 s (init_name s) = None"
    by (simp add: lookup_program_def volume_program [OF s(3) ok])
  have name: "terminated (init_name s)" by (simp add: s(4))
  note run = startk_without_init [OF s(1,2) m name none, of "\<lambda>_ _. None"]
  then obtain s' r' where "startk_turns (\<lambda>_ _. None) (volume_env two_clusters []) 1000 s = ret s'"
    "tables (bs s, s_pos s) 0 0 r' s'" by blast
  with run s(1) show ?thesis by (auto simp: tables_def)
qed

section \<open>System calls other than 7\<close>



end
