(* ===== verification/Shell_Commands.thy ===== *)
theory Shell_Commands
  imports Shell_Line Session_Theorems
begin

text \<open>
  What the shell does with its lines: a session of typed commands up to \<open>exit\<close> against a reference on the keys,
  and a name that is no program; \<open>init\<close> when there is no shell.
\<close>

section \<open>A program with the kernel below it\<close>

text \<open>The \<open>k + 1\<close>-st program runs, with its buffers in order.\<close>

definition process_ok :: "byte list \<times> section_positions \<Rightarrow> nat \<Rightarrow> ustate \<Rightarrow> bool" where
  "process_ok v k u \<longleftrightarrow> usr_ok u \<and> tables v (Suc k) (Suc k) (int k + 1) (kern u)"

lemma process_usr: "process_ok v k u \<Longrightarrow> usr_ok u"
  by (simp add: process_ok_def)

lemma process_keyboard: "process_ok v k u \<Longrightarrow> keyboard_ready u"
  by (simp add: process_ok_def tables_def kinv_def fds_ready_def keyboard_ready_def)

lemma tables_talked: "tables v n m r s \<Longrightarrow> length q = 576 \<Longrightarrow> tables v n m r ((shown t s)\<lparr>params := q, kbd := ks\<rparr>)"
  by (auto simp: tables_def kinv_def fds_ready_def procs_wf_def procs_busy_def)

lemma process_talked: "process_ok v k u \<Longrightarrow> talked t ks u w \<Longrightarrow> process_ok v k w"
  unfolding process_ok_def by (auto simp: talked_def usr_ok_def intro!: tables_talked)

lemma process_printed: "process_ok v k u \<Longrightarrow> printed t u w \<Longrightarrow> process_ok v k w"
  using process_talked printed_talked by blast

lemma mounted_process:
  assumes "mounted e es n (kern u)" "process_ok v k u" "process_ok v k' w"
  shows "mounted e es n (kern w)" "program_entry e n (kern w) name = program_entry e n (kern u) name"
  using assms mounted_tables [of e es n "kern u"] same_volume_entries(3) [OF same_volume_tables]
  unfolding process_ok_def by blast+

lemma talked_progress: "talked t ks u w \<Longrightarrow> progress t ks (kern u) (kern w)"
  by (auto simp: talked_def progress_def)

lemma printed_progress: "printed t u w \<Longrightarrow> progress t (kbd (kern u)) (kern u) (kern w)"
  using talked_progress [OF printed_talked] .

section \<open>Running a program that is not there\<close>

lemma usr_run_missing:
  assumes u: "process_ok v k u" and k: "Suc k < 8" and m: "mounted e es n (kern u)"
    and str: "576 \<le> length str" "terminated (take 576 str)" "program_entry e n (kern u) (take 576 str) = None"
  shows "gives (\<lambda>(rc, w). rc = 1 \<and> process_ok v k w \<and> ustack w = ustack u \<and> progress (scan_text n) (kbd (kern u)) (kern u) (kern w))
    (usr_run_program fc e str u)"
proof -
  have ok: "usr_ok u" and t: "tables v (Suc k) (Suc k) (int k + 1) (kern u)" using u by (simp_all add: process_ok_def)
  define b where "b = take 576 str"
  have b: "length b = 576" using str(1) by (simp add: b_def)
  have copy: "memcpy (sysparam u) str 576 = Inr b"
    using memcpy_eq [of 576 str "sysparam u"] ok str(1) by (simp add: usr_ok_def b_def)
  let ?s = "(kern u)\<lparr>params := b\<rparr>"
  have t': "tables v (Suc k) (Suc k) (int k + 1) ?s" by (rule tables_params [OF t b])
  have "mounted e es n ?s" by (rule mounted_tables [OF m t t'])
  moreover have "program_entry e n ?s (params ?s) = None"
    using same_volume_entries(3) [OF same_volume_tables [OF t t'], of e n] str(3) by (simp add: b_def)
  ultimately obtain s' nm where s': "dispatch fc e 7 ?s = ret s'" "stoupper b = Inr nm" "params s' = bytes32 1 @ drop 4 nm"
      "tables v (Suc k) (Suc k) (int k + 1) s'" "progress (scan_text n) (kbd ?s) ?s s'"
    using dispatch_run_missing_eq [OF t' k, of e es n fc] str(2) b_def by auto
  have l: "length (params s') = 576" using s'(4) by (simp add: tables_def kinv_def)
  have "usr_run_program fc e str u = ret (1, u\<lparr>sysparam := params s', kern := s'\<rparr>)"
    using s'(1) l b copy by (simp add: usr_run_program_def copy_sysparam_def user_syscall_def) (simp add: s'(3) bytes32_def)
  then show ?thesis using ok l s'(4,5) by (simp add: process_ok_def usr_ok_def progress_def)
qed

section \<open>Commands\<close>

lemma is_cmd:
  assumes "terminated buf" "0 \<notin> set (lit t)"
  shows "cval buf = lit t \<Longrightarrow> obind (Some (strcmp buf (cstr t))) (\<lambda>c. if c = 0 then m else m') = m"
    and "cval buf \<noteq> lit t \<Longrightarrow> obind (Some (strcmp buf (cstr t))) (\<lambda>c. if c = 0 then m else m') = m'"
  using strcmp_total [OF assms(1) terminated_cstr [of t]] assms(2) by (auto simp: cval_cstr)

definition builtins :: "string set" where
  "builtins = {''syscall'', ''aaa'', ''bbb'', ''ccc'', ''halt'', ''reboot'', ''exit'', ''date''}"

lemma shell_command_missing:
  assumes u: "process_ok v k u" and k: "Suc k < 8" and m: "mounted e es n (kern u)"
    and buf: "length buf = 50" "terminated buf" "37 \<notin> set (cval buf)" "\<forall>t\<in>builtins. cval buf \<noteq> lit t"
    and none: "program_entry e n (kern u) buf = None"
  shows "gives (\<lambda>(stop, b, w). \<not> stop \<and> b = buf \<and> process_ok v k w \<and> ustack w = ustack u
      \<and> progress (scan_text n @ cval buf @ lit '': command not found'') (kbd (kern u)) (kern u) (kern w))
    (shell_command fc e buf u)"
proof -
  let ?str = "buf @ drop 50 (ustack u)"
  have c: "cval (take 576 ?str) = cval buf" "terminated (take 576 ?str)" "576 \<le> length ?str"
  proof -
    have "take 576 ?str = buf @ take 526 (drop 50 (ustack u))" using buf(1) by simp
    moreover obtain r where "buf = cval buf @ 0 # r" using cval_split [OF buf(2)] by blast
    ultimately show "cval (take 576 ?str) = cval buf" "terminated (take 576 ?str)"
      using cval_append_NUL [of "cval buf"] cval_nonzero buf(2) by (metis append.assoc append_Cons, simp add: terminated_def)
    show "576 \<le> length ?str" using buf(1) u by (simp add: process_ok_def usr_ok_def)
  qed
  have none': "program_entry e n (kern u) (take 576 ?str) = None" using none c(1) by (simp add: program_entry_def)
  obtain w where w: "usr_run_program fc e ?str u = ret (1, w)" "process_ok v k w" "ustack w = ustack u"
    "progress (scan_text n) (kbd (kern u)) (kern u) (kern w)"
    using usr_run_missing [OF u k m c(3,2) none', of fc] by (auto simp: gives_def)
  obtain w1 where w1: "prints fc e buf w = ret w1" "printed (cval buf) w w1"
    using prints_text [OF process_usr [OF w(2)] buf(2,3), of fc e] by (auto simp: gives_def)
  obtain w2 where w2: "prints fc e (cstr '': command not found'') w1 = ret w2" "printed (lit '': command not found'') w1 w2"
    using prints_cstr [OF printed_ok [OF w1(2)], of "'': command not found''" fc e] by (auto simp: gives_def of_char_def)
  have p: "printed (cval buf @ lit '': command not found'') w w2" by (rule printed_trans [OF w1(2) w2(2)])
  have "\<forall>t\<in>builtins. cval buf \<noteq> lit t \<and> 0 \<notin> set (lit t)"
    using buf(4) by (simp add: builtins_def of_char_def)
  then have "shell_command fc e buf u = ret (False, buf, w2)"
    using w(1) w1(1) w2(1) by (simp add: shell_command_def Let_def builtins_def is_cmd [OF buf(2)] usr_system_def del: obind_simps(3))
      (simp add: w1(1) w2(1))
  moreover have "progress (scan_text n @ cval buf @ lit '': command not found'') (kbd (kern u)) (kern u) (kern w2)"
    using progress_trans [OF w(4) printed_progress [OF p]] progress_kbd [OF w(4)] by simp
  ultimately show ?thesis
    using process_printed [OF w(2) p] w(3) p by simp
qed

section \<open>A session\<close>

text \<open>What the commands that only print add to the screen, and the screen of a session that ends with \<open>exit\<close>: each
  line shows the prompt, its echo and the output.\<close>

definition builtin_text :: "byte list \<Rightarrow> byte list option" where
  "builtin_text l = (if l = lit ''aaa'' then Some (lit ''Hello kernel!'') else if l = lit ''bbb'' then Some (lit ''S'') else None)"

definition prompt_text :: "byte list \<Rightarrow> byte list" where
  "prompt_text t = [13, 10, 35, 32] @ t @ [13, 10]"

fun session_text :: "byte list list \<Rightarrow> byte list option" where
  "session_text [] = None"
| "session_text (ks # kss) =
     (case edit_keys [] ks of
        Some (l, t) \<Rightarrow>
          if l = lit ''exit'' then (if kss = [] then Some (prompt_text t) else None)
          else (case builtin_text l of
              Some a \<Rightarrow> map_option (\<lambda>t'. prompt_text t @ a @ t') (session_text kss)
            | None \<Rightarrow> None)
      | None \<Rightarrow> None)"

lemma shell_command_builtin:
  assumes "usr_ok u" "terminated buf" "builtin_text (cval buf) = Some a"
  shows "gives (\<lambda>(stop, b, w). \<not> stop \<and> b = buf \<and> printed a u w) (shell_command fc e buf u)"
proof -
  consider (aaa) "cval buf = lit ''aaa''" "a = lit ''Hello kernel!''" | (bbb) "cval buf = lit ''bbb''" "a = lit ''S''"
    using assms(3) by (auto simp: builtin_text_def split: if_splits)
  then show ?thesis
  proof cases
    case aaa
    obtain w where "prints fc e (cstr ''Hello kernel!'') u = ret w" "printed a u w"
      using prints_cstr [OF assms(1), of "''Hello kernel!''" fc e] aaa(2) by (auto simp: gives_def of_char_def)
    with aaa(1) show ?thesis
      by (simp add: shell_command_def Let_def is_cmd [OF assms(2)] of_char_def)
  next
    case bbb
    obtain w where "putchar fc e 83 u = ret w" "printed a u w"
      using putchar_ret [OF assms(1), of fc e 83] bbb(2) by (auto simp: of_char_def)
    with bbb(1) show ?thesis
      by (simp add: shell_command_def Let_def is_cmd [OF assms(2)] of_char_def)
  qed
qed

lemma shell_command_exit:
  assumes "terminated buf" "cval buf = lit ''exit''"
  shows "shell_command fc e buf u = ret (True, buf, u)"
  using assms(2) by (simp add: shell_command_def Let_def is_cmd [OF assms(1)] of_char_def)

lemma shell_loop_session:
  "\<lbrakk>usr_ok u; keyboard_ready u; session_text kss = Some t; \<forall>ks\<in>set kss. 13 \<notin> set ks;
    kbd (kern u) = concat (map (\<lambda>ks. ks @ [13]) kss) @ rest; length buf = 50\<rbrakk> \<Longrightarrow>
   gives (talked t rest u) (shell_loop fc e buf u)"
proof (induction kss arbitrary: u t buf)
  case (Cons ks kss)
  obtain l o1 where l: "edit_keys [] ks = Some (l, o1)" using Cons.prems(3) by (auto split: option.splits)
  have cmd: "l \<in> {lit ''exit'', lit ''aaa'', lit ''bbb''}"
    using Cons.prems(3) l by (auto simp: builtin_text_def split: option.splits if_splits)
  then have l50: "length l < 50" "0 \<notin> set l" by (auto simp: of_char_def)
  let ?rest = "concat (map (\<lambda>ks. ks @ [13]) kss) @ rest"
  obtain b v where v: "shell_line fc e buf u = ret (b, v)" "length b = 50" "take (Suc (length l)) b = l @ [0]"
      "talked (prompt_text o1) ?rest u v"
    using shell_line_eq [of u ks ?rest buf fc e] Cons.prems l l50 by (auto simp: gives_def prompt_text_def)
  have "b = l @ 0 # drop (Suc (length l)) b" using v(3) append_take_drop_id [of "Suc (length l)" b] by simp
  then have b: "terminated b" "cval b = l" using cval_append_NUL [OF l50(2)] by (metis terminated_append_NUL)+
  show ?case
  proof (cases "l = lit ''exit''")
    case True
    then have "kss = []" "t = prompt_text o1" using Cons.prems(3) l by (auto split: if_splits)
    with v(1,4) shell_command_exit [OF b(1), of fc e v] b(2) True show ?thesis
      by (subst shell_loop.simps) simp
  next
    case False
    then obtain a t' where a: "builtin_text l = Some a" "session_text kss = Some t'" "t = prompt_text o1 @ a @ t'"
      using Cons.prems(3) l by (auto split: option.splits if_splits)
    obtain w where w: "shell_command fc e b v = ret (False, b, w)" "printed a v w"
      using shell_command_builtin [OF talked_ok [OF v(4)] b(1), of a fc e] a(1) b(2) by (auto simp: gives_def)
    note p = talked_printed [OF v(4) w(2)]
    have "gives (talked t' rest w) (shell_loop fc e b w)"
      using Cons.prems(2,4) talked_ok [OF p] talked_ready [OF p] talked_kbd [OF p] v(2) a(2) by (intro Cons.IH) simp_all
    then have "gives (talked t rest u) (shell_loop fc e b w)"
      using talked_trans [OF p] a(3) by (auto elim!: gives_mono)
    with v(1) w(1) show ?thesis by (subst shell_loop.simps) simp
  qed
qed simp

lemma shell_main_session:
  assumes "usr_ok u" "keyboard_ready u" "session_text kss = Some t" "\<forall>ks\<in>set kss. 13 \<notin> set ks"
    and "kbd (kern u) = concat (map (\<lambda>ks. ks @ [13]) kss) @ rest"
  shows "gives (talked t rest u) (shell_main fc e u)"
  using shell_loop_session [OF assms, of "take 50 (ustack u)" fc e] assms(1)
  by (auto simp: shell_main_def shell_def usr_ok_def gives_def)

section \<open>\<open>init\<close> without a shell\<close>

definition init_text :: "byte list" where
  "init_text = lit ''Entered to init...'' @ [13, 10] @ lit ''call to shell...'' @ [13, 10]"

lemma prints_lit_crlf:
  assumes "usr_ok u" "0 \<notin> set (lit t)" "37 \<notin> set (lit t)"
  shows "gives (printed (lit t @ [13, 10]) u) (prints fc e (lit t @ crlf) u)"
proof -
  have e: "lit t @ crlf = (lit t @ [13, 10]) @ 0 # []" by (simp add: crlf_def)
  have "cval (lit t @ crlf) = lit t @ [13, 10]" unfolding e by (rule cval_append_NUL) (use assms(2) in simp)
  moreover have "terminated (lit t @ crlf)" unfolding e by (rule terminated_append_NUL)
  ultimately show ?thesis using prints_text [OF assms(1), of "lit t @ crlf"] assms(3) by simp
qed

lemma init_greets:
  assumes "usr_ok u"
  obtains w where "init_main fc e u = obind (usr_run_program fc e (cstr ''shell'' @ ustack w) w) (\<lambda>r. ret (snd r))"
    "printed init_text u w"
proof -
  obtain v where v: "prints fc e (lit ''Entered to init...'' @ crlf) u = ret v" "printed (lit ''Entered to init...'' @ [13, 10]) u v"
    using prints_lit_crlf [OF assms, of "''Entered to init...''" fc e] by (auto simp: gives_def of_char_def)
  obtain w where w: "prints fc e (lit ''call to shell...'' @ crlf) v = ret w" "printed (lit ''call to shell...'' @ [13, 10]) v w"
    using prints_lit_crlf [OF printed_ok [OF v(2)], of "''call to shell...''" fc e] by (auto simp: gives_def of_char_def)
  have "printed init_text u w" using printed_trans [OF v(2) w(2)] by (simp add: init_text_def)
  moreover from this have "ustack w = ustack u" by simp
  ultimately show thesis using that v(1) w(1) by (simp add: init_main_def)
qed

section \<open>Properties\<close>

text \<open>A program's memory for concrete runs, which run no other program.\<close>

definition no_program :: farcall where
  "no_program = (\<lambda>segment s. None)"

definition sample_user :: "byte list \<Rightarrow> ustate" where
  "sample_user keys = \<lparr>sysparam = replicate 576 0, itoa_buf = replicate 7 0, ultoa_buf = replicate 12 0,
     ustack = replicate 1024 0, kern = zero_state\<lparr>fd_list := (fd_list zero_state)[0 := zero_fd\<lparr>fd_pfd := -1\<rparr>], kbd := keys\<rparr>\<rparr>"

lemma sample_user_simps: "usr_ok (sample_user keys)" "keyboard_ready (sample_user keys)" "kbd (kern (sample_user keys)) = keys"
  "console (kern (sample_user keys)) = []"
  by (simp_all add: sample_user_def usr_ok_def keyboard_ready_def zero_state_def)

text \<open>C15: \<open>printf\<close> prints, character by character through system call 14, the text the format and its arguments
  describe, and returns the length of the format; apart from the parameter blocks and the number buffer
  nothing else in the program or the kernel changes.\<close>

theorem printf_correct:
  assumes "usr_ok u" "terminated fmt" "format_text (cval fmt) ap = Some t"
  shows "\<exists>v. printf fc e fmt ap u = ret (int (length (cval fmt)), v) \<and> printed t u v"
  using printf_prints [OF assms] by (auto simp: gives_def)

theorem printf_correct_witness:
  "\<exists>v. printf no_program boot_env (cstr ''%s is %d%%'') [VStr (cstr ''disk''), VInt (- 12)] (sample_user []) = ret (10, v)
    \<and> printed (lit ''disk is -12'') (sample_user []) v"
proof -
  have d: "decimal (- 12) = lit ''-12''" by (simp add: decimal_def dec_step dec_digit of_char_def)
  have c: "cval (cstr ''%s is %d%%'') = lit ''%s is %d%%''" "cval (cstr ''disk'') = lit ''disk''"
    by (rule cval_cstr, simp add: of_char_def)+
  have "format_text (lit ''%s is %d%%'') [VStr (cstr ''disk''), VInt (- 12)] = Some (lit ''disk is '' @ decimal (- 12))"
    by (simp add: of_char_def c(2))
  then show ?thesis
    using printf_correct [OF sample_user_simps(1) terminated_cstr, of "''%s is %d%%''" _ _ no_program boot_env] unfolding c d
    by (fastforce simp: of_char_def)
qed

text \<open>C17: the shell's line editor: when the keys up to Enter are typed, the prompt and the echo of each key are on
  the screen and \<open>buf\<close> holds the edited line and a NUL; a line that grows beyond the 50 bytes of \<open>buf\<close>, and one
  that fills them, is written past the end of it.\<close>

theorem shell_edits_line:
  assumes "usr_ok u" "keyboard_ready u" "kbd (kern u) = ks @ 13 # rest" "13 \<notin> set ks" "length buf = 50"
  shows "case edit_keys [] ks of
      Some (l, t) \<Rightarrow> if length l < 50
        then gives (\<lambda>(b, v). length b = 50 \<and> take (Suc (length l)) b = l @ [0]
          \<and> talked ([13, 10, 35, 32] @ t @ [13, 10]) rest u v) (shell_line fc e buf u)
        else shell_line fc e buf u = Some (Inl WritePast)
    | None \<Rightarrow> shell_line fc e buf u = Some (Inl WritePast)"
  using assms by (rule shell_line_eq)

theorem shell_edits_line_witness:
  "gives (\<lambda>(b, v). length b = 50 \<and> take 3 b = cstr ''ls'' \<and> talked ([13, 10, 35, 32] @ lit ''lx'' @ [8, 32, 8] @ lit ''s'' @ [13, 10]) [] (sample_user (lit ''lx'' @ [8, 115, 13])) v)
    (shell_line no_program boot_env (replicate 50 7) (sample_user (lit ''lx'' @ [8, 115, 13])))
   \<and> shell_line no_program boot_env (replicate 50 7) (sample_user (replicate 51 97 @ [13])) = Some (Inl WritePast)"
proof -
  have k: "edit_keys [] (lit ''lx'' @ [8, 115]) = Some (lit ''ls'', lit ''lx'' @ [8, 32, 8] @ lit ''s'')"
    by (simp add: of_char_def)
  have "edit_keys (replicate n 97) (replicate (51 - n) 97) = None" if "n \<le> 50" for n
    using that
  proof (induction "50 - n" arbitrary: n)
    case (Suc m)
    then have e: "51 - n = Suc (50 - n)" by simp
    have "edit_keys (97 # replicate n 97) (replicate (50 - n) 97) = None"
      using Suc.hyps(1) [of "Suc n"] Suc.hyps(2) Suc.prems by simp
    then show ?case unfolding e by (simp add: replicate_append_same)
  qed simp
  from this [of 0] have long: "edit_keys [] (replicate 51 97) = None" by simp
  have "length (replicate 50 7) = 50" by simp
  note s = shell_edits_line [OF sample_user_simps(1,2) _ _ this]
  from s [of "lit ''lx'' @ [8, 115, 13]" "lit ''lx'' @ [8, 115]" "[]" no_program boot_env] s [of "replicate 51 97 @ [13]" "replicate 51 97" "[]" no_program boot_env]
  show ?thesis unfolding k long by (simp add: sample_user_simps of_char_def cstr_def numeral_3_eq_3)
qed

text \<open>C16: a session of the shell in which lines that print are typed, and then \<open>exit\<close>: the shell returns, the
  screen shows for every line the prompt, the echo and the output, and the keys behind are left to be read.\<close>

theorem shell_session_correct:
  assumes "usr_ok u" "keyboard_ready u" "session_text kss = Some t" "\<forall>ks\<in>set kss. 13 \<notin> set ks"
    and "kbd (kern u) = concat (map (\<lambda>ks. ks @ [13]) kss) @ rest"
  shows "\<exists>v. shell_main fc e u = ret v \<and> talked t rest u v"
  using shell_main_session [OF assms] by (auto simp: gives_def)

theorem shell_session_correct_witness:
  "\<exists>v. shell_main no_program boot_env (sample_user (lit ''bbb'' @ [13] @ lit ''exit'' @ [13, 65])) = ret v \<and> kbd (kern v) = [65]
    \<and> console (kern v) = map EvChar ([13, 10, 35, 32] @ lit ''bbb'' @ [13, 10] @ lit ''S'' @ [13, 10, 35, 32] @ lit ''exit'' @ [13, 10])"
proof -
  let ?u = "sample_user (lit ''bbb'' @ [13] @ lit ''exit'' @ [13, 65])"
  have "session_text [lit ''bbb'', lit ''exit''] =
      Some ([13, 10, 35, 32] @ lit ''bbb'' @ [13, 10] @ lit ''S'' @ [13, 10, 35, 32] @ lit ''exit'' @ [13, 10])" (is "_ = Some ?t")
    by (simp add: builtin_text_def prompt_text_def of_char_def)
  from shell_session_correct [OF sample_user_simps(1,2) this, of "lit ''bbb'' @ [13] @ lit ''exit'' @ [13, 65]" "[65]" no_program boot_env]
  obtain v where "shell_main no_program boot_env ?u = ret v" "talked ?t [65] ?u v" by (auto simp: sample_user_simps of_char_def)
  moreover from this(2) have "console (kern v) = console (kern ?u) @ map EvChar ?t" by (auto simp: talked_def)
  ultimately show ?thesis using sample_user_simps(4) talked_kbd by auto
qed

text \<open>C25: for a line that is no command of the shell and no program of the volume, the screen shows the search of the directory,
  the line itself and \<open>: command not found\<close>, and nothing else; the shell goes on with its buffer as it was, and the kernel's tables are those
  before.\<close>

theorem shell_unknown_command:
  assumes "process_ok v k u" "Suc k < 8" "mounted e es n (kern u)" "length buf = 50" "terminated buf" "37 \<notin> set (cval buf)"
    and "\<forall>t\<in>builtins. cval buf \<noteq> lit t" "program_entry e n (kern u) buf = None"
  shows "\<exists>w c. shell_command fc e buf u = ret (False, buf, w) \<and> process_ok v k w
    \<and> console (kern w) = console (kern u) @ c \<and> chars c = scan_text n @ cval buf @ lit '': command not found''"
  using shell_command_missing [OF assms, of fc] by (auto simp: gives_def progress_def)

definition nope_line :: "byte list" where
  "nope_line = cstr ''nope'' @ replicate 45 0"

theorem shell_unknown_command_witness:
  "\<exists>u w c. shell_command no_program boot_env nope_line u = ret (False, nope_line, w)
    \<and> console (kern w) = console (kern u) @ c \<and> chars c = scan_text 224 @ lit ''nope: command not found''"
proof -
  obtain v s where s: "tables v 1 1 1 s" "boot_volume s" by (rule boot_one)
  let ?u = "(sample_user [])\<lparr>kern := s\<rparr>"
  have "process_ok v 0 ?u"
    using s(1) sample_user_simps(1) [of "[]"] by (simp add: process_ok_def usr_ok_def tables_def kinv_def)
  moreover have e: "nope_line = lit ''nope'' @ 0 # replicate 45 0" unfolding nope_line_def cstr_def by simp
  moreover have b: "cval nope_line = lit ''nope''" unfolding e by (rule cval_append_NUL) (simp add: of_char_def)
  moreover have "terminated nope_line" unfolding e by (rule terminated_append_NUL)
  moreover have "length nope_line = 50" by (simp add: nope_line_def cstr_def)
  moreover have "program_entry boot_env 224 s nope_line = None"
    by (rule boot_no_program [OF s(2)]) (simp add: b of_char_def upper_byte_def)
  ultimately have "\<exists>w c. shell_command no_program boot_env nope_line ?u = ret (False, nope_line, w) \<and> process_ok v 0 w
      \<and> console (kern w) = console (kern ?u) @ c \<and> chars c = scan_text 224 @ cval nope_line @ lit '': command not found''"
    using boot_mounted [OF s(2)]
    by (intro shell_unknown_command [of v 0 ?u boot_env two_clusters 224]) (simp_all add: builtins_def of_char_def)
  moreover have "lit ''nope'' @ lit '': command not found'' = lit ''nope: command not found''" by simp
  ultimately show ?thesis unfolding b by metis
qed

end
