(* ===== verification/Ls_Listing.thy ===== *)
theory Ls_Listing
  imports Shell_Commands
begin

text \<open>
  The listing of \<open>ls\<close>: from the directory on the disk through the kernel's reply and the library's copy to the text
  on the screen.
\<close>

section \<open>The kernel's reply\<close>

lemma open_root_kernel:
  "open_fd (cstr ''/'') 0 0 s = Inr (5, s\<lparr>fd_after := root_fd s (fd_after s)\<rparr>)"
  by (simp add: open_fd_def cstr_def cfd_upd_def kfd_upd_def of_char_def)

lemma list_params_eq:
  assumes t: "tables v (Suc k) m r s" and m: "mounted e es n s" and fs: "fs = take 18 (files_from e s 0 n)"
  shows "\<exists>s'. list_params e s = ret s' \<and> length (params s') = 576 \<and> take 4 (drop 512 (params s')) = bytes32 (of_nat (length fs))
    \<and> (\<forall>i<length fs. sys_entry_at (params s') i = sys_entry_of (fs ! i)) \<and> progress [] (kbd s) s s'"
proof -
  let ?s = "s\<lparr>fd_after := root_fd s (fd_after s)\<rparr>"
  have kinv: "kinv s" using t by (rule tables_kinv)
  then have l: "length (params s) = 576" by (simp add: kinv_def)
  have v: "same_volume s ?s" using kinv by (simp add: same_volume_def kinv_def root_fd_def get_root_offset_def)
  have "fds_ready ?s" "num_ok (uitoa_buf ?s)" using kinv by (simp_all add: kinv_def fds_ready_def root_fd_def)
  then have d: "dir_ok e ?s n" using mounted_same [OF m v] by (simp add: mounted_def)
  have seek: "lseek 5 0 0 0 ?s = Inr (0, ?s)"
    by (simp add: lseek_def cfd_upd_def kfd_upd_def root_fd_def)
  have f: "fs = take 18 (files_from e ?s 0 n)" using fs same_volume_entries(1) [OF v] by (simp add: files_from_def)
  obtain b s' where r: "list_root_files e 512 (params ?s) ?s = ret (length fs, b, s')" "length b = 576"
      "\<forall>i<length fs. sys_entry_at b i = sys_entry_of (fs ! i)" "dir_step [] ?s s'"
    using list_root_files_eq [OF d _ _ _ f, of 512 "params ?s"] l by (auto simp: root_fd_def)
  let ?b = "take 512 b @ bytes32 (of_nat (length fs)) @ drop 516 b"
  have "list_params e s = ret (s'\<lparr>params := ?b\<rparr>)"
    using r(1,2) seek by (simp add: list_params_def open_root_kernel put_params_def store_def)
  moreover have "sys_entry_at ?b i = sys_entry_at b i" if "i < length fs" for i
  proof (rule sys_entry_at_cong)
    have "length fs \<le> 18" using fs by simp
    with that have i: "i < 18" by simp
    then show "28 * i + 28 \<le> length ?b" "length ?b = length b" using r(2) by simp_all
    show "?b ! j = b ! j" if "28 * i \<le> j" "j < 28 * i + 28" for j using that i r(2) by (simp add: nth_append)
  qed
  moreover have "progress [] (kbd s) s (s'\<lparr>params := ?b\<rparr>)" using progress_step [OF r(4)] rows_kept_cong [of ?s s] by (simp add: progress_def)
  ultimately show ?thesis using r(2,3) by (intro exI [of _ "s'\<lparr>params := ?b\<rparr>"]) simp
qed

section \<open>The library's copy\<close>

lemma process_syscall:
  assumes u: "process_ok v k u" and k: "k < 8" and s: "service \<noteq> 7" and run: "user_syscall fc e service u = ret w"
  shows "process_ok v k w \<and> ustack w = ustack u \<and> rows_kept (kern u) (kern w)"
proof -
  have ok: "usr_ok u" and t: "tables v (Suc k) (Suc k) (int k + 1) (kern u)" using u by (simp_all add: process_ok_def)
  let ?s = "(kern u)\<lparr>params := sysparam u\<rparr>"
  have l: "length (sysparam u) = 576" using ok by (simp add: usr_ok_def)
  obtain s' where s': "service_call e service ?s = ret s'" "w = u\<lparr>sysparam := take 576 (params s'), kern := s'\<rparr>"
    using run s l by (auto simp: user_syscall_def dispatch_def obind_ret_iff fetch_def split: if_splits)
  have "tables v (Suc k) (Suc k) (int k + 1) s'" "rows_kept ?s s'"
    using service_keeps [OF t k l s'(1)] rows_kept_kept by blast+
  moreover from this(1) have "length (params s') = 576" by (simp add: tables_def kinv_def)
  ultimately show ?thesis using s'(2) ok by (simp add: process_ok_def usr_ok_def)
qed

lemma myopen_root:
  assumes u: "process_ok v k u" and k: "k < 8" and fresh: "sysparam u ! 1 = 0"
  shows "gives (\<lambda>(fd, w). fd = 5 \<and> process_ok v k w \<and> ustack w = ustack u \<and> progress [] (kbd (kern u)) (kern u) (kern w))
    (myopen fc e (cstr ''/'') u)"
proof -
  have l: "length (sysparam u) = 576" and t: "tables v (Suc k) (Suc k) (int k + 1) (kern u)"
    using u by (simp_all add: process_ok_def usr_ok_def)
  define a p where "a = sysparam u ! 0" and "p = drop 2 (sysparam u)"
  have p: "sysparam u = a # 0 # p"
    using Cons_nth_drop_Suc [of 0 "sysparam u"] Cons_nth_drop_Suc [of 1 "sysparam u"] l fresh
    by (simp add: a_def p_def numeral_2_eq_2)
  let ?u = "u\<lparr>sysparam := 47 # 0 # p\<rparr>"
  let ?s = "(kern u)\<lparr>params := 47 # 0 # p\<rparr>"
  have u': "process_ok v k ?u" using u l p by (simp add: process_ok_def usr_ok_def)
  have run: "running_proc ?s = int k + 1" using t by (simp add: tables_def)
  have "myopen fc e (cstr ''/'') u = obind (user_syscall fc e 10 ?u) (\<lambda>u. ret (sint (le32 (take 4 (drop 516 (sysparam u)))), u))"
    using p memcpy_eq [of 1 "cstr ''/''" "sysparam u"]
    by (simp add: myopen_def copy_sysparam_def cval_cstr of_char_def) (simp add: cstr_def of_char_def)
  moreover obtain ps where ps: "cfd_upd (int k + 1) 5 (root_fd ?s) ?s = Inr (?s\<lparr>processes := ps\<rparr>)"
    using k by (auto simp: cfd_upd_def ftab_upd_def upd_proc_def NUM_FILES_def NUM_PROCESSES_def)
  then have "open_fd (47 # 0 # p) 0 (int k + 1) ?s = Inr (5, ?s\<lparr>processes := ps\<rparr>)"
    by (simp add: open_fd_def cstr_def of_char_def)
  then have "user_syscall fc e 10 ?u = ret (u\<lparr>sysparam := take 516 (47 # 0 # p) @ bytes32 5 @ drop 520 (47 # 0 # p),
      kern := ?s\<lparr>processes := ps, params := take 516 (47 # 0 # p) @ bytes32 5 @ drop 520 (47 # 0 # p)\<rparr>\<rparr>)" (is "_ = ret ?w")
    using run l p by (simp add: user_syscall_def dispatch_def service_call_def get_running_proc_def Let_def put_params_def store_def)
  moreover from process_syscall [OF u' k _ this] have "process_ok v k ?w" "rows_kept (kern u) (kern ?w)" by simp_all
  moreover have "progress [] (kbd (kern u)) (kern u) (kern ?w)" using calculation by (intro progress_same) simp_all
  ultimately show ?thesis using l p by simp
qed

lemma usr_list_loop_eq:
  "28 * (i + n) \<le> length p \<Longrightarrow> 28 * (i + n) \<le> length buf \<Longrightarrow>
   usr_list_loop p i n buf = Inr (take (28 * i) buf @ take (28 * n) (drop (28 * i) p) @ drop (28 * (i + n)) buf)"
proof (induction n arbitrary: i buf)
  case (Suc n)
  let ?buf = "take (28 * i) buf @ take 28 (drop (28 * i) p) @ drop (28 * i + 28) buf"
  have "usr_list_loop p i (Suc n) buf = usr_list_loop p (Suc i) n ?buf"
    using memcpy_at_eq [of 28 "drop (28 * i) p" "28 * i" buf] Suc.prems by simp
  also have "\<dots> = Inr (take (28 * Suc i) ?buf @ take (28 * n) (drop (28 * Suc i) p) @ drop (28 * (Suc i + n)) ?buf)"
    using Suc.prems by (intro Suc.IH) simp_all
  also have "take (28 * Suc i) ?buf = take (28 * i) buf @ take 28 (drop (28 * i) p)"
    using Suc.prems by simp
  also have "drop (28 * (Suc i + n)) ?buf = drop (28 * (i + Suc n)) buf"
    using Suc.prems by (simp add: algebra_simps)
  also have "(take (28 * i) buf @ take 28 (drop (28 * i) p)) @ take (28 * n) (drop (28 * Suc i) p) @ drop (28 * (i + Suc n)) buf
    = take (28 * i) buf @ take (28 * Suc n) (drop (28 * i) p) @ drop (28 * (i + Suc n)) buf"
    using take_add [of 28 "28 * n" "drop (28 * i) p"] by (simp add: add.commute)
  finally show ?case .
qed simp

lemma sys_entry_at_bytes:
  assumes "28 * i + 28 \<le> length a" "28 * i + 28 \<le> length b" "\<And>j. j < 28 * i + 28 \<Longrightarrow> a ! j = b ! j"
  shows "sys_entry_at a i = sys_entry_at b i"
proof -
  have r: "take n (drop (28 * i + j) a) = take n (drop (28 * i + j) b)" if "j + n \<le> 28" for j n
    using assms that by (intro nth_equalityI) auto
  have "a ! (28 * i + j) = b ! (28 * i + j)" if "j < 28" for j
    using assms(3) that by simp
  with r [of 0 9] r [of 9 4] r [of 16 4] r [of 22 2] show ?thesis by (simp add: sys_entry_at_def Let_def)
qed

text \<open>What the library prints when it has opened the directory.\<close>

definition opened_text :: "byte list" where
  "opened_text = lit ''opened / with file descriptor 5'' @ [13, 10]"

lemma usr_list_opens:
  assumes u: "process_ok v k u" and k: "k < 8" and fresh: "sysparam u ! 1 = 0"
  obtains u1 r u2 where "myopen fc e (cstr ''/'') u = ret (5, u1)"
    "printf fc e (lit ''opened / with file descriptor %d'' @ crlf) [VInt 5] u1 = ret (r, u2)"
    "process_ok v k u2" "ustack u2 = ustack u" "progress opened_text (kbd (kern u)) (kern u) (kern u2)"
proof -
  obtain u1 where u1: "myopen fc e (cstr ''/'') u = ret (5, u1)" "process_ok v k u1" "ustack u1 = ustack u"
    "progress [] (kbd (kern u)) (kern u) (kern u1)"
    using myopen_root [OF u k fresh, of fc e] by (auto simp: gives_def)
  let ?fmt = "lit ''opened / with file descriptor %d'' @ crlf"
  have e: "?fmt = (lit ''opened / with file descriptor %d'' @ [13, 10]) @ 0 # []" by (simp add: crlf_def)
  have c: "cval ?fmt = lit ''opened / with file descriptor %d'' @ [13, 10]" "terminated ?fmt"
    unfolding e by (rule cval_append_NUL, simp add: of_char_def, rule terminated_append_NUL)
  have "dec 5 = lit ''5''" by (simp add: dec_digit of_char_def)
  then have "format_text (cval ?fmt) [VInt 5] = Some opened_text" unfolding c(1) by (simp add: opened_text_def decimal_def of_char_def)
  then obtain r u2 where u2: "printf fc e ?fmt [VInt 5] u1 = ret (r, u2)" "printed opened_text u1 u2"
    using printf_prints [OF process_usr [OF u1(2)] c(2), of "[VInt 5]" opened_text fc e] by (auto simp: gives_def)
  have "progress opened_text (kbd (kern u)) (kern u) (kern u2)"
    using progress_trans [OF u1(4) printed_progress [OF u2(2)]] progress_kbd [OF u1(4)] by simp
  with u1(1,3) u2 process_printed [OF u1(2) u2(2)] show thesis by (intro that) simp_all
qed

lemma usr_list_root_files_eq:
  assumes u: "process_ok v k u" and k: "k < 8" and m: "mounted e es n (kern u)" and fresh: "sysparam u ! 1 = 0"
    and buf: "length buf = 512" and fs: "fs = take 18 (files_from e (kern u) 0 n)"
  shows "gives (\<lambda>(c, b, w). c = int (length fs) \<and> length b = 512 \<and> (\<forall>i<length fs. sys_entry_at b i = sys_entry_of (fs ! i))
    \<and> process_ok v k w \<and> ustack w = ustack u \<and> progress opened_text (kbd (kern u)) (kern u) (kern w)) (usr_list_root_files fc e buf u)"
proof -
  obtain u1 r u2 where u1: "myopen fc e (cstr ''/'') u = ret (5, u1)"
    and u2: "printf fc e (lit ''opened / with file descriptor %d'' @ crlf) [VInt 5] u1 = ret (r, u2)"
    and p2: "process_ok v k u2" "ustack u2 = ustack u" "progress opened_text (kbd (kern u)) (kern u) (kern u2)"
    by (rule usr_list_opens [OF u k fresh]) (rule that)
  have m2: "mounted e es n (kern u2)" by (rule mounted_process(1) [OF m u p2(1)])
  let ?s = "(kern u2)\<lparr>params := sysparam u2\<rparr>"
  have l: "length (sysparam u2) = 576" and t2: "tables v (Suc k) (Suc k) (int k + 1) (kern u2)"
    and t: "tables v (Suc k) (Suc k) (int k + 1) (kern u)"
    using p2(1) u by (simp_all add: process_ok_def usr_ok_def)
  note ts = tables_params [OF t2 l]
  have "fs = take 18 (files_from e ?s 0 n)"
    using fs same_volume_entries(1) [OF same_volume_tables [OF t ts]] by (simp add: files_from_def)
  from list_params_eq [OF ts mounted_tables [OF m2 t2 ts] this]
  obtain s' where s': "list_params e ?s = ret s'" "length (params s') = 576" "take 4 (drop 512 (params s')) = bytes32 (of_nat (length fs))"
    "\<forall>i<length fs. sys_entry_at (params s') i = sys_entry_of (fs ! i)" "progress [] (kbd ?s) ?s s'" by auto
  let ?w = "u2\<lparr>sysparam := params s', kern := s'\<rparr>"
  have call: "user_syscall fc e 9 u2 = ret ?w"
    using s'(1,2) l by (simp add: user_syscall_def dispatch_def service_call_def Let_def)
  have w: "process_ok v k ?w" using process_syscall [OF p2(1) k _ call] by simp
  have f: "length fs \<le> 18" using fs by simp
  then have files: "sint (of_nat (length fs) :: u32) = int (length fs)" by (intro sint_u32_of_nat) simp
  let ?b = "take (28 * length fs) (params s') @ drop (28 * length fs) buf"
  have copy: "usr_list_loop (params s') 0 (length fs) buf = Inr ?b"
    using usr_list_loop_eq [of 0 "length fs" "params s'" buf] f s'(2) buf by simp
  have same: "sys_entry_at ?b i = sys_entry_of (fs ! i)" if i: "i < length fs" for i
  proof -
    have "sys_entry_at ?b i = sys_entry_at (params s') i"
      using i f s'(2) buf by (intro sys_entry_at_bytes) (auto simp: nth_append)
    with s'(4) i show ?thesis by simp
  qed
  have b: "length ?b = 512" using f s'(2) buf by simp
  have "usr_list_root_files fc e buf u = ret (int (length fs), ?b, ?w)"
    using u1 u2 call s'(3) files copy by (simp add: usr_list_root_files_def Let_def)
  moreover have "progress [] (kbd (kern u2)) (kern u2) s'" using s'(5) by (simp add: progress_def)
  with progress_trans [OF p2(3) this] progress_kbd [OF p2(3)] have "progress opened_text (kbd (kern u)) (kern u) (kern ?w)" by simp
  ultimately show ?thesis using same w b p2(2) by simp
qed

section \<open>The text\<close>

text \<open>The name of a month, and that \<open>ls\<close> takes the right one.\<close>

definition month_name :: "nat \<Rightarrow> string" where
  "month_name m =
     (if 1 \<le> m \<and> m \<le> 12
      then [''Jan'', ''Feb'', ''Mar'', ''Apr'', ''May'', ''Jun'', ''Jul'', ''Aug'', ''Sep'', ''Oct'', ''Nov'', ''Dec''] ! (m - 1)
      else ''   '')"

lemma month_text_name: "month_text m = month_name (unat m)"
proof (cases "unat m \<in> set [1..<13]")
  case True
  then show ?thesis by (auto simp: upt_conv_Cons month_name_def month_text_def word_unat_eq_iff)
next
  case False
  then have "\<not> (1 \<le> unat m \<and> unat m \<le> 12)" by auto
  then show ?thesis by (auto simp: month_name_def month_text_def)
qed

definition ls_line :: "int \<Rightarrow> SYSCALL_FILE_ENTRY \<Rightarrow> byte list" where
  "ls_line out_format x =
     (if out_format = 1 then se_name x @ lit ''.'' @ se_ext x @ lit ''    ''
      else if out_format = 0 then
        lit (if se_dir x \<noteq> 0 then ''d'' else ''-'') @ concat (replicate 3 (lit (if se_read_only x \<noteq> 0 then ''r-x'' else ''rwx'')))
        @ lit '' root root '' @ dec (unat (se_size x)) @ lit '' '' @ lit (month_name (unat (se_month x))) @ lit '' ''
        @ decimal (sint (se_day x)) @ lit '' '' @ decimal (sint (se_hours x)) @ lit '':'' @ decimal (sint (se_minutes x))
        @ lit '' '' @ se_name x @ lit ''.'' @ se_ext x @ [13, 10]
      else [])"

definition ls_text :: "int \<Rightarrow> SYSCALL_FILE_ENTRY list \<Rightarrow> byte list" where
  "ls_text out_format xs =
     concat (map (ls_line out_format) xs) @ lit ''total '' @ dec (unat (sum_list (map se_size xs))) @ [13, 10]"

lemma dec_no_percent: "37 \<notin> set (dec n)"
  using dec_digits [of 37 n] by auto

lemma decimal_no_percent: "37 \<notin> set (decimal i)"
  using dec_no_percent by (simp add: decimal_def)

lemma printed_itoa: "usr_ok u \<Longrightarrow> length b = 12 \<Longrightarrow> printed t (u\<lparr>ultoa_buf := b\<rparr>) v \<Longrightarrow> printed t u v"
  unfolding printed_def by force

lemma print_ultoa_prints: "usr_ok u \<Longrightarrow> gives (printed (dec (unat i)) u) (print_ultoa fc e i u)"
proof -
  assume u: "usr_ok u"
  obtain b where b: "usr_ultoa i u = Inr (dec (unat i) @ [0], u\<lparr>ultoa_buf := b\<rparr>)" "length b = 12"
    using usr_ultoa_eq [OF u] by blast
  have "usr_ok (u\<lparr>ultoa_buf := b\<rparr>)" using u b(2) by (simp add: usr_ok_def)
  from prints_text [OF this, of "dec (unat i) @ [0]" fc e] show ?thesis
    using b(1) printed_itoa [OF u b(2)] dec_no_percent
    by (auto simp: print_ultoa_def cval_append_NUL dec_no_NUL gives_def)
qed

lemma sint_byte_bounds: "- (10 ^ 5) < sint (c :: byte)" "sint (c :: byte) < 10 ^ 6"
  using sint_greater_eq [of c] sint_less [of c] by simp_all

lemma print_itoa_prints: "usr_ok u \<Longrightarrow> gives (printed (decimal (sint c)) u) (print_itoa fc e c u)"
proof -
  assume u: "usr_ok u"
  obtain b where b: "usr_itoa (sint c) u = Inr (decimal (sint c) @ [0], u\<lparr>itoa_buf := b\<rparr>)" "length b = 7"
    using usr_itoa_eq [OF u sint_byte_bounds] by blast
  have "usr_ok (u\<lparr>itoa_buf := b\<rparr>)" using u b(2) by (simp add: usr_ok_def)
  from prints_text [OF this, of "decimal (sint c) @ [0]" fc e] show ?thesis
    using b(1) printed_buf [OF u b(2)] decimal_no_percent
    by (auto simp: print_itoa_def cval_append_NUL decimal_no_NUL gives_def)
qed

lemma ls_modes_prints:
  "usr_ok u \<Longrightarrow> gives (printed (concat (replicate n (lit (if se_read_only x \<noteq> 0 then ''r-x'' else ''rwx'')))) u) (ls_modes fc e x n u)"
proof (induction n arbitrary: u)
  case 0
  then show ?case by (simp add: printed_refl)
next
  case (Suc n)
  let ?m = "if se_read_only x \<noteq> 0 then ''-'' else ''w''"
  have m: "(if se_read_only x \<noteq> 0 then cstr ''-'' else cstr ''w'') = cstr ?m" by simp
  have "gives (printed (lit ''r'' @ lit ?m @ lit ''x'' @ concat (replicate n (lit (if se_read_only x \<noteq> 0 then ''r-x'' else ''rwx'')))) u)
    (ls_modes fc e x (Suc n) u)"
    unfolding ls_modes.simps m using Suc.prems
    by (intro printed_bind prints_cstr Suc.IH) (auto dest: printed_ok simp: of_char_def)
  then show ?case by (cases "se_read_only x = 0") simp_all
qed

lemma month_text_ok: "0 \<notin> set (lit (month_text m))" "37 \<notin> set (lit (month_text m))"
  by (simp_all add: month_text_def of_char_def)

lemma ls_entry_prints:
  assumes u: "usr_ok u" and x: "terminated (se_name x)" "terminated (se_ext x)" "37 \<notin> set (cval (se_name x))" "37 \<notin> set (cval (se_ext x))"
  shows "gives (printed (ls_line out_format (x\<lparr>se_name := cval (se_name x), se_ext := cval (se_ext x)\<rparr>)) u)
    (if out_format = 1 then ls_wide fc e x u else if out_format = 0 then ls_list fc e x u else ret u)"
proof -
  have d: "(if se_dir x \<noteq> 0 then cstr ''d'' else cstr ''-'') = cstr (if se_dir x \<noteq> 0 then ''d'' else ''-'')" by simp
  have "gives (printed (cval (se_name x) @ lit ''.'' @ cval (se_ext x) @ lit '' '' @ lit ''   '') u) (ls_wide fc e x u)"
    unfolding ls_wide_def using u x
    by (intro printed_bind prints_cstr prints_text) (auto dest: printed_ok simp: of_char_def)
  moreover have "gives (printed (lit (if se_dir x \<noteq> 0 then ''d'' else ''-'')
        @ concat (replicate 3 (lit (if se_read_only x \<noteq> 0 then ''r-x'' else ''rwx'')))
        @ lit '' root root '' @ dec (unat (se_size x)) @ lit '' '' @ lit (month_text (se_month x)) @ lit '' ''
        @ decimal (sint (se_day x)) @ lit '' '' @ decimal (sint (se_hours x)) @ lit '':'' @ decimal (sint (se_minutes x))
        @ lit '' '' @ cval (se_name x) @ lit ''.'' @ cval (se_ext x) @ [13, 10]) u) (ls_list fc e x u)"
    unfolding ls_list_def d using u x
    by (intro printed_bind prints_cstr prints_text prints_crlf ls_modes_prints print_ultoa_prints print_itoa_prints)
      (auto dest: printed_ok simp: of_char_def month_text_ok)
  ultimately show ?thesis
    using printed_refl [OF u] by (simp add: ls_line_def month_text_name [symmetric])
qed

text \<open>A name in the buffer ends inside its record.\<close>

lemma field_in_buffer:
  assumes "cval (take n b) = t" "length t < n" "n \<le> length b"
  shows "terminated b" "cval b = t"
proof -
  have "terminated (take n b)"
  proof (rule ccontr)
    assume "\<not> terminated (take n b)"
    then have "cval (take n b) = take n b" by (simp add: terminated_def cval_no_NUL)
    with assms show False by (metis length_take min.absorb2 order_less_irrefl)
  qed
  then obtain r where "take n b = t @ 0 # r" using cval_split [of "take n b"] assms(1) by metis
  then have "b = t @ 0 # (r @ drop n b)" using append_take_drop_id [of n b] by simp
  moreover have "0 \<notin> set t" using assms(1) cval_nonzero by auto
  ultimately show "terminated b" "cval b = t" using cval_append_NUL [of t] by (metis terminated_append_NUL)+
qed

definition plain_name :: "Fat16Entry \<Rightarrow> bool" where
  "plain_name f \<longleftrightarrow> entry_wf f \<and> 37 \<notin> set (field_text (filename f)) \<and> 37 \<notin> set (field_text (ext f))"

lemma curr_entry_eq:
  assumes "28 * i + 28 \<le> length buf" "sys_entry_at buf i = sys_entry_of f" "plain_name f"
  obtains x where "curr_entry buf i = Inr x" "se_size x = file_size f" "terminated (se_name x)" "terminated (se_ext x)"
    "37 \<notin> set (cval (se_name x))" "37 \<notin> set (cval (se_ext x))"
    "x\<lparr>se_name := cval (se_name x), se_ext := cval (se_ext x)\<rparr> = sys_entry_of f"
proof -
  let ?x = "(sys_entry_at buf i)\<lparr>se_name := drop (28 * i) buf, se_ext := drop (28 * i + 9) buf\<rparr>"
  have "cval (take 9 (drop (28 * i) buf)) = field_text (filename f)" "cval (take 4 (drop (28 * i + 9) buf)) = field_text (ext f)"
    using arg_cong [OF assms(2), of se_name] arg_cong [OF assms(2), of se_ext]
    by (simp_all add: sys_entry_at_def sys_entry_of_def Let_def)
  moreover have "length (field_text (filename f)) < 9" "length (field_text (ext f)) < 4"
    using assms(3) field_text_length [of "filename f"] field_text_length [of "ext f"] by (simp_all add: plain_name_def entry_wf_def)
  ultimately have n: "terminated (drop (28 * i) buf)" "cval (drop (28 * i) buf) = field_text (filename f)"
    and x: "terminated (drop (28 * i + 9) buf)" "cval (drop (28 * i + 9) buf) = field_text (ext f)"
    using field_in_buffer [of 9 "drop (28 * i) buf"] field_in_buffer [of 4 "drop (28 * i + 9) buf"] assms(1) by auto
  show thesis
  proof (rule that [of ?x])
    show "curr_entry buf i = Inr ?x" using assms(1) by (simp add: curr_entry_def)
  qed (use n x assms(2,3) in \<open>simp_all add: plain_name_def sys_entry_of_def\<close>)
qed

lemma ls_loop_prints:
  assumes "usr_ok u" "28 * (i + length fs) \<le> length buf" "\<forall>j<length fs. sys_entry_at buf (i + j) = sys_entry_of (fs ! j)"
    and "\<forall>f\<in>set fs. plain_name f"
  shows "gives (\<lambda>(tot', w). tot' = tot + sum_list (map file_size fs) \<and> printed (concat (map (\<lambda>f. ls_line out_format (sys_entry_of f)) fs)) u w)
    (ls_loop fc e out_format buf i (length fs) tot u)"
  using assms
proof (induction fs arbitrary: i u tot)
  case Nil
  then show ?case by (simp add: printed_refl)
next
  case (Cons f fs)
  then have "28 * i + 28 \<le> length buf" "sys_entry_at buf i = sys_entry_of f" "plain_name f" by auto
  then obtain x where x: "curr_entry buf i = Inr x" "se_size x = file_size f" "terminated (se_name x)" "terminated (se_ext x)"
    "37 \<notin> set (cval (se_name x))" "37 \<notin> set (cval (se_ext x))"
    "x\<lparr>se_name := cval (se_name x), se_ext := cval (se_ext x)\<rparr> = sys_entry_of f" by (rule curr_entry_eq)
  obtain v where v: "(if out_format = 1 then ls_wide fc e x u else if out_format = 0 then ls_list fc e x u else ret u) = ret v"
    "printed (ls_line out_format (sys_entry_of f)) u v"
    using ls_entry_prints [OF Cons.prems(1) x(3-6), of out_format fc e] x(7) by (auto simp: gives_def)
  have "\<forall>j<length fs. sys_entry_at buf (Suc i + j) = sys_entry_of (fs ! j)"
    using Cons.prems(3) by (metis Suc_less_eq add_Suc_shift length_Cons nth_Cons_Suc)
  then have "gives (\<lambda>(tot', w). tot' = tot + file_size f + sum_list (map file_size fs)
      \<and> printed (concat (map (\<lambda>f. ls_line out_format (sys_entry_of f)) fs)) v w)
    (ls_loop fc e out_format buf (Suc i) (length fs) (tot + file_size f) v)"
    using Cons.prems printed_ok [OF v(2)] by (intro Cons.IH) auto
  then show ?case
    using x(1,2) v(1) printed_trans [OF v(2)] by (auto simp: gives_def add.assoc)
qed

section \<open>\<open>ls\<close>\<close>

lemma ls_main_prints:
  assumes u: "process_ok v k u" and k: "k < 8" and m: "mounted e es n (kern u)" and fresh: "sysparam u ! 1 = 0"
    and fs: "fs = take 18 (files_from e (kern u) 0 n)" and plain: "\<forall>f\<in>set fs. plain_name f"
  shows "gives (\<lambda>w. process_ok v k w \<and> progress (opened_text @ ls_text out_format (map sys_entry_of fs)) (kbd (kern u)) (kern u) (kern w))
    (ls_main fc e out_format u)"
proof -
  have "length (take 512 (ustack u)) = 512" using process_usr [OF u] by (simp add: usr_ok_def)
  from usr_list_root_files_eq [OF u k m fresh this fs, of fc] obtain b u1 where
    u1: "usr_list_root_files fc e (take 512 (ustack u)) u = ret (int (length fs), b, u1)" "length b = 512"
      "\<forall>i<length fs. sys_entry_at b i = sys_entry_of (fs ! i)" "process_ok v k u1" "progress opened_text (kbd (kern u)) (kern u) (kern u1)"
    by (auto simp: gives_def)
  let ?l = "concat (map (\<lambda>f. ls_line out_format (sys_entry_of f)) fs)" and ?sum = "sum_list (map file_size fs)"
  have "28 * (0 + length fs) \<le> length b" using fs u1(2) by simp
  then obtain u2 where u2: "ls_loop fc e out_format b 0 (length fs) 0 u1 = ret (?sum, u2)" "printed ?l u1 u2"
    using ls_loop_prints [OF process_usr [OF u1(4)], of 0 fs b 0 out_format fc e] u1(3) plain by (auto simp: gives_def)
  have "gives (printed (lit ''total '' @ dec (unat ?sum) @ [13, 10]) u2)
    (obind (prints fc e (cstr ''total '') u2) (\<lambda>u. obind (print_ultoa fc e ?sum u) (\<lambda>u. prints fc e crlf u)))"
    using printed_ok [OF u2(2)]
    by (intro printed_bind prints_cstr print_ultoa_prints prints_crlf) (auto dest: printed_ok simp: of_char_def)
  then obtain u3 where u3: "obind (prints fc e (cstr ''total '') u2) (\<lambda>u. obind (print_ultoa fc e ?sum u) (\<lambda>u. prints fc e crlf u)) = ret u3"
    "printed (lit ''total '' @ dec (unat ?sum) @ [13, 10]) u2 u3" by (auto simp: gives_def)
  have "(\<Sum>f\<leftarrow>fs. se_size (sys_entry_of f)) = ?sum"
    by (rule arg_cong [of _ _ sum_list], rule map_cong) (simp_all add: sys_entry_of_def)
  then have t: "?l @ lit ''total '' @ dec (unat ?sum) @ [13, 10] = ls_text out_format (map sys_entry_of fs)"
    by (simp add: ls_text_def comp_def)
  note p = printed_trans [OF u2(2) u3(2), unfolded t]
  have "ls_main fc e out_format u = ret u3"
    using u1(1) u2(1) u3(1) by (simp add: ls_main_def)
  moreover have "progress (opened_text @ ls_text out_format (map sys_entry_of fs)) (kbd (kern u)) (kern u) (kern u3)"
    using progress_trans [OF u1(5) printed_progress [OF p]] progress_kbd [OF u1(5)] by simp
  ultimately show ?thesis
    using process_printed [OF u1(4) p] by simp
qed

text \<open>C10: \<open>ls\<close> as the first thing a fresh program does on a mounted volume: what it shows is that it has opened the
  directory, one line for each of the first 18 files of the root directory, in order, with the values the directory's entries
  have at their own place on the disk (no entry lies in the last sector of a track, where the driver reads
  another sector) and the dates and times of the FAT format, and the sum of their sizes; and the kernel's tables
  are those before.  What the lines look like depends on the variable
  \<open>out_format\<close>, which the program never sets.\<close>

theorem ls_lists_directory:
  assumes "process_ok v k u" "k < 8" "mounted e es n (kern u)" "sysparam u ! 1 = 0"
    and "fs = take 18 (files_from e (kern u) 0 n)" "\<forall>f\<in>set fs. plain_name f"
  shows "\<exists>w c. ls_main fc e out_format u = ret w \<and> process_ok v k w
    \<and> console (kern w) = console (kern u) @ c \<and> chars c = opened_text @ ls_text out_format (map sys_entry_of fs)"
  using ls_main_prints [OF assms, of out_format fc] by (auto simp: gives_def progress_def)

theorem ls_lists_directory_witness:
  "\<exists>u w c. ls_main no_program boot_env 0 u = ret w
    \<and> console (kern w) = console (kern u) @ c \<and> chars c = opened_text @ (lit ''-rwxrwxrwx root root 5000     0 0:0 INIT.BIN'' @ [13, 10] @ lit ''total 5000'' @ [13, 10])"
proof -
  obtain v s where s: "tables v 1 1 1 s" "boot_volume s" by (rule boot_one)
  let ?u = "(sample_user [])\<lparr>kern := s\<rparr>"
  have u: "process_ok v 0 ?u"
    using s(1) sample_user_simps(1) [of "[]"] by (simp add: process_ok_def usr_ok_def tables_def kinv_def)
  have "map (dir_entry boot_env s) [0..<224] = [init_entry] @ replicate (224 - length [init_entry]) no_entry"
    by (rule volume_directory [OF s(2) boot_files_ok])
  then have f: "[init_entry] = take 18 (files_from boot_env (kern ?u) 0 224)"
    using init_entry_file no_entry_no_file by (simp add: files_from_def filter_empty_conv del: upt_rec_numeral)
  have plain: "\<forall>f\<in>set [init_entry]. plain_name f"
    using init_entry_wf by (simp add: plain_name_def init_entry_def field_text_def of_char_def)
  have "dec 5000 = lit ''5000''" "decimal 0 = lit ''0''" by (simp_all add: dec_step dec_digit decimal_def of_char_def)
  moreover have "sys_entry_of init_entry = \<lparr>se_name = lit ''INIT'', se_ext = lit ''BIN'', se_dir = 0, se_read_only = 0, se_size = 5000,
      se_day = 0, se_month = 0, se_year = 1980, se_seconds = 0, se_minutes = 0, se_hours = 0\<rparr>"
    by (simp add: sys_entry_of_def init_entry_def field_text_def of_char_def bit_numeral_rec)
  ultimately have t: "ls_text 0 (map sys_entry_of [init_entry]) =
      lit ''-rwxrwxrwx root root 5000     0 0:0 INIT.BIN'' @ [13, 10] @ lit ''total 5000'' @ [13, 10]"
    by (simp add: ls_text_def ls_line_def numeral_3_eq_3 month_name_def of_char_def)
  have "\<exists>w c. ls_main no_program boot_env 0 ?u = ret w \<and> process_ok v 0 w
    \<and> console (kern w) = console (kern ?u) @ c \<and> chars c = opened_text @ ls_text 0 (map sys_entry_of [init_entry])"
    by (rule ls_lists_directory [OF u _ _ _ f plain]) (use boot_mounted [OF s(2)] in \<open>simp_all add: sample_user_def\<close>)
  then show ?thesis unfolding t by blast
qed

end
