(* ===== verification/Reports.thy ===== *)
theory Reports
  imports Shell_Line
begin

text \<open>
  What the kernel prints for \<open>ps\<close> and \<open>date\<close>, and the output of the demo program.
\<close>

section \<open>Reports of the kernel\<close>

text \<open>\<open>reported t s r\<close>: the kernel has printed \<open>t\<close>, and only its number buffer may have changed besides.\<close>

definition reported :: "byte list \<Rightarrow> kstate \<Rightarrow> kstate res \<Rightarrow> bool" where
  "reported t s r \<longleftrightarrow> (\<exists>b. num_ok b \<and> r = Inr (shown t (s\<lparr>uitoa_buf := b\<rparr>)))"

lemma reported_nothing: "num_ok (uitoa_buf s) \<Longrightarrow> reported [] s (Inr s)"
  unfolding reported_def by (intro exI [of _ "uitoa_buf s"]) simp

lemma reported_bind:
  assumes "reported t s m" "\<And>v. num_ok (uitoa_buf v) \<Longrightarrow> processes v = processes s \<Longrightarrow> reported t' v (f v)"
  shows "reported (t @ t') s (rbind m f)"
proof -
  obtain b where b: "num_ok b" "m = Inr (shown t (s\<lparr>uitoa_buf := b\<rparr>))" using assms(1) by (auto simp: reported_def)
  let ?v = "shown t (s\<lparr>uitoa_buf := b\<rparr>)"
  have "reported t' ?v (f ?v)" using b(1) by (intro assms(2)) simp_all
  with b(2) show ?thesis by (auto simp: reported_def shown_def)
qed

lemma reported_str: "num_ok (uitoa_buf s) \<Longrightarrow> 0 \<notin> set (lit t) \<Longrightarrow> length t < 1000 \<Longrightarrow> reported (lit t) s (print_str t s)"
  unfolding reported_def print_str_def by (intro exI [of _ "uitoa_buf s"]) (simp add: printk_cstr)

lemma reported_num: "num_ok (uitoa_buf s) \<Longrightarrow> unat i < 10 ^ 6 \<Longrightarrow> reported (dec (unat i)) s (print_num i s)"
  using print_num_eq [of s i] by (auto simp: reported_def)

lemma reported_buf: "num_ok (uitoa_buf s) \<Longrightarrow> terminated b \<Longrightarrow> length b < 2 ^ 32 \<Longrightarrow> reported (cval b) s (printk b s)"
  unfolding reported_def by (intro exI [of _ "uitoa_buf s"]) (simp add: printk_eq)

lemma reported_crlf: "num_ok (uitoa_buf s) \<Longrightarrow> reported [13, 10] s (printk crlf s)"
  using reported_buf [of s crlf] by (simp add: crlf_def cval_Cons terminated_def)

subsection \<open>\<open>get_process_list\<close>\<close>

definition proc_line :: "proc \<Rightarrow> byte list" where
  "proc_line p =
     lit ''root'' @ lit '' '' @ dec (unat (p_pid p)) @ lit '' '' @ dec (unat (p_ppid p)) @ lit '' '' @ dec (unat (p_cs p)) @ lit '' ''
     @ lit (state_name (p_state p)) @ lit '' '' @ dec (unat (p_size p)) @ lit '' '' @ cval (p_name p) @ [13, 10]"

definition printable :: "proc \<Rightarrow> bool" where
  "printable p \<longleftrightarrow> unat (p_pid p) < 10 ^ 6 \<and> unat (p_ppid p) < 10 ^ 6 \<and> unat (p_cs p) < 10 ^ 6 \<and> unat (p_size p) < 10 ^ 6
     \<and> terminated (p_name p) \<and> length (p_name p) = 32"

lemma state_name_ok: "0 \<notin> set (lit (state_name st))" "length (state_name st) < 1000"
  by (cases st; simp add: state_name_def of_char_def)+

lemma print_proc_reports:
  assumes "num_ok (uitoa_buf s)" "printable p"
  shows "reported (proc_line p) s (print_proc p s)"
  unfolding print_proc_def proc_line_def using assms
  by (intro reported_bind reported_str reported_num reported_buf reported_crlf)
    (simp_all add: printable_def state_name_ok of_char_def)

lemma process_list_loop_reports:
  "\<lbrakk>num_ok (uitoa_buf s); i + n = length (processes s); \<forall>p\<in>set (processes s). p_pid p \<noteq> 0 \<longrightarrow> printable p\<rbrakk> \<Longrightarrow>
   reported (concat (map proc_line (filter (\<lambda>p. p_pid p \<noteq> 0) (drop i (processes s))))) s (process_list_loop i n s)"
proof (induction n arbitrary: i s)
  case 0
  then show ?case by (simp add: reported_nothing)
next
  case (Suc n)
  let ?p = "processes s ! i"
  have i: "i < length (processes s)" using Suc.prems(2) by simp
  then have p: "?p \<in> set (processes s)" by simp
  have "reported ((if p_pid ?p \<noteq> 0 then proc_line ?p else [])
      @ concat (map proc_line (filter (\<lambda>p. p_pid p \<noteq> 0) (drop (Suc i) (processes s))))) s (process_list_loop i (Suc n) s)"
    unfolding process_list_loop.simps
  proof (rule reported_bind)
    show "reported (if p_pid ?p \<noteq> 0 then proc_line ?p else []) s (if p_pid ?p \<noteq> 0 then print_proc ?p s else Inr s)"
      using Suc.prems(1,3) p by (simp add: print_proc_reports reported_nothing)
  next
    fix v :: kstate
    assume v: "num_ok (uitoa_buf v)" "processes v = processes s"
    with Suc.prems Suc.IH [of v "Suc i"]
    show "reported (concat (map proc_line (filter (\<lambda>p. p_pid p \<noteq> 0) (drop (Suc i) (processes s))))) v (process_list_loop (Suc i) n v)"
      by simp
  qed
  then show ?case using drop_tail_cons [OF i] by (cases "p_pid ?p = 0") simp_all
qed

lemma get_process_list_reports:
  assumes "num_ok (uitoa_buf s)" "length (processes s) = NUM_PROCESSES" "\<forall>p\<in>set (processes s). p_pid p \<noteq> 0 \<longrightarrow> printable p"
  shows "reported ((lit ''USER PID PPID CS STAT SIZE NAME'' @ [13, 10])
    @ concat (map proc_line (filter (\<lambda>p. p_pid p \<noteq> 0) (processes s)))) s (get_process_list s)"
  unfolding get_process_list_def
proof (rule reported_bind)
  have e: "lit ''USER PID PPID CS STAT SIZE NAME'' @ crlf = (lit ''USER PID PPID CS STAT SIZE NAME'' @ [13, 10]) @ 0 # []"
    by (simp add: crlf_def)
  have "cval (lit ''USER PID PPID CS STAT SIZE NAME'' @ crlf) = lit ''USER PID PPID CS STAT SIZE NAME'' @ [13, 10]"
    unfolding e by (rule cval_append_NUL) (simp add: of_char_def)
  then show "reported (lit ''USER PID PPID CS STAT SIZE NAME'' @ [13, 10]) s (printk (lit ''USER PID PPID CS STAT SIZE NAME'' @ crlf) s)"
    using reported_buf [OF assms(1), of "lit ''USER PID PPID CS STAT SIZE NAME'' @ crlf"] by (simp add: crlf_def terminated_def)
next
  fix v :: kstate
  assume "num_ok (uitoa_buf v)" "processes v = processes s"
  with process_list_loop_reports [of v 0 NUM_PROCESSES] assms(2,3)
  show "reported (concat (map proc_line (filter (\<lambda>p. p_pid p \<noteq> 0) (processes s)))) v (process_list_loop 0 NUM_PROCESSES v)" by simp
qed

subsection \<open>\<open>time\<close>\<close>

text \<open>A number below 100 in binary coded decimal.\<close>

definition to_bcd :: "nat \<Rightarrow> byte" where
  "to_bcd n = of_nat (16 * (n div 10) + n mod 10)"

lemma nibbles:
  assumes "n < 100"
  shows "unat (drop_bit 4 (ucast (to_bcd n) AND 0xF0 :: u32)) = n div 10" "unat (ucast (to_bcd n) AND 0x0F :: u32) = n mod 10"
proof -
  have u: "unat (to_bcd n) = 16 * (n div 10) + n mod 10"
    using assms unfolding to_bcd_def by (intro unat_byte_of_nat) linarith
  have m: "(ucast (to_bcd n) AND 0x0F :: u32) = take_bit 4 (ucast (to_bcd n))"
  proof -
    have "(0x0F :: u32) = mask 4" by (simp add: mask_eq_exp_minus_1)
    then show ?thesis by (simp only: take_bit_eq_mask)
  qed
  show "unat (ucast (to_bcd n) AND 0x0F :: u32) = n mod 10"
    unfolding m unsigned_take_bit_eq unsigned_ucast_eq u using assms by (simp add: take_bit_eq_mod)
  have d: "drop_bit 4 (ucast (to_bcd n) AND 0xF0 :: u32) = drop_bit 4 (ucast (to_bcd n))"
  proof (rule bit_word_eqI)
    fix k
    have "(15 :: u32) = mask 4" by (simp add: mask_eq_exp_minus_1)
    then have "bit (15 :: u32) k \<longleftrightarrow> k < 4" by (auto simp only: bit_mask_iff) simp_all
    moreover have "k < 4" if "bit (to_bcd n) (4 + k)" using that byte_bit_high [of "4 + k" "to_bcd n"] by (cases "k < 4") simp_all
    ultimately show "bit (drop_bit 4 (ucast (to_bcd n) AND 0xF0 :: u32)) k = bit (drop_bit 4 (ucast (to_bcd n) :: u32)) k"
      by (auto simp: bit_simps)
  qed
  show "unat (drop_bit 4 (ucast (to_bcd n) AND 0xF0 :: u32)) = n div 10"
    unfolding d unat_drop_bit_eq unsigned_ucast_eq u using assms by (simp add: drop_bit_eq_div take_bit_eq_mod)
qed

lemma bcd_to_bcd: "n < 100 \<Longrightarrow> unat (bcd (to_bcd n)) = n"
  using nibbles [of n] by (simp add: bcd_def unat_word_ariths)

lemma year_to_bcd:
  assumes "c < 100" "y < 100"
  shows "unat (drop_bit 4 (ucast (to_bcd c) AND 0xF0) * 1000 + (ucast (to_bcd c) AND 0x0F) * 100
        + drop_bit 4 (ucast (to_bcd y) AND 0xF0) * 10 + (ucast (to_bcd y) AND 0x0F) :: u32) = 100 * c + y"
proof -
  have "c div 10 < 10" "c mod 10 < 10" "y div 10 < 10" "y mod 10 < 10" "c div 10 * 1000 + c mod 10 * 100 = 100 * c"
    using assms div_mult_mod_eq [of c 10] by (simp, simp, simp, simp, linarith)
  then show ?thesis using nibbles [OF assms(1)] nibbles [OF assms(2)] by (simp add: unat_word_ariths)
qed

lemma time_reports:
  assumes n: "num_ok (uitoa_buf s)" and date: "rtc_date e = (to_bcd c, to_bcd y, to_bcd m, to_bcd d)" "c < 100" "y < 100" "m < 100" "d < 100"
    and clock: "rtc_time e = (to_bcd h, to_bcd mi, to_bcd sec)" "h < 100" "mi < 100" "sec < 100"
  shows "reported (dec (100 * c + y) @ lit ''/'' @ dec m @ lit ''/'' @ dec d @ lit '' '' @ dec h @ lit '':'' @ dec mi @ lit '':'' @ dec sec @ [13, 10])
    s (time e s)"
proof -
  let ?yy = "drop_bit 4 (ucast (to_bcd c) AND 0xF0) * 1000 + (ucast (to_bcd c) AND 0x0F) * 100
        + drop_bit 4 (ucast (to_bcd y) AND 0xF0) * 10 + (ucast (to_bcd y) AND 0x0F) :: u32"
  have "read_RTC_date e = (?yy, bcd (to_bcd m), bcd (to_bcd d))" by (simp only: read_RTC_date_def date(1) prod.case)
  with date obtain yy mm dd where d: "read_RTC_date e = (yy, mm, dd)" "unat yy = 100 * c + y" "unat mm = m" "unat dd = d"
    using year_to_bcd [OF date(2,3)] bcd_to_bcd by blast
  obtain hh mn ss where t: "read_RTC_time e = (hh, mn, ss)" "unat hh = h" "unat mn = mi" "unat ss = sec"
    using clock by (simp add: read_RTC_time_def bcd_to_bcd)
  show ?thesis
    unfolding time_def d(1) t(1) prod.case d(2-4) [symmetric] t(2-4) [symmetric] using n date(2-) clock(2-) d(2-4) t(2-4)
    by (intro reported_bind reported_str reported_num reported_crlf) (simp_all add: of_char_def)
qed

section \<open>The demo program\<close>

lemma demo_upper_eq:
  "i + n \<le> length s \<Longrightarrow> demo_upper i n s = Inr (take i s @ map upper_byte (take n (drop i s)) @ drop (i + n) s)"
proof (induction n arbitrary: i s)
  case (Suc n)
  then have i: "i < length s" by simp
  have "demo_upper i (Suc n) s = demo_upper (Suc i) n (s[i := upper_byte (s ! i)])"
    using i by (simp add: toupper_byte)
  also have "\<dots> = Inr (take (Suc i) (s[i := upper_byte (s ! i)]) @ map upper_byte (take n (drop (Suc i) (s[i := upper_byte (s ! i)])))
      @ drop (Suc i + n) (s[i := upper_byte (s ! i)]))"
    using Suc.prems by (intro Suc.IH) simp
  finally show ?case
    using i by (simp add: take_Suc_conv_app_nth drop_update_cancel drop_tail_cons [of i s])
qed simp

lemma printed_ultoa: "usr_ok u \<Longrightarrow> length b = 12 \<Longrightarrow> printed t (u\<lparr>ultoa_buf := b\<rparr>) v \<Longrightarrow> printed t u v"
  unfolding printed_def by force

lemma demo_prints:
  assumes u: "usr_ok u"
  shows "gives (printed (lit ''1048576'' @ [13, 10] @ lit ''hello world!'' @ lit ''HELLO world!'') u) (demo_main fc e u)"
proof -
  obtain b where b: "usr_ultoa 1048576 u = Inr (dec 1048576 @ [0], u\<lparr>ultoa_buf := b\<rparr>)" "length b = 12"
    using usr_ultoa_eq [OF u, of 1048576] by auto
  let ?u = "u\<lparr>ultoa_buf := b\<rparr>"
  have u1: "usr_ok ?u" using u b(2) by (simp add: usr_ok_def)
  have n: "dec 1048576 = lit ''1048576''" by (simp add: dec_step dec_digit of_char_def)
  have c1: "cval (dec 1048576 @ [0]) = lit ''1048576''" unfolding n by (rule cval_append_NUL) (simp add: of_char_def)
  have e: "lit ''%s'' @ crlf = (lit ''%s'' @ [13, 10]) @ 0 # []" by (simp add: crlf_def)
  have c2: "cval (lit ''%s'' @ crlf) = lit ''%s'' @ [13, 10]" "terminated (lit ''%s'' @ crlf)"
    unfolding e by (rule cval_append_NUL, simp add: of_char_def, rule terminated_append_NUL)
  have "format_text (cval (lit ''%s'' @ crlf)) [VStr (dec 1048576 @ [0])] = Some (lit ''1048576'' @ [13, 10])"
    unfolding c2 by (simp add: of_char_def c1)
  from printf_prints [OF u1 c2(2) this, of fc e] obtain r v where
    v: "printf fc e (lit ''%s'' @ crlf) [VStr (dec 1048576 @ [0])] ?u = ret (r, v)" "printed (lit ''1048576'' @ [13, 10]) ?u v"
    by (auto simp: gives_def)
  let ?h = "lit ''hello world!''" and ?H = "lit ''HELLO world!''"
  have copy: "strcpy (take 13 (ustack v)) (cstr ''hello world!'') = Inr (?h @ [0])"
    using strcpy_eq [of "cstr ''hello world!''" "take 13 (ustack v)"] printed_ok [OF v(2)]
    by (simp add: cval_cstr of_char_def usr_ok_def)
  have up: "demo_upper 0 5 (?h @ [0]) = Inr (?H @ [0])"
    using demo_upper_eq [of 0 5 "?h @ [0]"] by (simp add: of_char_def upper_byte_def)
  have p: "gives (printed (lit t) w) (prints fc e (lit t @ [0]) w)" if "usr_ok w" "0 \<notin> set (lit t)" "37 \<notin> set (lit t)" for t w
    using prints_cstr [OF that, of fc e] by (simp add: cstr_def)
  have "gives (printed (?h @ ?H) v) (obind (prints fc e (?h @ [0]) v) (\<lambda>u. prints fc e (?H @ [0]) u))"
    using printed_ok [OF v(2)] by (intro printed_bind p) (auto dest: printed_ok simp: of_char_def)
  moreover have "demo_main fc e u = obind (prints fc e (?h @ [0]) v) (\<lambda>u. prints fc e (?H @ [0]) u)"
    unfolding demo_main_def using b(1) v(1) copy up by (simp add: n)
  ultimately show ?thesis
    using printed_trans [OF printed_ultoa [OF u b(2) v(2)]] by (fastforce simp: gives_def)
qed

section \<open>Properties\<close>

text \<open>C27: system call 8 prints a heading and then one line for each taken slot of the process table, in the order of
  the slots, with its pid, parent, segment, state, size and name; it changes nothing but the number
  buffer.\<close>

theorem get_process_list_correct:
  assumes "num_ok (uitoa_buf s)" "length (processes s) = NUM_PROCESSES" "\<forall>p\<in>set (processes s). p_pid p \<noteq> 0 \<longrightarrow> printable p"
  shows "\<exists>b. num_ok b \<and> get_process_list s = Inr (shown ((lit ''USER PID PPID CS STAT SIZE NAME'' @ [13, 10])
    @ concat (map proc_line (filter (\<lambda>p. p_pid p \<noteq> 0) (processes s)))) (s\<lparr>uitoa_buf := b\<rparr>))"
  using get_process_list_reports [OF assms] by (simp add: reported_def)

definition init_proc :: proc where
  "init_proc = zero_proc\<lparr>p_pid := 1, p_cs := 0x2000, p_state := RUNNING, p_size := 5000, p_name := cstr ''INIT'' @ replicate 27 0\<rparr>"

theorem get_process_list_correct_witness:
  "\<exists>b. get_process_list (zero_state\<lparr>processes := init_proc # replicate 8 zero_proc\<rparr>) =
    Inr (shown (lit ''USER PID PPID CS STAT SIZE NAME'' @ [13, 10] @ lit ''root 1 0 8192 RUNNING 5000 INIT'' @ [13, 10])
      (zero_state\<lparr>processes := init_proc # replicate 8 zero_proc, uitoa_buf := b\<rparr>))"
proof -
  let ?s = "zero_state\<lparr>processes := init_proc # replicate 8 zero_proc\<rparr>"
  have e: "cstr ''INIT'' @ replicate 27 0 = lit ''INIT'' @ 0 # replicate 27 0" by (simp add: cstr_def)
  have c: "cval (cstr ''INIT'' @ replicate 27 0) = lit ''INIT''" "terminated (cstr ''INIT'' @ replicate 27 0)"
    unfolding e by (rule cval_append_NUL, simp add: of_char_def, rule terminated_append_NUL)
  have f: "filter (\<lambda>p. p_pid p \<noteq> 0) (processes ?s) = [init_proc]"
    by (simp add: init_proc_def zero_proc_def)
  have "dec 1 = lit ''1''" "dec 0 = lit ''0''" "dec 8192 = lit ''8192''" "dec 5000 = lit ''5000''"
    by (simp_all add: dec_step dec_digit of_char_def)
  then have l: "proc_line init_proc = lit ''root 1 0 8192 RUNNING 5000 INIT'' @ [13, 10]"
    by (simp add: proc_line_def init_proc_def zero_proc_def c(1) state_name_def of_char_def)
  have "\<exists>b. num_ok b \<and> get_process_list ?s = Inr (shown ((lit ''USER PID PPID CS STAT SIZE NAME'' @ [13, 10])
    @ concat (map proc_line (filter (\<lambda>p. p_pid p \<noteq> 0) (processes ?s)))) (?s\<lparr>uitoa_buf := b\<rparr>))"
  proof (rule get_process_list_correct)
    show "num_ok (uitoa_buf ?s)" by (simp add: num_ok_def zero_state_def)
    show "length (processes ?s) = NUM_PROCESSES" by (simp add: NUM_PROCESSES_def)
    show "\<forall>p\<in>set (processes ?s). p_pid p \<noteq> 0 \<longrightarrow> printable p"
      using c(2) by (simp add: init_proc_def printable_def zero_proc_def) (simp add: cstr_def)
  qed
  then show ?thesis unfolding f by (simp add: l) blast
qed

text \<open>C28: system call 15 prints the date and the time the clock's BCD registers hold, without padding and without
  changing anything but the number buffer.\<close>

theorem time_correct:
  assumes "num_ok (uitoa_buf s)" "rtc_date e = (to_bcd c, to_bcd y, to_bcd m, to_bcd d)" "c < 100" "y < 100" "m < 100" "d < 100"
    and "rtc_time e = (to_bcd h, to_bcd mi, to_bcd sec)" "h < 100" "mi < 100" "sec < 100"
  shows "\<exists>b. num_ok b \<and> time e s = Inr (shown (dec (100 * c + y) @ lit ''/'' @ dec m @ lit ''/'' @ dec d @ lit '' '' @ dec h
    @ lit '':'' @ dec mi @ lit '':'' @ dec sec @ [13, 10]) (s\<lparr>uitoa_buf := b\<rparr>))"
  using time_reports [OF assms] by (simp add: reported_def)

theorem time_correct_witness:
  "\<exists>b. time sample_env zero_state = Inr (shown (lit ''2019/12/31 23:59:8'' @ [13, 10]) (zero_state\<lparr>uitoa_buf := b\<rparr>))"
proof -
  have d: "rtc_date sample_env = (to_bcd 20, to_bcd 19, to_bcd 12, to_bcd 31)" "rtc_time sample_env = (to_bcd 23, to_bcd 59, to_bcd 8)"
    by (simp_all add: sample_env_def to_bcd_def)
  have n: "num_ok (uitoa_buf zero_state)" by (simp add: num_ok_def zero_state_def)
  have "dec (100 * 20 + 19) = lit ''2019''" "dec 12 = lit ''12''" "dec 31 = lit ''31''" "dec 23 = lit ''23''" "dec 59 = lit ''59''" "dec 8 = lit ''8''"
    by (simp_all add: dec_step dec_digit of_char_def)
  with time_correct [OF n d(1) _ _ _ _ d(2)] show ?thesis by (simp add: of_char_def) blast
qed

end
