(* ===== verification/Served_Lines.thy ===== *)
theory Served_Lines
  imports Ls_Listing Reports
begin

text \<open>
  Running a program that is there, from the caller's side, and sessions of the shell in which lines are answered by
  programs: the shell's loop is proved once for any set of lines that are answered (\<open>shell_answers\<close>).
\<close>

section \<open>Running a program that is there\<close>

lemma roster_process:
  assumes "roster rs (kern u)" "progress t ks (kern u) (kern w)" "process_ok v k u" "process_ok v k w"
  shows "roster rs (kern w)"
  using roster_tables [OF assms(1) progress_rows [OF assms(2)]] assms(3,4) unfolding process_ok_def by blast

text \<open>The image of a program lies at the start of the segment of the \<open>k + 1\<close>-st program.\<close>

definition holds_image :: "nat \<Rightarrow> byte list \<Rightarrow> kstate \<Rightarrow> bool" where
  "holds_image k img s \<longleftrightarrow> (\<forall>i<length img. ram s ((k + 2) * 65536 + i) = img ! i)"

lemma store_ram_holds: "ram s = store_ram ((k + 2) * 65536) img m \<Longrightarrow> holds_image k img s"
  by (simp add: holds_image_def store_ram_def)

text \<open>What a program owes its caller, as the \<open>k + 1\<close>-st one: it returns with the tables as they were; \<open>t\<close> and \<open>ks\<close> as
  in \<open>progress\<close>.\<close>

definition comes_back ::
    "farcall \<Rightarrow> byte list \<times> section_positions \<Rightarrow> nat \<Rightarrow> byte list \<Rightarrow> byte list \<Rightarrow> kstate \<Rightarrow> bool" where
  "comes_back fc v k t ks s \<longleftrightarrow>
     gives (\<lambda>s'. tables v (Suc k) (Suc k) (int k + 1) s' \<and> progress t ks s s') (fc (seg_base (k + 2)) s)"

lemma usr_run_found:
  assumes u: "process_ok v k u" and k: "Suc k < 8" and m: "mounted e es n (kern u)"
    and str: "576 \<le> length str" "terminated (take 576 str)"
    and f: "program_entry e n (kern u) (take 576 str) = Some f" "program_ok es (kern u) f cs"
    and callee: "\<And>s. tables v (Suc (Suc k)) (Suc (Suc k)) (int (Suc k) + 1) s \<Longrightarrow> progress (scan_text n) (kbd (kern u)) (kern u) s \<Longrightarrow>
      holds_image (Suc k) (program_image e (kern u) cs) s \<Longrightarrow>
      identity (processes s ! Suc k) = (map upper_byte (cval (take 576 str)), file_size f) \<Longrightarrow> comes_back fc v (Suc k) t ks s"
  shows "gives (\<lambda>(rc, w). rc = 0 \<and> process_ok v k w \<and> ustack w = ustack u \<and> progress (scan_text n @ t) ks (kern u) (kern w))
    (usr_run_program fc e str u)"
proof -
  have ok: "usr_ok u" and t: "tables v (Suc k) (Suc k) (int k + 1) (kern u)" using u by (simp_all add: process_ok_def)
  define b where "b = take 576 str"
  have b: "length b = 576" using str(1) by (simp add: b_def)
  have copy: "memcpy (sysparam u) str 576 = Inr b"
    using memcpy_eq [of 576 str "sysparam u"] ok str(1) by (simp add: usr_ok_def b_def)
  let ?s = "(kern u)\<lparr>params := b\<rparr>"
  have t': "tables v (Suc k) (Suc k) (int k + 1) ?s" by (rule tables_params [OF t b])
  then have ts: "tables v (Suc k) (Suc k) (int (Suc k)) ?s" by (simp add: add.commute)
  note same = same_volume_tables [OF t t']
  have m': "mounted e es n ?s" by (rule mounted_tables [OF m t t'])
  have f': "program_entry e n ?s b = Some f" "program_ok es ?s f cs" "program_image e ?s cs = program_image e (kern u) cs"
    using f same_volume_entries(3) [OF same] program_same [OF same] by (simp_all add: b_def)
  have name: "terminated b" "length (cval b) < 32" using str(2) program_entry_is_file(2) [OF f'(1)] by (simp_all add: b_def)
  have place: "place_ok place_params (length b)" using place_params_ok b by simp
  obtain s1 where s1: "run_enter e b place_params ?s = ret (0, int (Suc k) + 1, seg_base (Suc k + 2), s1)"
      "tables v (Suc (Suc k)) (Suc (Suc k)) (int (Suc k) + 1) s1"
      "ram s1 = store_ram ((Suc k + 2) * 65536) (program_image e ?s cs) (ram ?s)"
      "identity (processes s1 ! Suc k) = (map upper_byte (cval b), file_size f)"
      "\<exists>nm. terminated nm \<and> cval nm = map upper_byte (cval b) \<and> length nm = length b \<and> progress (scan_text n) (kbd ?s) (place_params nm ?s) s1"
    by (rule run_enter_found [OF ts k m' name f'(1,2) place place_keeps_simps(1)]) (rule that)
  have p1: "progress (scan_text n) (kbd (kern u)) (kern u) s1" using s1(5) by (auto simp: progress_def place_params_def)
  have "comes_back fc v (Suc k) t ks s1"
    using callee [OF s1(2) p1] store_ram_holds [OF s1(3)] s1(4) f'(3) by (simp add: b_def)
  then obtain s2 where s2: "fc (seg_base (Suc k + 2)) s1 = ret s2" "tables v (Suc (Suc k)) (Suc (Suc k)) (int (Suc k) + 1) s2"
      "progress t ks s1 s2" by (auto simp: comes_back_def gives_def)
  have "run_enter e (params ?s) place_params ?s = ret (0, int (Suc k) + 1, seg_base (Suc k + 2), s1)" using s1(1) by simp
  from dispatch_run_leaks_params_eq [where farcall = fc, OF t' k this s2(1,2)] k
  obtain s' where s': "dispatch fc e 7 ?s = ret s'" "tables v (Suc k) (Suc k) (int k + 1) s'"
      "params s' = bytes32 0 @ drop 4 (params s2)" "kbd s' = kbd s2" "init_name s' = init_name s2" "console s' = console s2"
      "\<forall>j. identity (processes s' ! j) = identity (processes s2 ! j)" by auto
  have l: "length (params s') = 576" using s'(2) by (rule tables_params_length)
  have run: "usr_run_program fc e str u = ret (0, u\<lparr>sysparam := params s', kern := s'\<rparr>)"
    using s'(1) l b copy by (simp add: usr_run_program_def copy_sysparam_def user_syscall_def) (simp add: s'(3) bytes32_def)
  have p2: "progress (scan_text n @ t) ks (kern u) s2" by (rule progress_trans [OF p1 s2(3)])
  have "rows_kept (kern u) s'"
    using s'(7) progress_rows [OF p2] t by (intro rows_kept_tables [OF t s'(2)]) (auto simp: rows_kept_def tables_def)
  then have "progress (scan_text n @ t) ks (kern u) s'" by (rule progress_to [OF p2 s'(4-6)])
  with run ok l s'(2) show ?thesis by (simp add: process_ok_def usr_ok_def)
qed

section \<open>Lines that run a program\<close>

text \<open>The shell passes the address of its buffer of 50 bytes; what follows the line on the stack is copied too.\<close>

lemma line_string:
  assumes u: "process_ok v k u" and buf: "length buf = 50" "terminated buf"
  shows "576 \<le> length (buf @ drop 50 (ustack u))" "terminated (take 576 (buf @ drop 50 (ustack u)))"
    "cval (take 576 (buf @ drop 50 (ustack u))) = cval buf"
proof -
  have e: "take 576 (buf @ drop 50 (ustack u)) = buf @ take 526 (drop 50 (ustack u))" using buf(1) by simp
  obtain r where r: "buf = cval buf @ 0 # r" using cval_split [OF buf(2)] by blast
  show "terminated (take 576 (buf @ drop 50 (ustack u)))" unfolding e using buf(2) by (simp add: terminated_def)
  show "cval (take 576 (buf @ drop 50 (ustack u))) = cval buf"
    unfolding e using cval_append_NUL [of "cval buf"] cval_nonzero r by (metis append.assoc append_Cons)
  show "576 \<le> length (buf @ drop 50 (ustack u))" using buf(1) u by (simp add: process_ok_def usr_ok_def)
qed

lemma shell_command_system:
  assumes "terminated buf" "\<forall>t\<in>builtins. cval buf \<noteq> lit t" "usr_run_program fc e (buf @ drop 50 (ustack u)) u = ret (0, w)"
  shows "shell_command fc e buf u = ret (False, buf, w)"
proof -
  have "\<forall>t\<in>builtins. cval buf \<noteq> lit t \<and> 0 \<notin> set (lit t)"
    using assms(2) by (simp add: builtins_def of_char_def)
  then show ?thesis
    using assms(3) by (simp add: shell_command_def Let_def builtins_def is_cmd [OF assms(1)] usr_system_def)
qed

text \<open>What a line is answered with: the shell goes on with a buffer, the answer \<open>a\<close> is on the screen and the keys \<open>ks\<close> are
  still to come.\<close>

definition line_served ::
    "byte list \<times> section_positions \<Rightarrow> nat \<Rightarrow> byte list \<Rightarrow> byte list \<Rightarrow> ustate \<Rightarrow> (bool \<times> byte list \<times> ustate) run \<Rightarrow> bool" where
  "line_served v k a ks u m \<longleftrightarrow>
     gives (\<lambda>(stop, b, w). \<not> stop \<and> length b = 50 \<and> process_ok v k w \<and> progress a ks (kern u) (kern w)) m"

lemma line_served_run:
  assumes u: "process_ok v k u" and buf: "length buf = 50" "terminated buf" "\<forall>t\<in>builtins. cval buf \<noteq> lit t"
    and run: "\<And>str. \<lbrakk>576 \<le> length str; terminated (take 576 str); cval (take 576 str) = cval buf\<rbrakk> \<Longrightarrow>
      gives (\<lambda>(rc, w). rc = 0 \<and> process_ok v k w \<and> ustack w = ustack u \<and> progress a ks (kern u) (kern w)) (usr_run_program fc e str u)"
  shows "line_served v k a ks u (shell_command fc e buf u)"
proof -
  obtain w where w: "usr_run_program fc e (buf @ drop 50 (ustack u)) u = ret (0, w)" "process_ok v k w" "progress a ks (kern u) (kern w)"
    using run [OF line_string [OF u buf(1,2)]] by (auto simp: gives_def)
  from shell_command_system [OF buf(2,3) w(1)] w(2,3) buf(1) show ?thesis by (simp add: line_served_def)
qed

lemma line_served_missing:
  assumes "process_ok v k u" "Suc k < 8" "mounted e es n (kern u)" "length buf = 50" "terminated buf" "37 \<notin> set (cval buf)"
    and "\<forall>t\<in>builtins. cval buf \<noteq> lit t" "program_entry e n (kern u) buf = None"
  shows "line_served v k (scan_text n @ cval buf @ lit '': command not found'') (kbd (kern u)) u (shell_command fc e buf u)"
  using shell_command_missing [OF assms, of fc] assms(4) by (auto simp: line_served_def gives_def)

lemma line_served_builtin:
  assumes "process_ok v k u" "length buf = 50" "terminated buf" "builtin_text (cval buf) = Some a"
  shows "line_served v k a (kbd (kern u)) u (shell_command fc e buf u)"
  using shell_command_builtin [OF process_usr [OF assms(1)] assms(3,4), of fc e] assms(2)
    process_printed [OF assms(1)] printed_progress
  by (auto simp: line_served_def gives_def)

section \<open>Sessions\<close>

text \<open>
  What is typed: a line, the characters that the command \<open>ccc\<close> asks for, and the lines for a shell that the line
  starts.
\<close>

datatype line = Line "byte list" "byte list" "line list"

primrec typed_line :: "line \<Rightarrow> byte list" where
  "typed_line (Line ks xs ls) = ks @ [13] @ xs @ concat (map typed_line ls)"

definition typed :: "line list \<Rightarrow> byte list" where
  "typed ls = concat (map typed_line ls)"

lemma typed_simps [simp]: "typed [] = []" "typed (Line ks xs ls # lines) = ks @ 13 # xs @ typed ls @ typed lines"
  by (simp_all add: typed_def)

text \<open>
  What is shown in a session that ends with \<open>exit\<close>, for a given answer to each line and what is typed with it: the
  prompt, the echo and the answer, line by line.  A line that is not answered is no session.
\<close>

type_synonym answer = "byte list \<Rightarrow> byte list \<Rightarrow> line list \<Rightarrow> byte list option"

fun dialog :: "answer \<Rightarrow> line list \<Rightarrow> byte list option" where
  "dialog answer [] = None"
| "dialog answer (Line ks xs ls # lines) =
     (if 13 \<in> set ks then None
      else case edit_keys [] ks of
        Some (l, t) \<Rightarrow>
          if 50 \<le> length l \<or> 0 \<in> set l then None
          else if l = lit ''exit'' then (if xs = [] \<and> ls = [] \<and> lines = [] then Some (prompt_text t) else None)
          else (case answer l xs ls of
              Some a \<Rightarrow> map_option (\<lambda>t'. prompt_text t @ a @ t') (dialog answer lines)
            | None \<Rightarrow> None)
      | None \<Rightarrow> None)"

locale shell_answers =
  fixes fc :: farcall and e :: env and v :: "byte list \<times> section_positions" and k :: nat and es :: "12 word list" and n :: nat
    and rs :: "(byte list \<times> u32) list" and answer :: answer
  assumes answered: "process_ok v k u \<Longrightarrow> mounted e es n (kern u) \<Longrightarrow> roster rs (kern u) \<Longrightarrow> length buf = 50 \<Longrightarrow> terminated buf \<Longrightarrow>
    answer (cval buf) xs ls = Some a \<Longrightarrow> kbd (kern u) = xs @ typed ls @ rest \<Longrightarrow>
    line_served v k a rest u (shell_command fc e buf u)"
begin

lemma dialog_served:
  "\<lbrakk>process_ok v k u; mounted e es n (kern u); roster rs (kern u); dialog answer lines = Some t;
    kbd (kern u) = typed lines @ rest; length buf = 50\<rbrakk> \<Longrightarrow>
   gives (\<lambda>w. process_ok v k w \<and> progress t rest (kern u) (kern w)) (shell_loop fc e buf u)"
proof (induction lines arbitrary: u t buf)
  case (Cons line lines)
  obtain ks xs ls where line: "line = Line ks xs ls" by (cases line)
  obtain l o1 where l: "edit_keys [] ks = Some (l, o1)" "length l < 50" "0 \<notin> set l" "13 \<notin> set ks"
    using Cons.prems(4) by (auto simp: line split: option.splits if_splits)
  let ?more = "xs @ typed ls @ typed lines @ rest"
  obtain b w where w: "shell_line fc e buf u = ret (b, w)" "length b = 50" "take (Suc (length l)) b = l @ [0]"
      "talked (prompt_text o1) ?more u w"
    using shell_line_eq [of u ks ?more buf fc e] Cons.prems l process_usr process_keyboard
    by (auto simp: gives_def prompt_text_def line)
  have "b = l @ 0 # drop (Suc (length l)) b" using w(3) append_take_drop_id [of "Suc (length l)" b] by simp
  then have b: "terminated b" "cval b = l" using cval_append_NUL [OF l(3)] by (metis terminated_append_NUL)+
  have p: "process_ok v k w" by (rule process_talked [OF Cons.prems(1) w(4)])
  have m: "mounted e es n (kern w)" by (rule mounted_process(1) [OF Cons.prems(2,1) p])
  note pw = talked_progress [OF w(4)]
  have r: "roster rs (kern w)" by (rule roster_process [OF Cons.prems(3) pw Cons.prems(1) p])
  show ?case
  proof (cases "l = lit ''exit''")
    case True
    then have "xs = []" "ls = []" "lines = []" "t = prompt_text o1" using Cons.prems(4) l by (auto simp: line split: if_splits)
    with w(1) p pw shell_command_exit [OF b(1), of fc e w] b(2) True show ?thesis
      by (subst shell_loop.simps) simp
  next
    case False
    then obtain a t' where a: "answer l xs ls = Some a" "dialog answer lines = Some t'" "t = prompt_text o1 @ a @ t'"
      using Cons.prems(4) l by (auto simp: line split: option.splits if_splits)
    obtain b' x where x: "shell_command fc e b w = ret (False, b', x)" "length b' = 50" "process_ok v k x"
        "progress a (typed lines @ rest) (kern w) (kern x)"
      using answered [OF p m r w(2) b(1), of xs ls a "typed lines @ rest"] a(1) b(2) talked_kbd [OF w(4)]
      by (auto simp: line_served_def gives_def)
    have "mounted e es n (kern x)" "roster rs (kern x)"
      by (rule mounted_process(1) [OF m p x(3)], rule roster_process [OF r x(4) p x(3)])
    then have "gives (\<lambda>y. process_ok v k y \<and> progress t' rest (kern x) (kern y)) (shell_loop fc e b' x)"
      using x(2,3) a(2) progress_kbd [OF x(4)] by (intro Cons.IH) simp_all
    moreover have "progress (prompt_text o1 @ a) (typed lines @ rest) (kern u) (kern x)" by (rule progress_trans [OF pw x(4)])
    ultimately have "gives (\<lambda>y. process_ok v k y \<and> progress t rest (kern u) (kern y)) (shell_loop fc e b' x)"
      using progress_trans [of "prompt_text o1 @ a"] by (auto simp: a(3) elim!: gives_mono)
    with w(1) x(1) show ?thesis by (subst shell_loop.simps) simp
  qed
qed simp

lemma shell_main_dialog:
  assumes "process_ok v k u" "mounted e es n (kern u)" "roster rs (kern u)" "dialog answer lines = Some t"
    and "kbd (kern u) = typed lines @ rest"
  shows "gives (\<lambda>w. process_ok v k w \<and> progress t rest (kern u) (kern w)) (shell_main fc e u)"
proof -
  have "length (take 50 (ustack u)) = 50" using assms(1) by (simp add: process_ok_def usr_ok_def)
  from dialog_served [OF assms this] show ?thesis by (auto simp: shell_main_def shell_def gives_def)
qed

end

section \<open>Lines that make a system call\<close>

lemma line_served_syscall:
  assumes u: "process_ok v k u" and call: "dispatch fc e i ((kern u)\<lparr>params := sysparam u\<rparr>) = ret s"
    and s: "tables v (Suc k) (Suc k) (int k + 1) s" "progress a (kbd (kern u)) (kern u) s"
  shows "gives (\<lambda>w. process_ok v k w \<and> progress a (kbd (kern u)) (kern u) (kern w)) (user_syscall fc e i u)"
proof -
  have "length (sysparam u) = 576" using process_usr [OF u] by (simp add: usr_ok_def)
  moreover have "length (params s) = 576" using s(1) by (rule tables_params_length)
  ultimately show ?thesis
    using call s process_usr [OF u] by (simp add: user_syscall_def process_ok_def usr_ok_def)
qed

lemma tables_shown:
  assumes "tables v n m r s" "num_ok b"
  shows "tables v n m r (shown t (s\<lparr>uitoa_buf := b\<rparr>))"
  using assms by (auto simp: tables_def kinv_def fds_ready_def procs_wf_def procs_busy_def files_wf_def)

lemma tables_emit: "tables v n m r s \<Longrightarrow> tables v n m r (emit x s)"
  by (auto simp: tables_def kinv_def fds_ready_def procs_wf_def procs_busy_def files_wf_def emit_def)

subsection \<open>The clock\<close>

text \<open>What \<open>date\<close> prints when the registers of the clock hold binary coded decimals.\<close>

definition is_bcd :: "byte \<Rightarrow> bool" where
  "is_bcd b \<longleftrightarrow> unat b div 16 < 10 \<and> unat b mod 16 < 10"

definition from_bcd :: "byte \<Rightarrow> nat" where
  "from_bcd b = 10 * (unat b div 16) + unat b mod 16"

lemma from_bcd: "is_bcd b \<Longrightarrow> from_bcd b < 100 \<and> to_bcd (from_bcd b) = b"
  by (simp add: is_bcd_def from_bcd_def to_bcd_def)

definition clock_text :: "env \<Rightarrow> byte list option" where
  "clock_text e = (case (rtc_date e, rtc_time e) of ((c, y, m, d), (h, mi, sec)) \<Rightarrow>
     if list_all is_bcd [c, y, m, d, h, mi, sec]
     then Some (dec (100 * from_bcd c + from_bcd y) @ lit ''/'' @ dec (from_bcd m) @ lit ''/'' @ dec (from_bcd d) @ lit '' ''
       @ dec (from_bcd h) @ lit '':'' @ dec (from_bcd mi) @ lit '':'' @ dec (from_bcd sec) @ [13, 10])
     else None)"

lemma time_clock:
  assumes "num_ok (uitoa_buf s)" "clock_text e = Some a"
  shows "reported a s (time e s)"
proof -
  obtain c y m d h mi sec where r: "rtc_date e = (c, y, m, d)" "rtc_time e = (h, mi, sec)" by (metis prod_cases3 prod_cases4)
  then have b: "is_bcd c" "is_bcd y" "is_bcd m" "is_bcd d" "is_bcd h" "is_bcd mi" "is_bcd sec"
    and a: "a = dec (100 * from_bcd c + from_bcd y) @ lit ''/'' @ dec (from_bcd m) @ lit ''/'' @ dec (from_bcd d) @ lit '' ''
       @ dec (from_bcd h) @ lit '':'' @ dec (from_bcd mi) @ lit '':'' @ dec (from_bcd sec) @ [13, 10]"
    using assms(2) by (auto simp: clock_text_def split: if_splits)
  show ?thesis unfolding a using assms(1) r b [THEN from_bcd] by (intro time_reports) simp_all
qed

subsection \<open>Ten characters\<close>

lemma read_chars_talks:
  "\<lbrakk>usr_ok u; keyboard_ready u; kbd (kern u) = xs @ rest; j + length xs \<le> length buf\<rbrakk> \<Longrightarrow>
   gives (\<lambda>(b, w). b = take j buf @ xs @ drop (j + length xs) buf \<and> talked xs rest u w) (read_chars fc e j (length xs) buf u)"
proof (induction xs arbitrary: j buf u)
  case Nil
  then show ?case using talked_refl [of u] by simp
next
  case (Cons x xs)
  obtain w where w: "getchar fc e u = ret (x, w)" "talked [] (xs @ rest) u w"
    using Cons.prems by (auto elim: getchar_ret)
  obtain z where z: "putchar fc e x w = ret z" "printed [x] w z" using putchar_ret [OF talked_ok [OF w(2)]] .
  have t: "talked [x] (xs @ rest) u z" using talked_printed [OF w(2) z(2)] by simp
  have j: "j < length buf" using Cons.prems(4) by simp
  have "gives (\<lambda>(b, w). b = take (Suc j) (buf[j := x]) @ xs @ drop (Suc j + length xs) (buf[j := x]) \<and> talked xs rest z w)
      (read_chars fc e (Suc j) (length xs) (buf[j := x]) z)"
    using Cons.prems(2,4) talked_ok [OF t] talked_ready [OF t] talked_kbd [OF t] by (intro Cons.IH) simp_all
  then show ?case
    using w(1) z(1) j talked_trans [OF t] by (auto simp: take_Suc_conv_app_nth elim!: gives_mono)
qed

lemma line_served_ccc:
  assumes u: "process_ok v k u" and buf: "length buf = 50" "terminated buf" "cval buf = lit ''ccc''"
    and xs: "length xs = 10" "0 \<notin> set xs" "37 \<notin> set xs" "kbd (kern u) = xs @ rest"
  shows "line_served v k (xs @ [13, 10] @ xs) rest u (shell_command fc e buf u)"
proof -
  let ?b = "xs @ 0 # drop 11 buf"
  obtain w where w: "read_chars fc e 0 10 buf u = ret (xs @ drop 10 buf, w)" "talked xs rest u w"
    using read_chars_talks [of u xs rest 0 buf fc e] process_usr [OF u] process_keyboard [OF u] buf(1) xs(1,4)
    by (auto simp: gives_def)
  have st: "store_byte (xs @ drop 10 buf) 10 0 = Inr ?b"
    using buf(1) xs(1) Cons_nth_drop_Suc [of 10 buf] by (simp add: list_update_append flip: Cons_nth_drop_Suc)
  obtain y where y: "prints fc e crlf w = ret y" "printed [13, 10] w y"
    using prints_crlf [OF talked_ok [OF w(2)], of fc e] by (auto simp: gives_def)
  have c: "cval ?b = xs" "terminated ?b" by (rule cval_append_NUL [OF xs(2)], rule terminated_append_NUL)
  obtain z where z: "prints fc e ?b y = ret z" "printed xs y z"
    using prints_text [OF printed_ok [OF y(2)] c(2), of fc e] c(1) xs(3) by (auto simp: gives_def)
  have t: "talked (xs @ [13, 10] @ xs) rest u z"
    using talked_printed [OF w(2) printed_trans [OF y(2) z(2)]] by simp
  have "shell_command fc e buf u = ret (False, ?b, z)"
    using buf(3) w(1) st y(1) z(1) by (simp add: shell_command_def Let_def is_cmd [OF buf(2)] of_char_def del: store_byte_in)
  with process_talked [OF u t] talked_progress [OF t] buf(1) xs(1) show ?thesis by (simp add: line_served_def)
qed

subsection \<open>The shell's own commands\<close>

text \<open>\<open>halt\<close> waits for an interrupt and prints nothing; \<open>ccc\<close> shows its ten characters as they are typed, and again.\<close>

definition own_text :: "env \<Rightarrow> answer" where
  "own_text e l xs ls =
     (if ls \<noteq> [] then None
      else if l = lit ''ccc'' then (if length xs = 10 \<and> 0 \<notin> set xs \<and> 37 \<notin> set xs then Some (xs @ [13, 10] @ xs) else None)
      else if xs \<noteq> [] then None
      else if l = lit ''syscall'' then Some (lit ''system call!'' @ [13, 10])
      else if l = lit ''halt'' then Some []
      else if l = lit ''date'' then clock_text e
      else builtin_text l)"

lemma own_text_cases:
  assumes "own_text e l xs ls = Some a"
  shows "ls = [] \<and> (l = lit ''ccc'' \<and> length xs = 10 \<and> 0 \<notin> set xs \<and> 37 \<notin> set xs \<and> a = xs @ [13, 10] @ xs
    \<or> xs = [] \<and> (l = lit ''syscall'' \<and> a = lit ''system call!'' @ [13, 10] \<or> l = lit ''halt'' \<and> a = []
      \<or> l = lit ''date'' \<and> clock_text e = Some a \<or> builtin_text l = Some a))"
proof (cases "ls = []")
  case True
  with assms show ?thesis
    unfolding own_text_def
    by (cases "l = lit ''ccc''"; cases "xs = []"; cases "length xs = 10 \<and> 0 \<notin> set xs \<and> 37 \<notin> set xs"; cases "l = lit ''syscall''";
        cases "l = lit ''halt''"; cases "l = lit ''date''")
      (simp_all only: if_True if_False option.inject simp_thms option.simps)
qed (use assms in \<open>simp add: own_text_def\<close>)

lemma line_served_service:
  assumes u: "process_ok v k u" and buf: "length buf = 50"
    and cmd: "shell_command fc e buf u = obind (user_syscall fc e i u) (\<lambda>w. ret (False, buf, w))"
    and call: "dispatch fc e i ((kern u)\<lparr>params := sysparam u\<rparr>) = ret s"
    and s: "tables v (Suc k) (Suc k) (int k + 1) s" "progress a (kbd (kern u)) (kern u) s"
  shows "line_served v k a (kbd (kern u)) u (shell_command fc e buf u)"
  using line_served_syscall [OF u call s] buf cmd by (auto simp: line_served_def gives_def)

lemma line_served_own:
  assumes u: "process_ok v k u" and buf: "length buf = 50" "terminated buf" and a: "own_text e (cval buf) xs ls = Some a"
    and keys: "kbd (kern u) = xs @ typed ls @ rest"
  shows "line_served v k a rest u (shell_command fc e buf u)"
proof -
  let ?s = "(kern u)\<lparr>params := sysparam u\<rparr>"
  have t: "tables v (Suc k) (Suc k) (int k + 1) ?s"
    using u process_usr [OF u] by (intro tables_params) (simp_all add: process_ok_def usr_ok_def)
  then have n: "num_ok (uitoa_buf ?s)" by (simp add: tables_def kinv_def)
  note served = line_served_service [OF u buf(1)]
  consider (ccc) "cval buf = lit ''ccc''" "length xs = 10" "0 \<notin> set xs" "37 \<notin> set xs" "a = xs @ [13, 10] @ xs" "ls = []"
    | (sys) "cval buf = lit ''syscall''" "a = lit ''system call!'' @ [13, 10]" "xs = []" "ls = []"
    | (halt) "cval buf = lit ''halt''" "a = []" "xs = []" "ls = []"
    | (date) "cval buf = lit ''date''" "clock_text e = Some a" "xs = []" "ls = []"
    | (own) "builtin_text (cval buf) = Some a" "xs = []" "ls = []"
    using own_text_cases [OF a] by blast
  then show ?thesis
  proof cases
    case ccc
    with line_served_ccc [OF u buf ccc(1-4)] keys show ?thesis by simp
  next
    case sys
    have call: "dispatch fc e 0 ?s = ret (shown a ?s)"
      by (simp add: dispatch_def service_call_def no_value_def write_fd_eq Let_def sys(2) crlf_def of_char_def)
    have cmd: "shell_command fc e buf u = obind (user_syscall fc e 0 u) (\<lambda>w. ret (False, buf, w))"
      using sys(1) by (simp add: shell_command_def Let_def is_cmd [OF buf(2)] of_char_def call_int_def)
    have "tables v (Suc k) (Suc k) (int k + 1) (shown a ?s)" using tables_shown [OF t n, of a] by simp
    from served [OF cmd call this] keys sys(3,4) show ?thesis by (simp add: progress_def)
  next
    case halt
    have call: "dispatch fc e 1 ?s = ret (emit EvHalt ?s)" by (simp add: dispatch_def service_call_def halt_def Let_def)
    have cmd: "shell_command fc e buf u = obind (user_syscall fc e 1 u) (\<lambda>w. ret (False, buf, w))"
      using halt(1) by (simp add: shell_command_def Let_def is_cmd [OF buf(2)] of_char_def usr_halt_def)
    from served [OF cmd call tables_emit [OF t], of a] keys halt(2-4) show ?thesis by (simp add: progress_def emit_def)
  next
    case date
    obtain b where b: "num_ok b" "time e ?s = Inr (shown a (?s\<lparr>uitoa_buf := b\<rparr>))"
      using time_clock [OF n date(2)] by (auto simp: reported_def)
    have call: "dispatch fc e 15 ?s = ret (shown a (?s\<lparr>uitoa_buf := b\<rparr>))"
      using b(2) by (simp add: dispatch_def service_call_def Let_def)
    have cmd: "shell_command fc e buf u = obind (user_syscall fc e 15 u) (\<lambda>w. ret (False, buf, w))"
      using date(1) by (simp add: shell_command_def Let_def is_cmd [OF buf(2)] of_char_def usr_time_def)
    from served [OF cmd call tables_shown [OF t b(1)], of a] keys date(3,4) show ?thesis by (simp add: progress_def)
  next
    case own
    with line_served_builtin [OF u buf own(1), of fc e] keys show ?thesis by simp
  qed
qed

text \<open>On any machine.\<close>

interpretation own_commands: shell_answers fc e v k es n rs "own_text e" for fc e v k es n rs
  by unfold_locales (rule line_served_own)

end
