(* ===== verification/Live_Runs.thy ===== *)
theory Live_Runs
  imports Served_Lines
begin

text \<open>
  The programs of a volume at work: what each of them shows when it is run by name, with the programs that it runs in turn,
  and that \<open>world\<close>, the repository's programs running one another, shows that.
\<close>

section \<open>What is installed\<close>

text \<open>
  \<open>which\<close> says which program a file of the directory holds, if it is one of these programs; a segment that holds the
  file's image runs that program.
\<close>

definition identified ::
    "(u32 \<Rightarrow> kstate \<Rightarrow> program) \<Rightarrow> (Fat16Entry \<Rightarrow> program option) \<Rightarrow> env \<Rightarrow> 12 word list \<Rightarrow> nat \<Rightarrow> kstate \<Rightarrow> bool" where
  "identified prog_at which e es n s \<longleftrightarrow> (\<forall>f\<in>set (volume_entries e n s). \<forall>p. which f = Some p \<longrightarrow>
     (\<exists>cs. program_ok es s f cs
       \<and> (\<forall>k s'. k < 8 \<longrightarrow> holds_image k (program_image e s cs) s' \<longrightarrow> prog_at (seg_base (k + 2)) s' = p)))"

lemma identifiedE:
  assumes "identified prog_at which e es n s" "program_entry e n s name = Some f" "which f = Some p"
  obtains cs where "program_ok es s f cs"
    "\<And>k s'. k < 8 \<Longrightarrow> holds_image k (program_image e s cs) s' \<Longrightarrow> prog_at (seg_base (k + 2)) s' = p"
  using assms program_entry_is_file(1) [OF assms(2)] unfolding identified_def by blast

lemma identified_same:
  assumes "identified prog_at which e es n s" "same_volume s s'"
  shows "identified prog_at which e es n s'"
  using assms same_volume_entries(2) [OF assms(2)] program_same [OF assms(2)] by (simp add: identified_def)

text \<open>The memory of a program that has just been entered: buffers of their sizes, and \<open>sysparam\<close> not yet used.\<close>

definition fresh_ok :: "(u32 \<Rightarrow> kstate \<Rightarrow> ustate) \<Rightarrow> bool" where
  "fresh_ok fresh \<longleftrightarrow> (\<forall>segment s. sysparam (fresh segment s) ! 1 = 0
     \<and> (length (params s) = 576 \<longrightarrow> usr_ok ((fresh segment s)\<lparr>kern := s\<rparr>)))"

lemma fresh_process:
  "fresh_ok fresh \<Longrightarrow> tables v (Suc k) (Suc k) (int k + 1) s \<Longrightarrow> process_ok v k ((fresh segment s)\<lparr>kern := s\<rparr>)"
  by (simp add: process_ok_def fresh_ok_def tables_params_length)

section \<open>\<open>ps\<close>\<close>

text \<open>One line for each entered program: its number, that of the program that runs it, its segment, whether it is the one
  that runs, the size of its file and its name.\<close>

definition row_text :: "nat \<Rightarrow> nat \<Rightarrow> byte list \<times> u32 \<Rightarrow> byte list" where
  "row_text n j x = lit ''root'' @ lit '' '' @ dec (j + 1) @ lit '' '' @ dec j @ lit '' '' @ dec ((j + 2) * 4096) @ lit '' ''
     @ lit (if j + 1 = n then ''RUNNING'' else ''READY'') @ lit '' '' @ dec (unat (snd x)) @ lit '' '' @ fst x @ [13, 10]"

definition row_ok :: "byte list \<times> u32 \<Rightarrow> bool" where
  "row_ok x \<longleftrightarrow> length (fst x) < 32 \<and> unat (snd x) < 10 ^ 6"

definition ps_text :: "(byte list \<times> u32) list \<Rightarrow> byte list" where
  "ps_text rs = (lit ''USER PID PPID CS STAT SIZE NAME'' @ [13, 10])
     @ concat (map (\<lambda>j. row_text (length rs) j (rs ! j)) [0..<length rs]) @ [13, 10]"

lemma taken_slots:
  assumes "procs_busy s = {..<n}" "length (processes s) = NUM_PROCESSES" "n \<le> NUM_PROCESSES"
  shows "filter (\<lambda>p. p_pid p \<noteq> 0) (processes s) = map ((!) (processes s)) [0..<n]"
proof -
  let ?P = "\<lambda>i. p_pid (processes s ! i) \<noteq> 0"
  have b: "?P i \<longleftrightarrow> i < n" if "i < NUM_PROCESSES" for i
    using assms(1) that by (auto simp: procs_busy_def)
  have "filter ?P [0..<n] = [0..<n]" "filter ?P [n..<NUM_PROCESSES] = []"
    using b assms(3) by (auto simp: filter_id_conv filter_empty_conv)
  moreover have "[0..<NUM_PROCESSES] = [0..<n] @ [n..<NUM_PROCESSES]"
    using assms(3) upt_add_eq_append [of 0 n "NUM_PROCESSES - n"] by simp
  ultimately have "filter ?P [0..<NUM_PROCESSES] = [0..<n]" by simp
  moreover have "processes s = map ((!) (processes s)) [0..<NUM_PROCESSES]"
    unfolding assms(2) [symmetric] by (simp add: map_nth)
  ultimately show ?thesis by (metis (no_types, lifting) comp_def filter_cong filter_map)
qed

lemma row_line:
  assumes t: "tables v (Suc k) (Suc k) (int k + 1) s" and k: "k < 8" and r: "roster rs s" and j: "j < Suc k" and ok: "row_ok (rs ! j)"
  shows "printable (processes s ! j)" "proc_line (processes s ! j) = row_text (Suc k) j (rs ! j)"
proof -
  let ?p = "processes s ! j"
  have j9: "j < NUM_PROCESSES" using j k by (simp add: NUM_PROCESSES_def)
  have wf: "procs_wf s" "procs_busy s = {..<Suc k}" and e: "entry_ok (int k + 1) j ?p"
    using t j by (simp_all add: tables_def kinv_def)
  have "j \<in> procs_busy s" using wf(2) j by simp
  then have pid: "p_pid ?p = of_nat (j + 1)" and l: "length (p_name ?p) = 32"
    using procs_wfD(2) [OF wf(1) j9] by (auto simp: proc_wf_def procs_busy_def)
  have id: "cval (p_name ?p) = fst (rs ! j)" "p_size ?p = snd (rs ! j)"
  proof -
    have "rs ! j = identity ?p" using r j roster_length [OF r t] by (simp add: roster_def)
    then show "cval (p_name ?p) = fst (rs ! j)" "p_size ?p = snd (rs ! j)" by (simp_all add: identity_def)
  qed
  have n: "unat (of_nat (j + 1) :: u32) = j + 1" "unat (of_nat j :: u32) = j" "unat (seg_base (j + 2)) = (j + 2) * 4096"
  proof -
    have j8: "j < 8" using j k by linarith
    show "unat (of_nat (j + 1) :: u32) = j + 1" by (rule unat_u32_of_nat) (use j8 in simp)
    show "unat (of_nat j :: u32) = j" by (rule unat_u32_of_nat) (use j8 in simp)
    show "unat (seg_base (j + 2)) = (j + 2) * 4096" by (rule unat_seg_base) (use j8 in \<open>simp add: NUM_SEG_def\<close>)
  qed
  have "terminated (p_name ?p)"
  proof (rule ccontr)
    assume "\<not> terminated (p_name ?p)"
    then have "length (cval (p_name ?p)) = 32" using l by (simp add: terminated_def cval_no_NUL)
    with ok id show False by (simp add: row_ok_def)
  qed
  then show "printable ?p"
    using ok e id l n j k pid by (simp add: printable_def row_ok_def entry_ok_def)
  show "proc_line ?p = row_text (Suc k) j (rs ! j)"
    using e id n pid by (auto simp: proc_line_def row_text_def entry_ok_def state_name_def)
qed

lemma ps_prints:
  assumes u: "process_ok v k u" and k: "k < 8" and r: "roster rs (kern u)" and ok: "list_all row_ok rs"
  shows "gives (\<lambda>w. process_ok v k w \<and> progress (ps_text rs) (kbd (kern u)) (kern u) (kern w)) (ps_main fc e u)"
proof -
  let ?s = "(kern u)\<lparr>params := sysparam u\<rparr>"
  let ?t = "(lit ''USER PID PPID CS STAT SIZE NAME'' @ [13, 10]) @ concat (map (\<lambda>j. row_text (length rs) j (rs ! j)) [0..<length rs])"
  have tu: "tables v (Suc k) (Suc k) (int k + 1) (kern u)" using u by (simp add: process_ok_def)
  have t: "tables v (Suc k) (Suc k) (int k + 1) ?s"
    using tu process_usr [OF u] by (intro tables_params) (simp_all add: usr_ok_def)
  have rs: "roster rs ?s" using r by (simp add: roster_def procs_busy_def)
  have l: "length rs = Suc k" by (rule roster_length [OF rs t])
  have wf: "length (processes ?s) = NUM_PROCESSES" "procs_busy ?s = {..<Suc k}" "num_ok (uitoa_buf ?s)"
    using t by (simp_all add: tables_def kinv_def procs_wf_def)
  have row: "row_ok (rs ! j)" if "j < Suc k" for j using that ok l by (simp add: list_all_length)
  have f: "filter (\<lambda>p. p_pid p \<noteq> 0) (processes ?s) = map ((!) (processes ?s)) [0..<Suc k]"
    using taken_slots [OF wf(2,1)] k by (simp add: NUM_PROCESSES_def)
  have "\<forall>p\<in>set (processes ?s). p_pid p \<noteq> 0 \<longrightarrow> printable p"
  proof (intro ballI impI)
    fix p assume "p \<in> set (processes ?s)" "p_pid p \<noteq> 0"
    then have "p \<in> set (map ((!) (processes ?s)) [0..<Suc k])" unfolding f [symmetric] by simp
    then show "printable p" using row_line(1) [OF t k rs _ row] by auto
  qed
  from get_process_list_reports [OF wf(3,1) this]
  have "reported ((lit ''USER PID PPID CS STAT SIZE NAME'' @ [13, 10]) @ concat (map (\<lambda>j. proc_line (processes ?s ! j)) [0..<Suc k]))
      ?s (get_process_list ?s)" unfolding f by (simp only: map_map comp_def)
  moreover have "map (\<lambda>j. proc_line (processes ?s ! j)) [0..<Suc k] = map (\<lambda>j. row_text (length rs) j (rs ! j)) [0..<length rs]"
    unfolding l
  proof (rule map_cong [OF refl])
    fix j assume "j \<in> set [0..<Suc k]"
    then have j: "j < Suc k" by (simp del: upt_Suc)
    show "proc_line (processes ?s ! j) = row_text (Suc k) j (rs ! j)" by (rule row_line(2) [OF t k rs j row [OF j]])
  qed
  ultimately have "reported ?t ?s (get_process_list ?s)" by (simp only:)
  then obtain b where b: "num_ok b" "get_process_list ?s = Inr (shown ?t (?s\<lparr>uitoa_buf := b\<rparr>))" unfolding reported_def by blast
  have call: "dispatch fc e 8 ?s = ret (shown ?t (?s\<lparr>uitoa_buf := b\<rparr>))"
    by (simp only: dispatch_def service_call_def Let_def b(2)) simp
  have "progress ?t (kbd (kern u)) (kern u) (shown ?t (?s\<lparr>uitoa_buf := b\<rparr>))" by (simp add: progress_def)
  from line_served_syscall [OF u call tables_shown [OF t b(1)] this] obtain w where
    w: "usr_get_process_list fc e u = ret w" "process_ok v k w" "progress ?t (kbd (kern u)) (kern u) (kern w)"
    by (auto simp: usr_get_process_list_def gives_def)
  obtain x where x: "prints fc e crlf w = ret x" "printed [13, 10] w x"
    using prints_crlf [OF process_usr [OF w(2)], of fc e] by (auto simp: gives_def)
  have "progress (?t @ [13, 10]) (kbd (kern u)) (kern u) (kern x)"
    using progress_trans [OF w(3) printed_progress [OF x(2)]] progress_kbd [OF w(3)] by simp
  with process_printed [OF w(2) x(2)] show ?thesis by (simp add: ps_main_def w(1) x(1) ps_text_def)
qed

section \<open>What a program shows\<close>

text \<open>
  What is shown when a program is run by name, for the programs entered before it and the lines typed for it; and what
  the shell answers to a line when programs run like that: its own commands, the program of that name, or that there is
  none.
\<close>

type_synonym running = "(byte list \<times> u32) list \<Rightarrow> byte list \<Rightarrow> line list \<Rightarrow> byte list option"

definition line_answer :: "running \<Rightarrow> env \<Rightarrow> nat \<Rightarrow> kstate \<Rightarrow> (byte list \<times> u32) list \<Rightarrow> answer" where
  "line_answer run e n s rs l xs ls =
     (case own_text e l xs ls of
        Some a \<Rightarrow> Some a
      | None \<Rightarrow>
          if xs \<noteq> [] \<or> (\<exists>t\<in>builtins. l = lit t) then None
          else (case program_entry e n s (l @ [0]) of
              Some f \<Rightarrow> run rs l ls
            | None \<Rightarrow>
                if ls = [] \<and> 37 \<notin> set l \<and> length rs < 8
                then Some (scan_text n @ l @ lit '': command not found'') else None))"

definition demo_text :: "byte list" where
  "demo_text = lit ''1048576'' @ [13, 10] @ lit ''hello world!'' @ lit ''HELLO world!''"

definition program_answer :: "running \<Rightarrow> env \<Rightarrow> nat \<Rightarrow> kstate \<Rightarrow> program \<Rightarrow> (byte list \<times> u32) list \<Rightarrow> line list \<Rightarrow> byte list option" where
  "program_answer run e n s p rs ls = (case p of
     Init \<Rightarrow> map_option (\<lambda>t. init_text @ t) (run rs (lit ''shell'') ls)
   | Shell \<Rightarrow> dialog (line_answer run e n s rs) ls
   | Demo \<Rightarrow> if ls = [] then Some demo_text else None
   | Ps \<Rightarrow> if ls = [] \<and> list_all row_ok rs then Some (ps_text rs) else None
   | Ls out_format \<Rightarrow> let fs = take 18 (files_from e s 0 n) in
       if ls = [] \<and> list_all plain_name fs then Some (opened_text @ ls_text out_format (map sys_entry_of fs)) else None)"

text \<open>A program that is run shows the search of the directory first.  At most \<open>d\<close> programs run one another; there are eight
  segments for them.\<close>

primrec run_answer :: "(Fat16Entry \<Rightarrow> program option) \<Rightarrow> env \<Rightarrow> nat \<Rightarrow> kstate \<Rightarrow> nat \<Rightarrow> running" where
  "run_answer which e n s 0 = (\<lambda>rs l ls. None)"
| "run_answer which e n s (Suc d) = (\<lambda>rs l ls.
     if 8 \<le> length rs then None
     else (case program_entry e n s (l @ [0]) of
         Some f \<Rightarrow> (case which f of
             Some p \<Rightarrow> map_option (\<lambda>t. scan_text n @ t)
               (program_answer (run_answer which e n s d) e n s p (rs @ [(map upper_byte l, file_size f)]) ls)
           | None \<Rightarrow> None)
       | None \<Rightarrow> None))"

lemma line_answer_same: "same_volume s s' \<Longrightarrow> line_answer run e n s' = line_answer run e n s"
  using same_volume_entries(3) [of s s'] by (simp add: line_answer_def fun_eq_iff cong: option.case_cong)

lemma program_answer_same: "same_volume s s' \<Longrightarrow> program_answer run e n s' = program_answer run e n s"
proof -
  assume s: "same_volume s s'"
  then have "files_from e s' 0 n = files_from e s 0 n" by (simp add: files_from_def same_volume_entries(1))
  then show ?thesis unfolding program_answer_def line_answer_same [OF s] by (simp only:)
qed

lemma run_answer_same: "same_volume s s' \<Longrightarrow> run_answer which e n s' d = run_answer which e n s d"
  using same_volume_entries(3) [of s s'] by (induction d) (simp_all add: program_answer_same cong: option.case_cong if_cong)

lemma program_entry_cong: "map upper_byte (cval a) = map upper_byte (cval b) \<Longrightarrow> program_entry e n s a = program_entry e n s b"
  by (simp add: program_entry_def)

lemma cval_again: "cval (cval a @ [0]) = cval a"
  by (rule cval_append_NUL) (use cval_nonzero in blast)

lemma program_entry_cval: "program_entry e n s (cval name @ [0]) = program_entry e n s name"
  by (rule program_entry_cong) (simp only: cval_again)

lemma run_answer_upper:
  assumes "map upper_byte (cval a) = map upper_byte (cval b)"
  shows "run_answer which e n s d rs (cval a) = run_answer which e n s d rs (cval b)"
proof -
  have "program_entry e n s (cval a @ [0]) = program_entry e n s (cval b @ [0])"
    unfolding program_entry_cval by (rule program_entry_cong [OF assms])
  then show ?thesis by (cases d) (simp_all add: assms fun_eq_iff cong: option.case_cong)
qed

section \<open>Programs that run programs\<close>

text \<open>In the system \<open>fc\<close> whatever program runs another by name, it gets back to its caller having shown what \<open>run\<close>
  says.\<close>

definition runs_as :: "farcall \<Rightarrow> env \<Rightarrow> byte list \<times> section_positions \<Rightarrow> 12 word list \<Rightarrow> nat \<Rightarrow> running \<Rightarrow> bool" where
  "runs_as fc e v es n run \<longleftrightarrow> (\<forall>k u rs str ls a rest.
     process_ok v k u \<longrightarrow> mounted e es n (kern u) \<longrightarrow> roster rs (kern u) \<longrightarrow> 576 \<le> length str \<longrightarrow> terminated (take 576 str) \<longrightarrow>
     run rs (cval (take 576 str)) ls = Some a \<longrightarrow> kbd (kern u) = typed ls @ rest \<longrightarrow>
     gives (\<lambda>(rc, w). rc = 0 \<and> process_ok v k w \<and> ustack w = ustack u \<and> progress a rest (kern u) (kern w))
       (usr_run_program fc e str u))"

lemma runs_asD:
  assumes "runs_as fc e v es n run" "process_ok v k u" "mounted e es n (kern u)" "roster rs (kern u)"
    and "576 \<le> length str" "terminated (take 576 str)" "run rs (cval (take 576 str)) ls = Some a" "kbd (kern u) = typed ls @ rest"
  shows "gives (\<lambda>(rc, w). rc = 0 \<and> process_ok v k w \<and> ustack w = ustack u \<and> progress a rest (kern u) (kern w))
    (usr_run_program fc e str u)"
  using assms unfolding runs_as_def by blast

lemma runs_as_answers:
  assumes run: "runs_as fc e v es n run" and t0: "tables v n0 m0 r0 s0"
  shows "shell_answers fc e v k es n rs (line_answer run e n s0 rs)"
proof (unfold_locales, goal_cases)
  case (1 u buf xs ls a rest)
  note u = 1(1) and m = 1(2) and r = 1(3) and buf = 1(4,5)
  have tu: "tables v (Suc k) (Suc k) (int k + 1) (kern u)" using u by (simp add: process_ok_def)
  have ans: "line_answer run e n (kern u) rs (cval buf) xs ls = Some a"
    using 1(6) by (simp only: line_answer_same [OF same_volume_tables [OF t0 tu]])
  show ?case
  proof (cases "own_text e (cval buf) xs ls")
    case (Some b)
    with ans have "b = a" by (simp add: line_answer_def)
    with Some show ?thesis by (intro line_served_own [OF u buf _ 1(7)]) simp
  next
    case None
    then have nb: "\<forall>t\<in>builtins. cval buf \<noteq> lit t" "xs = []" using ans by (auto simp: line_answer_def split: if_splits)
    show ?thesis
    proof (cases "program_entry e n (kern u) buf")
      case N: None
      with ans None nb have a: "37 \<notin> set (cval buf)" "a = scan_text n @ cval buf @ lit '': command not found''" "ls = []" "length rs < 8"
        by (auto simp: line_answer_def program_entry_cval split: if_splits)
      have "Suc k < 8" using a(4) roster_length [OF r tu] by simp
      from line_served_missing [OF u this m buf a(1) nb(1) N, of fc] a(2,3) nb(2) 1(7) show ?thesis by simp
    next
      case (Some f)
      with ans None nb have a: "run rs (cval buf) ls = Some a" by (auto simp: line_answer_def program_entry_cval split: if_splits)
      show ?thesis
      proof (rule line_served_run [OF u buf nb(1)])
        fix str :: "byte list"
        assume str: "576 \<le> length str" "terminated (take 576 str)" "cval (take 576 str) = cval buf"
        with runs_asD [OF run u m r str(1,2), of ls a rest] a 1(7) nb(2)
        show "gives (\<lambda>(rc, w). rc = 0 \<and> process_ok v k w \<and> ustack w = ustack u \<and> progress a rest (kern u) (kern w))
          (usr_run_program fc e str u)" by simp
      qed
    qed
  qed
qed

lemma init_shows:
  assumes run: "runs_as fc e v es n run" and u: "process_ok v k u" and m: "mounted e es n (kern u)" and r: "roster rs (kern u)"
    and t: "run rs (lit ''shell'') ls = Some t" and keys: "kbd (kern u) = typed ls @ rest"
  shows "gives (\<lambda>w. process_ok v k w \<and> progress (init_text @ t) rest (kern u) (kern w)) (init_main fc e u)"
proof -
  obtain w where w: "init_main fc e u = obind (usr_run_program fc e (cstr ''shell'' @ ustack w) w) (\<lambda>r. ret (snd r))"
    "printed init_text u w" by (rule init_greets [OF process_usr [OF u]]) (rule that)
  have pw: "process_ok v k w" by (rule process_printed [OF u w(2)])
  note p = printed_progress [OF w(2)]
  have e: "take 576 (cstr ''shell'' @ ustack w) = lit ''shell'' @ 0 # take 570 (ustack w)" by (simp add: cstr_def)
  have str: "576 \<le> length (cstr ''shell'' @ ustack w)" using process_usr [OF pw] by (simp add: usr_ok_def)
  have name: "terminated (take 576 (cstr ''shell'' @ ustack w))" unfolding e by (rule terminated_append_NUL)
  have "cval (take 576 (cstr ''shell'' @ ustack w)) = lit ''shell''"
    unfolding e by (rule cval_append_NUL) (simp add: of_char_def)
  with t have "run rs (cval (take 576 (cstr ''shell'' @ ustack w))) ls = Some t" by simp
  from runs_asD [OF run pw mounted_process(1) [OF m u pw] roster_process [OF r p u pw] str name this, of rest]
  obtain x where "usr_run_program fc e (cstr ''shell'' @ ustack w) w = ret (0, x)" "process_ok v k x" "progress t rest (kern w) (kern x)"
    using progress_kbd [OF p] keys by (auto simp: gives_def)
  with w(1) progress_trans [OF p this(3)] show ?thesis by simp
qed

lemma program_shows:
  assumes run: "runs_as fc e v es n run" and t0: "tables v n0 m0 r0 s0"
    and u: "process_ok v k u" and k: "k < 8" and m: "mounted e es n (kern u)" and r: "roster rs (kern u)" and fresh: "sysparam u ! 1 = 0"
    and a: "program_answer run e n s0 p rs ls = Some a" and keys: "kbd (kern u) = typed ls @ rest"
  shows "gives (\<lambda>w. process_ok v k w \<and> progress a rest (kern u) (kern w)) (program_main p fc e u)"
proof (cases p)
  case Init
  with a obtain t where "run rs (lit ''shell'') ls = Some t" "a = init_text @ t" by (auto simp: program_answer_def)
  with init_shows [OF run u m r _ keys] Init show ?thesis by simp
next
  case Shell
  with a have "dialog (line_answer run e n s0 rs) ls = Some a" by (simp add: program_answer_def)
  from shell_answers.shell_main_dialog [OF runs_as_answers [OF run t0] u m r this keys] Shell show ?thesis by simp
next
  case Demo
  then have d: "a = demo_text" "ls = []" using a by (auto simp: program_answer_def split: if_splits)
  from demo_prints [OF process_usr [OF u], of fc e] show ?thesis
    using process_printed [OF u] printed_progress [of a u] keys d(2) by (auto simp: Demo d(1) demo_text_def elim!: gives_mono)
next
  case Ps
  then have "a = ps_text rs" "ls = []" "list_all row_ok rs" using a by (auto simp: program_answer_def split: if_splits)
  with ps_prints [OF u k r, of fc e] keys Ps show ?thesis by simp
next
  case (Ls out_format)
  let ?fs = "take 18 (files_from e (kern u) 0 n)"
  have "tables v (Suc k) (Suc k) (int k + 1) (kern u)" using u by (simp add: process_ok_def)
  then have "same_volume s0 (kern u)" by (rule same_volume_tables [OF t0])
  then have fs: "files_from e s0 0 n = files_from e (kern u) 0 n" by (simp add: files_from_def same_volume_entries(1))
  have b: "a = opened_text @ ls_text out_format (map sys_entry_of ?fs)" "\<forall>f\<in>set ?fs. plain_name f" "ls = []"
    using a by (auto simp: Ls program_answer_def Let_def list_all_iff fs split: if_splits)
  from ls_main_prints [where fc = fc, OF u k m fresh refl b(2), of out_format] show ?thesis
    using keys b(3) by (auto simp: Ls b(1) elim!: gives_mono)
qed

section \<open>The repository's programs\<close>

lemma world_comes_back:
  assumes run: "runs_as (world prog_at fresh e d) e v es n run" and t0: "tables v n0 m0 r0 s0" and fresh: "fresh_ok fresh"
    and t: "tables v (Suc k) (Suc k) (int k + 1) s" "k < 8" and m: "mounted e es n s" and r: "roster rs s"
    and at: "prog_at (seg_base (k + 2)) s = p"
    and a: "program_answer run e n s0 p rs ls = Some a" and keys: "kbd s = typed ls @ rest"
  shows "comes_back (world prog_at fresh e (Suc d)) v k a rest s"
proof -
  let ?u = "(fresh (seg_base (k + 2)) s)\<lparr>kern := s\<rparr>"
  have "gives (\<lambda>w. process_ok v k w \<and> progress a rest (kern ?u) (kern w)) (program_main p (world prog_at fresh e d) e ?u)"
    using m r keys fresh
    by (intro program_shows [OF run t0 fresh_process [OF fresh t(1)] t(2) _ _ _ a]) (simp_all add: fresh_ok_def)
  then show ?thesis using at by (auto simp: comes_back_def process_ok_def gives_def)
qed

lemma world_runs:
  assumes t0: "tables v n0 m0 r0 s0" and id: "identified prog_at which e es n s0" and fresh: "fresh_ok fresh"
  shows "runs_as (world prog_at fresh e d) e v es n (run_answer which e n s0 d)"
proof (induction d)
  case 0
  show ?case by (simp add: runs_as_def)
next
  case (Suc d)
  show ?case unfolding runs_as_def
  proof (intro allI impI)
    fix k u rs ls a rest and str :: "byte list"
    let ?b = "take 576 str"
    assume u: "process_ok v k u" and m: "mounted e es n (kern u)" and r: "roster rs (kern u)"
      and str: "576 \<le> length str" "terminated ?b" and run: "run_answer which e n s0 (Suc d) rs (cval ?b) ls = Some a"
      and keys: "kbd (kern u) = typed ls @ rest"
    have tu: "tables v (Suc k) (Suc k) (int k + 1) (kern u)" using u by (simp add: process_ok_def)
    note same = same_volume_tables [OF t0 tu]
    obtain f p t where f: "length rs < 8" "program_entry e n s0 ?b = Some f" "which f = Some p"
        "program_answer (run_answer which e n s0 d) e n s0 p (rs @ [(map upper_byte (cval ?b), file_size f)]) ls = Some t"
        "a = scan_text n @ t"
      using run by (auto simp: program_entry_cval split: if_splits option.splits)
    have k: "Suc k < 8" using f(1) roster_length [OF r tu] by simp
    have f': "program_entry e n (kern u) ?b = Some f" using f(2) same_volume_entries(3) [OF same] by simp
    obtain cs where cs: "program_ok es (kern u) f cs"
        "\<And>j s'. j < 8 \<Longrightarrow> holds_image j (program_image e (kern u) cs) s' \<Longrightarrow> prog_at (seg_base (j + 2)) s' = p"
      by (rule identifiedE [OF identified_same [OF id same] f' f(3)]) (rule that)
    show "gives (\<lambda>(rc, w). rc = 0 \<and> process_ok v k w \<and> ustack w = ustack u \<and> progress a rest (kern u) (kern w))
      (usr_run_program (world prog_at fresh e (Suc d)) e str u)" unfolding f(5)
    proof (rule usr_run_found [OF u k m str f' cs(1)])
      fix s
      assume s: "tables v (Suc (Suc k)) (Suc (Suc k)) (int (Suc k) + 1) s" "progress (scan_text n) (kbd (kern u)) (kern u) s"
        "holds_image (Suc k) (program_image e (kern u) cs) s"
        "identity (processes s ! Suc k) = (map upper_byte (cval ?b), file_size f)"
      show "comes_back (world prog_at fresh e (Suc d)) v (Suc k) t rest s"
        by (rule world_comes_back [OF Suc.IH t0 fresh s(1) k mounted_tables [OF m tu s(1)]
              roster_entered [OF r progress_rows [OF s(2)] tu s(1,4)] cs(2) [OF k s(3)] f(4)])
          (use progress_kbd [OF s(2)] keys in simp)
    qed
  qed
qed

end
