(* ===== verification/Live_System.thy ===== *)
theory Live_System
  imports Live_Runs
begin

text \<open>
  The whole system at work: the kernel starts \<open>init\<close>, \<open>init\<close> starts the shell, the shell serves the lines typed, by
  its own commands and by programs, another shell among them, and after \<open>exit\<close> control comes back to the kernel, which
  starts \<open>init\<close> again.
\<close>

section \<open>The kernel\<close>

lemma roster_first:
  assumes "tables v (Suc 0) m r s" "identity (processes s ! 0) = x"
  shows "roster [x] s"
  using assms by (simp add: roster_def tables_def)

text \<open>What one start of the program the kernel starts shows, and how it leaves the kernel.\<close>

lemma kernel_serves:
  assumes t: "tables v 0 0 r s" and m: "mounted e es n s" and id: "identified prog_at which e es n s" and fresh: "fresh_ok fresh"
    and name: "terminated (init_name s)"
    and run: "run_answer which e n s d [] (cval (init_name s)) ls = Some screen" and keys: "kbd s = typed ls @ rest"
  obtains s' where "run_program (world prog_at fresh e d) e (init_name s) place_init (init_processes s) = ret (0, s')"
    "tables v 0 0 1 s'" "terminated (init_name s')" "map upper_byte (cval (init_name s')) = map upper_byte (cval (init_name s))"
    "kbd s' = rest" "\<exists>c. console s' = console s @ c \<and> chars c = screen"
proof -
  let ?s = "init_processes s"
  have i: "init_name ?s = init_name s" "kbd ?s = kbd s" "console ?s = console s" by (simp_all add: init_processes_def)
  have ti: "tables v 0 0 (int 0) ?s" using tables_init [OF t] by simp
  note same = same_volume_tables [OF t ti]
  have mi: "mounted e es n ?s" by (rule mounted_tables [OF m t ti])
  obtain d' f p t where d: "d = Suc d'" and f: "program_entry e n ?s (init_name s) = Some f" "which f = Some p"
      "program_answer (run_answer which e n s d') e n s p [(map upper_byte (cval (init_name s)), file_size f)] ls = Some t" "screen = scan_text n @ t"
    using run same_volume_entries(3) [OF same] by (cases d) (auto simp: program_entry_cval split: option.splits)
  obtain cs where cs: "program_ok es ?s f cs"
      "\<And>j s'. j < 8 \<Longrightarrow> holds_image j (program_image e ?s cs) s' \<Longrightarrow> prog_at (seg_base (j + 2)) s' = p"
    by (rule identifiedE [OF identified_same [OF id same] f(1,2)]) (rule that)
  obtain s1 where s1: "run_enter e (init_name s) place_init ?s = ret (0, int 0 + 1, seg_base (0 + 2), s1)"
      "tables v (Suc 0) (Suc 0) (int 0 + 1) s1" "ram s1 = store_ram ((0 + 2) * 65536) (program_image e ?s cs) (ram ?s)"
      "identity (processes s1 ! 0) = (map upper_byte (cval (init_name s)), file_size f)"
      "\<exists>nm. terminated nm \<and> cval nm = map upper_byte (cval (init_name s)) \<and> length nm = length (init_name s)
        \<and> progress (scan_text n) (kbd ?s) (place_init nm ?s) s1"
    by (rule run_enter_found [OF ti _ mi name program_entry_is_file(2) [OF f(1)] f(1) cs(1) place_init_ok place_keeps_simps(2)])
      (simp, rule that)
  obtain nm where nm: "terminated nm" "cval nm = map upper_byte (cval (init_name s))" "progress (scan_text n) (kbd s) (place_init nm ?s) s1"
    using s1(5) i by auto
  have at: "prog_at (seg_base (0 + 2)) s1 = p" using cs(2) [OF _ store_ram_holds [OF s1(3)]] by simp
  have "comes_back (world prog_at fresh e (Suc d')) v 0 t rest s1"
    by (rule world_comes_back [OF world_runs [OF t id fresh] t fresh s1(2) _ mounted_tables [OF m t s1(2)]
          roster_first [OF s1(2,4)] at f(3)])
      (use progress_kbd [OF nm(3)] keys in simp_all)
  then obtain s2 where s2: "world prog_at fresh e d (seg_base (0 + 2)) s1 = ret s2" "tables v (Suc 0) (Suc 0) 1 s2"
    "progress t rest s1 s2" unfolding comes_back_def d by (auto simp: gives_def)
  obtain s' where s': "run_exit 0 (int 0 + 1) (seg_base (0 + 2)) s2 = Inr (0, s')" "tables v 0 0 1 s'"
    by (rule run_exit_ok [OF s2(2)]) (simp, rule that)
  note ex = run_exit_frame [OF s'(1)]
  have n': "init_name s' = nm" using ex nm(3) s2(3) by (simp add: progress_def place_init_def)
  have "progress screen rest (place_init nm ?s) s2" using progress_trans [OF nm(3) s2(3)] f(4) by simp
  then have "\<exists>c. console s' = console s @ c \<and> chars c = screen"
    using ex i by (simp add: progress_def place_init_def)
  moreover have "run_program (world prog_at fresh e d) e (init_name s) place_init ?s = ret (0, s')"
    unfolding run_program_def s1(1) obind_simps prod.case if_P [OF refl] s2(1) s'(1) ..
  moreover have "map upper_byte (cval (init_name s')) = map upper_byte (cval (init_name s))" by (simp add: n' nm(2) upper_byte_idem)
  moreover have "terminated (init_name s')" using nm(1) n' by simp
  ultimately show thesis using s'(2) ex progress_kbd [OF s2(3)] by (intro that [of s']) simp_all
qed

text \<open>What a series of sessions shows, one after the other.\<close>

fun sessions_text :: "(line list \<Rightarrow> byte list option) \<Rightarrow> line list list \<Rightarrow> byte list option" where
  "sessions_text answer [] = Some []"
| "sessions_text answer (ls # series) =
     (case answer ls of
        Some t \<Rightarrow> map_option (\<lambda>t'. t @ t') (sessions_text answer series)
      | None \<Rightarrow> None)"

lemma turns_serve:
  "\<lbrakk>tables v 0 0 r s; mounted e es n s; identified prog_at which e es n s; fresh_ok fresh; terminated (init_name s);
    sessions_text (run_answer which e n s d [] (cval (init_name s))) series = Some screen;
    kbd s = concat (map typed series) @ rest\<rbrakk> \<Longrightarrow>
   \<exists>s' r'. startk_turns (world prog_at fresh e d) e (length series) s = ret s'
     \<and> tables v 0 0 r' s' \<and> kbd s' = rest \<and> (\<exists>c. console s' = console s @ c \<and> chars c = screen)"
proof (induction series arbitrary: r s screen)
  case Nil
  then show ?case by (intro exI [of _ s] exI [of _ r]) (simp del: world.simps)
next
  case (Cons ls series)
  note world.simps [simp del] run_answer.simps [simp del]
  let ?W = "world prog_at fresh e d" and ?A = "\<lambda>s. run_answer which e n s d [] (cval (init_name s))"
  obtain t t' where t: "?A s ls = Some t" "sessions_text (?A s) series = Some t'" "screen = t @ t'"
    using Cons.prems(6) by (auto split: option.splits)
  have keys: "kbd s = typed ls @ concat (map typed series) @ rest" using Cons.prems(7) by simp
  obtain s1 where s1: "run_program ?W e (init_name s) place_init (init_processes s) = ret (0, s1)"
      "tables v 0 0 1 s1" "terminated (init_name s1)" "map upper_byte (cval (init_name s1)) = map upper_byte (cval (init_name s))"
      "kbd s1 = concat (map typed series) @ rest" "\<exists>c. console s1 = console s @ c \<and> chars c = t"
    by (rule kernel_serves [OF Cons.prems(1-5) t(1) keys]) (rule that)
  note same = same_volume_tables [OF Cons.prems(1) s1(2)]
  have A: "?A s1 = ?A s" unfolding run_answer_same [OF same] by (rule run_answer_upper [OF s1(4)])
  have "startk_turn ?W e s = ret s1" by (simp add: startk_turn_def s1(1))
  then have "startk_turns ?W e (length (ls # series)) s = startk_turns ?W e (length series) s1" by simp
  moreover have "\<exists>s' r'. startk_turns ?W e (length series) s1 = ret s' \<and> tables v 0 0 r' s' \<and> kbd s' = rest
      \<and> (\<exists>c. console s' = console s1 @ c \<and> chars c = t')"
    by (rule Cons.IH [OF s1(2) mounted_tables [OF Cons.prems(2,1) s1(2)] identified_same [OF Cons.prems(3) same] Cons.prems(4) s1(3) _ s1(5)])
      (simp only: A t(2))
  then obtain s' r' c' where s': "startk_turns ?W e (length series) s1 = ret s'" "tables v 0 0 r' s'" "kbd s' = rest"
    "console s' = console s1 @ c'" "chars c' = t'" by blast
  moreover obtain c where c: "console s1 = console s @ c" "chars c = t" using s1(6) by blast
  have "chars (c @ c') = screen" by (simp add: c(2) s'(5) t(3))
  with c(1) s'(4) have "\<exists>c. console s' = console s @ c \<and> chars c = screen" by auto
  ultimately show ?case by auto
qed

section \<open>A disk with four programs\<close>

text \<open>INIT, SHELL, DEMO and PS, one cluster each; a program is known by the first byte of its segment, the number of the
  sector it was loaded from.\<close>

definition live_table :: "12 word list" where
  "live_table = [0xFF0, 0xFFF, 0xFFF, 0xFFF, 0xFFF, 0xFFF]"

definition live_entry :: "string \<Rightarrow> u16 \<Rightarrow> Fat16Entry" where
  "live_entry name c = init_entry\<lparr>filename := lit name, starting_cluster := c\<rparr>"

definition live_files :: "Fat16Entry list" where
  "live_files = [live_entry ''INIT    '' 2, live_entry ''SHELL   '' 3, live_entry ''DEMO    '' 4, live_entry ''PS      '' 5]"

abbreviation live_env :: env where
  "live_env \<equiv> volume_env live_table live_files"

definition live_which :: "Fat16Entry \<Rightarrow> program option" where
  "live_which f = (if starting_cluster f = 2 then Some Init else if starting_cluster f = 3 then Some Shell
     else if starting_cluster f = 4 then Some Demo else if starting_cluster f = 5 then Some Ps else None)"

definition live_at :: "u32 \<Rightarrow> kstate \<Rightarrow> program" where
  "live_at segment s = (let b = ram s (unat segment * 16) in if b = 33 then Init else if b = 41 then Shell else if b = 49 then Demo else Ps)"

definition live_fresh :: "u32 \<Rightarrow> kstate \<Rightarrow> ustate" where
  "live_fresh segment s = sample_user []"

lemma live_fresh_ok: "fresh_ok live_fresh"
  by (simp add: fresh_ok_def live_fresh_def sample_user_def usr_ok_def)

lemma live_entry_ok:
  assumes "name \<in> {''INIT    '', ''SHELL   '', ''DEMO    '', ''PS      ''}"
  shows "entry_wf (live_entry name c)" "names_ok (live_entry name c)" "is_file (live_entry name c)"
  using assms by (auto simp: live_entry_def init_entry_def entry_wf_def names_ok_def is_file_def entry_type_file bit_numeral_rec of_char_def)

lemma live_files_ok: "files_ok live_files"
  using live_entry_ok by (simp add: files_ok_def live_files_def)

lemma live_names:
  "field_text (filename (live_entry ''INIT    '' c)) = lit ''INIT''" "field_text (filename (live_entry ''SHELL   '' c)) = lit ''SHELL''"
  "field_text (filename (live_entry ''DEMO    '' c)) = lit ''DEMO''"
  "field_text (filename (live_entry ''PS      '' c)) = lit ''PS''"
  by (simp_all add: live_entry_def field_text_def of_char_def)

lemma live_find:
  "find P live_files = (if P (live_entry ''INIT    '' 2) then Some (live_entry ''INIT    '' 2)
     else if P (live_entry ''SHELL   '' 3) then Some (live_entry ''SHELL   '' 3)
     else if P (live_entry ''DEMO    '' 4) then Some (live_entry ''DEMO    '' 4)
     else if P (live_entry ''PS      '' 5) then Some (live_entry ''PS      '' 5) else None)"
  by (simp add: live_files_def)

lemma live_entry_simps:
  assumes "on_volume live_table live_files s" "map upper_byte (cval name) = lit t"
  shows "t = ''INIT'' \<Longrightarrow> program_entry live_env 224 s name = Some (live_entry ''INIT    '' 2)"
    and "t = ''SHELL'' \<Longrightarrow> program_entry live_env 224 s name = Some (live_entry ''SHELL   '' 3)"
    and "t = ''DEMO'' \<Longrightarrow> program_entry live_env 224 s name = Some (live_entry ''DEMO    '' 4)"
    and "t = ''PS'' \<Longrightarrow> program_entry live_env 224 s name = Some (live_entry ''PS      '' 5)"
    and "t = ''NOPE'' \<Longrightarrow> program_entry live_env 224 s name = None"
proof -
  have p: "program_entry live_env 224 s name = find (\<lambda>f. is_file f \<and> field_text (filename f) = lit t) live_files"
    by (simp only: volume_program [OF assms(1) live_files_ok] assms(2))
  show "t = ''INIT'' \<Longrightarrow> program_entry live_env 224 s name = Some (live_entry ''INIT    '' 2)"
    and "t = ''SHELL'' \<Longrightarrow> program_entry live_env 224 s name = Some (live_entry ''SHELL   '' 3)"
    and "t = ''DEMO'' \<Longrightarrow> program_entry live_env 224 s name = Some (live_entry ''DEMO    '' 4)"
    and "t = ''PS'' \<Longrightarrow> program_entry live_env 224 s name = Some (live_entry ''PS      '' 5)"
    and "t = ''NOPE'' \<Longrightarrow> program_entry live_env 224 s name = None"
    unfolding p live_find using live_names live_entry_ok(3) by (simp_all add: of_char_def)
qed

lemma live_program:
  assumes v: "on_volume live_table live_files s" and c: "c \<in> {2, 3, 4, 5}" "f = live_entry name (of_nat c)"
  shows "program_ok live_table s f [c]"
    and "program_image live_env s [c] ! 0 = of_nat (33 + 8 * (c - 2))" "length (program_image live_env s [c]) = 4096"
proof -
  have "cluster_ok live_table s c"
    using c(1) v
    by (auto simp: cluster_ok_def entry_reachable_def in_place_def readable_def floppy_pos_def chs_slip_def cluster_pos_def on_volume_def live_table_def)
  then show "program_ok live_table s f [c]"
    using c by (auto simp: program_ok_def live_entry_def live_table_def)
  have "cluster_pos s c = 16896 + 4096 * (c - 2)"
    using v by (simp add: cluster_pos_def on_volume_def)
  moreover have "16896 + 4096 * (c - 2) + 4096 \<le> 1474560" using c(1) by auto
  moreover have "volume_image live_table live_files (16896 + 4096 * (c - 2)) = of_nat (33 + 8 * (c - 2))"
    using c(1) by (auto simp: volume_image_def sample_image_def live_files_def live_table_def)
  ultimately show "program_image live_env s [c] ! 0 = of_nat (33 + 8 * (c - 2))" "length (program_image live_env s [c]) = 4096"
    by (simp_all add: program_image_def cluster_bytes_def image_disk_bytes del: upt_rec_numeral)
qed

lemma live_identified:
  assumes v: "on_volume live_table live_files s"
  shows "identified live_at live_which live_env live_table 224 s"
proof -
  have one: "\<exists>cs. program_ok live_table s f cs
      \<and> (\<forall>k s'. k < 8 \<longrightarrow> holds_image k (program_image live_env s cs) s' \<longrightarrow> live_at (seg_base (k + 2)) s' = p)"
    if f: "c \<in> {2, 3, 4, 5}" "f = live_entry name (of_nat c)" "live_which f = Some p" for f c name p
  proof (intro exI [of _ "[c]"] conjI allI impI)
    show "program_ok live_table s f [c]" by (rule live_program(1) [OF v f(1,2)])
    fix k s'
    assume k: "k < 8" and h: "holds_image k (program_image live_env s [c]) s'"
    have "0 < length (program_image live_env s [c]) \<longrightarrow> ram s' ((k + 2) * 65536 + 0) = program_image live_env s [c] ! 0"
      using h unfolding holds_image_def by blast
    then have "ram s' ((k + 2) * 65536) = of_nat (33 + 8 * (c - 2))" using live_program(2,3) [OF v f(1,2)] by simp
    moreover have "unat (seg_base (k + 2)) = (k + 2) * 4096" using k by (intro unat_seg_base) (simp add: NUM_SEG_def)
    ultimately show "live_at (seg_base (k + 2)) s' = p"
      using f by (auto simp: live_at_def live_which_def live_entry_def mult.commute)
  qed
  have d: "volume_entries live_env 224 s = live_files @ replicate (224 - length live_files) no_entry"
    unfolding volume_entries_def by (rule volume_directory [OF v live_files_ok])
  have "starting_cluster no_entry = 0" by (simp add: no_entry_def entry_of_def le16_def numeral_2_eq_2)
  then have "live_which no_entry = None" by (simp add: live_which_def)
  then show ?thesis
    unfolding identified_def d
    using one [of 2 _ "''INIT    ''"] one [of 3 _ "''SHELL   ''"] one [of 4 _ "''DEMO    ''"] one [of 5 _ "''PS      ''"]
    by (auto simp: live_files_def)
qed

lemma live_upper:
  "map upper_byte (lit ''init'') = lit ''INIT''" "map upper_byte (lit ''shell'') = lit ''SHELL''"
  "map upper_byte (lit ''demo'') = lit ''DEMO''" "map upper_byte (lit ''ps'') = lit ''PS''" "map upper_byte (lit ''nope'') = lit ''NOPE''"
  by (simp_all add: of_char_def) (simp_all add: upper_byte_def)

lemma live_cval:
  "cval (lit ''init'' @ [0]) = lit ''init''" "cval (lit ''shell'' @ [0]) = lit ''shell''" "cval (lit ''demo'' @ [0]) = lit ''demo''"
  "cval (lit ''ps'' @ [0]) = lit ''ps''" "cval (lit ''nope'' @ [0]) = lit ''nope''"
  by (rule cval_append_NUL, simp add: of_char_def)+

lemma live_found:
  assumes v: "on_volume live_table live_files s"
  shows "program_entry live_env 224 s (lit ''init'' @ [0]) = Some (live_entry ''INIT    '' 2)"
    "program_entry live_env 224 s (lit ''shell'' @ [0]) = Some (live_entry ''SHELL   '' 3)"
    "program_entry live_env 224 s (lit ''demo'' @ [0]) = Some (live_entry ''DEMO    '' 4)"
    "program_entry live_env 224 s (lit ''ps'' @ [0]) = Some (live_entry ''PS      '' 5)"
    "program_entry live_env 224 s (lit ''nope'' @ [0]) = None"
  by (rule live_entry_simps [OF v _ refl], simp only: live_cval live_upper)+

lemma live_run:
  assumes v: "on_volume live_table live_files s" and l: "length rs < 8"
  shows "run_answer live_which live_env 224 s (Suc d) rs (lit ''init'') ls =
      map_option (\<lambda>t. scan_text 224 @ t) (program_answer (run_answer live_which live_env 224 s d) live_env 224 s Init (rs @ [(lit ''INIT'', 5000)]) ls)"
    "run_answer live_which live_env 224 s (Suc d) rs (lit ''shell'') ls =
      map_option (\<lambda>t. scan_text 224 @ t) (program_answer (run_answer live_which live_env 224 s d) live_env 224 s Shell (rs @ [(lit ''SHELL'', 5000)]) ls)"
    "run_answer live_which live_env 224 s (Suc d) rs (lit ''demo'') ls =
      map_option (\<lambda>t. scan_text 224 @ t) (program_answer (run_answer live_which live_env 224 s d) live_env 224 s Demo (rs @ [(lit ''DEMO'', 5000)]) ls)"
    "run_answer live_which live_env 224 s (Suc d) rs (lit ''ps'') ls =
      map_option (\<lambda>t. scan_text 224 @ t) (program_answer (run_answer live_which live_env 224 s d) live_env 224 s Ps (rs @ [(lit ''PS'', 5000)]) ls)"
proof -
  have n: "\<not> 8 \<le> length rs" using l by simp
  have w: "live_which (live_entry t 2) = Some Init" "live_which (live_entry t 3) = Some Shell"
    "live_which (live_entry t 4) = Some Demo" "live_which (live_entry t 5) = Some Ps" "file_size (live_entry t c) = 5000" for t c
    by (simp_all add: live_which_def live_entry_def init_entry_def)
  show "run_answer live_which live_env 224 s (Suc d) rs (lit ''init'') ls =
      map_option (\<lambda>t. scan_text 224 @ t) (program_answer (run_answer live_which live_env 224 s d) live_env 224 s Init (rs @ [(lit ''INIT'', 5000)]) ls)"
    "run_answer live_which live_env 224 s (Suc d) rs (lit ''shell'') ls =
      map_option (\<lambda>t. scan_text 224 @ t) (program_answer (run_answer live_which live_env 224 s d) live_env 224 s Shell (rs @ [(lit ''SHELL'', 5000)]) ls)"
    "run_answer live_which live_env 224 s (Suc d) rs (lit ''demo'') ls =
      map_option (\<lambda>t. scan_text 224 @ t) (program_answer (run_answer live_which live_env 224 s d) live_env 224 s Demo (rs @ [(lit ''DEMO'', 5000)]) ls)"
    "run_answer live_which live_env 224 s (Suc d) rs (lit ''ps'') ls =
      map_option (\<lambda>t. scan_text 224 @ t) (program_answer (run_answer live_which live_env 224 s d) live_env 224 s Ps (rs @ [(lit ''PS'', 5000)]) ls)"
    unfolding run_answer.simps(2) if_not_P [OF n] live_found [OF v] option.case w live_upper by (rule refl)+
qed

lemma live_line:
  assumes v: "on_volume live_table live_files s"
  shows "line_answer run live_env 224 s rs (lit ''demo'') [] ls = run rs (lit ''demo'') ls"
    "line_answer run live_env 224 s rs (lit ''ps'') [] ls = run rs (lit ''ps'') ls"
    "line_answer run live_env 224 s rs (lit ''shell'') [] ls = run rs (lit ''shell'') ls"
    "length rs < 8 \<Longrightarrow> line_answer run live_env 224 s rs (lit ''nope'') [] [] = Some (scan_text 224 @ lit ''nope: command not found'')"
    "line_answer run live_env 224 s rs (lit ''date'') [] [] = Some (lit ''2019/12/31 23:59:8'' @ [13, 10])"
    "line_answer run live_env 224 s rs (lit ''ccc'') (lit ''0123456789'') [] = Some (lit ''0123456789'' @ [13, 10] @ lit ''0123456789'')"
proof -
  have o: "own_text live_env (lit ''demo'') [] ls = None" "own_text live_env (lit ''ps'') [] ls = None"
      "own_text live_env (lit ''shell'') [] ls = None" "own_text live_env (lit ''nope'') [] ls = None" for ls
    by (simp_all add: own_text_def builtin_text_def of_char_def)
  have n: "\<not> (\<exists>t\<in>builtins. lit ''demo'' = lit t)" "\<not> (\<exists>t\<in>builtins. lit ''ps'' = lit t)" "\<not> (\<exists>t\<in>builtins. lit ''shell'' = lit t)"
      "\<not> (\<exists>t\<in>builtins. lit ''nope'' = lit t)" "37 \<notin> set (lit ''nope'')"
    by (simp_all add: builtins_def of_char_def)
  note a = line_answer_def o n option.case live_found [OF v] simp_thms if_False if_True not_True_eq_False refl
  show "line_answer run live_env 224 s rs (lit ''demo'') [] ls = run rs (lit ''demo'') ls"
    "line_answer run live_env 224 s rs (lit ''ps'') [] ls = run rs (lit ''ps'') ls"
    "line_answer run live_env 224 s rs (lit ''shell'') [] ls = run rs (lit ''shell'') ls"
    "length rs < 8 \<Longrightarrow> line_answer run live_env 224 s rs (lit ''nope'') [] [] = Some (scan_text 224 @ lit ''nope: command not found'')"
    by (simp_all only: a) simp
  have "rtc_date live_env = (0x20, 0x19, 0x12, 0x31)" "rtc_time live_env = (0x23, 0x59, 0x08)"
    by (simp_all add: image_env_def sample_env_def)
  moreover have "dec 2019 = lit ''2019''" "dec 12 = lit ''12''" "dec 31 = lit ''31''" "dec 23 = lit ''23''" "dec 59 = lit ''59''" "dec 8 = lit ''8''"
    by (simp_all add: dec_step dec_digit of_char_def)
  ultimately have "clock_text live_env = Some (lit ''2019/12/31 23:59:8'' @ [13, 10])"
    by (simp add: clock_text_def is_bcd_def from_bcd_def of_char_def)
  then show "line_answer run live_env 224 s rs (lit ''date'') [] [] = Some (lit ''2019/12/31 23:59:8'' @ [13, 10])"
    by (simp add: line_answer_def own_text_def of_char_def)
  show "line_answer run live_env 224 s rs (lit ''ccc'') (lit ''0123456789'') [] = Some (lit ''0123456789'' @ [13, 10] @ lit ''0123456789'')"
    by (simp add: line_answer_def own_text_def of_char_def)
qed

text \<open>Two sessions.  In the first the demo is run; in the second the date is asked for, another shell is run and in it \<open>ps\<close>
  and \<open>ccc\<close>, and after the inner \<open>exit\<close> the name of nothing is typed.\<close>

definition live_series :: "line list list" where
  "live_series =
     [[Line (lit ''demo'') [] [], Line (lit ''exit'') [] []],
      [Line (lit ''date'') [] [],
       Line (lit ''shell'') [] [Line (lit ''ps'') [] [], Line (lit ''ccc'') (lit ''0123456789'') [], Line (lit ''exit'') [] []],
       Line (lit ''nope'') [] [], Line (lit ''exit'') [] []]]"

definition live_ps :: "byte list" where
  "live_ps = lit ''USER PID PPID CS STAT SIZE NAME'' @ [13, 10] @ lit ''root 1 0 8192 READY 5000 INIT'' @ [13, 10]
     @ lit ''root 2 1 12288 READY 5000 SHELL'' @ [13, 10] @ lit ''root 3 2 16384 READY 5000 SHELL'' @ [13, 10]
     @ lit ''root 4 3 20480 RUNNING 5000 PS'' @ [13, 10, 13, 10]"

definition live_inner :: "byte list" where
  "live_inner = prompt_text (lit ''ps'') @ scan_text 224 @ live_ps @ prompt_text (lit ''ccc'') @ (lit ''0123456789'' @ [13, 10] @ lit ''0123456789'')
     @ prompt_text (lit ''exit'')"

definition live_screen :: "byte list" where
  "live_screen =
     (scan_text 224 @ init_text @ scan_text 224 @ prompt_text (lit ''demo'') @ scan_text 224 @ demo_text @ prompt_text (lit ''exit''))
     @ scan_text 224 @ init_text @ scan_text 224 @ prompt_text (lit ''date'') @ (lit ''2019/12/31 23:59:8'' @ [13, 10]) @ prompt_text (lit ''shell'') @ scan_text 224 @ live_inner
     @ prompt_text (lit ''nope'') @ scan_text 224 @ lit ''nope: command not found'' @ prompt_text (lit ''exit'')"

abbreviation live_roster :: "(byte list \<times> u32) list" where
  "live_roster \<equiv> [(lit ''INIT'', 5000), (lit ''SHELL'', 5000), (lit ''SHELL'', 5000), (lit ''PS'', 5000)]"

lemma live_listing: "list_all row_ok live_roster" "ps_text live_roster = live_ps"
proof -
  show "list_all row_ok live_roster" by (simp add: row_ok_def)
  have d: "dec 1 = lit ''1''" "dec 0 = lit ''0''" "dec 2 = lit ''2''" "dec 3 = lit ''3''" "dec 4 = lit ''4''" "dec 5000 = lit ''5000''"
    "dec 8192 = lit ''8192''" "dec 12288 = lit ''12288''" "dec 16384 = lit ''16384''" "dec 20480 = lit ''20480''"
    by (simp_all add: dec_step dec_digit of_char_def)
  have d': "dec (Suc 0) = lit ''1''" "dec (Suc (Suc 0)) = lit ''2''"
    using d(1,3) by (simp_all only: One_nat_def numeral_2_eq_2)
  have r: "row_text 4 0 (lit ''INIT'', 5000) = lit ''root 1 0 8192 READY 5000 INIT'' @ [13, 10]"
    "row_text 4 1 (lit ''SHELL'', 5000) = lit ''root 2 1 12288 READY 5000 SHELL'' @ [13, 10]"
    "row_text 4 2 (lit ''SHELL'', 5000) = lit ''root 3 2 16384 READY 5000 SHELL'' @ [13, 10]"
    "row_text 4 3 (lit ''PS'', 5000) = lit ''root 4 3 20480 RUNNING 5000 PS'' @ [13, 10]"
    by (simp_all add: row_text_def d d')
  have l: "length live_roster = 4" "[0..<4] = [0, 1, 2, 3]" "live_roster ! 0 = (lit ''INIT'', 5000)" "live_roster ! 1 = (lit ''SHELL'', 5000)"
    "live_roster ! 2 = (lit ''SHELL'', 5000)" "live_roster ! 3 = (lit ''PS'', 5000)"
    by (simp_all add: upt_rec)
  show "ps_text live_roster = live_ps"
    unfolding ps_text_def l(1,2) list.map l(3-6) r live_ps_def by simp
qed

lemma live_keys:
  "13 \<notin> set (lit ''demo'')" "13 \<notin> set (lit ''exit'')" "13 \<notin> set (lit ''date'')" "13 \<notin> set (lit ''shell'')" "13 \<notin> set (lit ''ps'')"
    "13 \<notin> set (lit ''ccc'')" "13 \<notin> set (lit ''nope'')"
  "edit_keys [] (lit ''demo'') = Some (lit ''demo'', lit ''demo'')" "edit_keys [] (lit ''exit'') = Some (lit ''exit'', lit ''exit'')"
    "edit_keys [] (lit ''date'') = Some (lit ''date'', lit ''date'')" "edit_keys [] (lit ''shell'') = Some (lit ''shell'', lit ''shell'')"
    "edit_keys [] (lit ''ps'') = Some (lit ''ps'', lit ''ps'')" "edit_keys [] (lit ''ccc'') = Some (lit ''ccc'', lit ''ccc'')"
    "edit_keys [] (lit ''nope'') = Some (lit ''nope'', lit ''nope'')"
  "\<not> (50 \<le> length (lit ''demo'') \<or> 0 \<in> set (lit ''demo''))" "\<not> (50 \<le> length (lit ''exit'') \<or> 0 \<in> set (lit ''exit''))"
    "\<not> (50 \<le> length (lit ''date'') \<or> 0 \<in> set (lit ''date''))" "\<not> (50 \<le> length (lit ''shell'') \<or> 0 \<in> set (lit ''shell''))"
    "\<not> (50 \<le> length (lit ''ps'') \<or> 0 \<in> set (lit ''ps''))" "\<not> (50 \<le> length (lit ''ccc'') \<or> 0 \<in> set (lit ''ccc''))"
    "\<not> (50 \<le> length (lit ''nope'') \<or> 0 \<in> set (lit ''nope''))"
  "lit ''demo'' \<noteq> lit ''exit''" "lit ''date'' \<noteq> lit ''exit''" "lit ''shell'' \<noteq> lit ''exit''" "lit ''ps'' \<noteq> lit ''exit''"
    "lit ''ccc'' \<noteq> lit ''exit''" "lit ''nope'' \<noteq> lit ''exit''"
  by (simp_all add: of_char_def)

lemma live_text:
  assumes v: "on_volume live_table live_files s"
  shows "sessions_text (run_answer live_which live_env 224 s 4 [] (lit ''init'')) live_series = Some live_screen"
proof -
  let ?R = "run_answer live_which live_env 224 s" and ?I = "(lit ''INIT'', 5000) :: byte list \<times> u32"
    and ?S = "(lit ''SHELL'', 5000) :: byte list \<times> u32"
  note go = dialog.simps live_keys option.case prod.case if_True if_False simp_thms not_True_eq_False refl live_line [OF v] option.map
  have four: "4 = Suc (Suc (Suc (Suc 0)))" by simp
  have demo: "?R (Suc d) [?I, ?S] (lit ''demo'') [] = Some (scan_text 224 @ demo_text)" for d
    using live_run(3) [OF v, of "[?I, ?S]" d "[]"] by (simp add: program_answer_def)
  have ps: "?R (Suc d) [?I, ?S, ?S] (lit ''ps'') [] = Some (scan_text 224 @ live_ps)" for d
    using live_run(4) [OF v, of "[?I, ?S, ?S]" d "[]"] live_listing by (simp add: program_answer_def)
  have shell: "?R (Suc (Suc d)) [?I, ?S] (lit ''shell'')
      [Line (lit ''ps'') [] [], Line (lit ''ccc'') (lit ''0123456789'') [], Line (lit ''exit'') [] []] = Some (scan_text 224 @ live_inner)" for d
    using live_run(2) [OF v, of "[?I, ?S]" "Suc d"]
    by (simp only: list.size append.simps program_answer_def program.case go ps live_inner_def) (simp only: append_assoc)
  have main: "?R (Suc d) [] (lit ''init'') ls = map_option (\<lambda>t. scan_text 224 @ init_text @ t) (?R d [?I] (lit ''shell'') ls)" for d ls
    using live_run(1) [OF v, of "[]" d ls] by (simp add: program_answer_def option.map_comp comp_def)
  have outer: "?R (Suc d) [?I] (lit ''shell'') ls = map_option (\<lambda>t. scan_text 224 @ t) (dialog (line_answer (?R d) live_env 224 s [?I, ?S]) ls)" for d ls
    using live_run(2) [OF v, of "[?I]" d ls] by (simp add: program_answer_def)
  have nope: "line_answer (?R d) live_env 224 s [?I, ?S] (lit ''nope'') [] [] = Some (scan_text 224 @ lit ''nope: command not found'')" for d
    by (rule live_line(4) [OF v]) simp
  show ?thesis
    unfolding four live_series_def live_screen_def sessions_text.simps main outer
    by (simp only: go nope demo shell) simp
qed

section \<open>Properties\<close>

text \<open>C2: the machine serves its keyboard.  After start-up on a mounted volume that holds the programs, for any
  series of sessions typed, the loop of \<open>startk\<close> makes as many turns as there are sessions, every one of which comes back: \<open>startk\<close> goes
  on from the state after them, in which \<open>init\<close> is about to be started anew, with no process and no segment left over and exactly the
  keys behind the sessions still to be read; the characters on the console since start-up are the
  directory searches, banners, prompts, echoes and answers of all the sessions, in order and without anything else.  A session is a list of lines that ends with \<open>exit\<close>: each is one of the shell's own
  commands (\<open>ccc\<close> with the ten characters it asks for; not \<open>reboot\<close>), the name of a program of the volume, or the name of
  nothing; a line that runs a shell, or \<open>init\<close>, is followed by the lines of the session inside it, to any depth up to the
  number of segments.  What the programs answer, the listing of the processes included, is stated from the
  volume and the names typed alone (\<open>run_answer\<close>).\<close>

theorem system_serves_sessions:
  assumes "booting {} arr s0" "startk_init e s0 = ret s" "mounted e es n s" "identified prog_at which e es n s" "fresh_ok fresh"
    and "terminated (init_name s)"
    and "sessions_text (run_answer which e n s d [] (cval (init_name s))) series = Some screen"
    and "kbd s = concat (map typed series) @ rest"
  shows "\<exists>s' r. startk_turns (world prog_at fresh e d) e (length series) s = ret s'
    \<and> startk (world prog_at fresh e d) e s0 = startk_loop (world prog_at fresh e d) e s'
    \<and> tables (bs s, s_pos s) 0 0 r s' \<and> kbd s' = rest \<and> (\<exists>c. console s' = console s @ c \<and> chars c = screen)"
proof -
  have t: "tables (bs s, s_pos s) 0 0 (running_proc s) s"
    using yieldsD [OF startk_init_booting [OF assms(1)] assms(2)] by (rule booting_tables)
  obtain s' r where s': "startk_turns (world prog_at fresh e d) e (length series) s = ret s'" "tables (bs s, s_pos s) 0 0 r s'"
    "kbd s' = rest" "\<exists>c. console s' = console s @ c \<and> chars c = screen"
    using turns_serve [OF t assms(3-8)] by blast
  have "startk (world prog_at fresh e d) e s0 = startk_loop (world prog_at fresh e d) e s'"
    unfolding startk_from_turns [OF assms(2), of _ "length series"] s'(1) by simp
  with s' show ?thesis by blast
qed

theorem system_serves_sessions_witness:
  "\<exists>s s' c. startk_init live_env (zero_state\<lparr>kbd := concat (map typed live_series)\<rparr>) = ret s
    \<and> startk_turns (world live_at live_fresh live_env 4) live_env (length live_series) s = ret s'
    \<and> kbd s' = [] \<and> console s' = console s @ c \<and> chars c = live_screen"
proof -
  let ?keys = "concat (map typed live_series)"
  obtain s where s: "startk_init live_env (zero_state\<lparr>kbd := ?keys\<rparr>) = ret s" "on_volume live_table live_files s"
    "init_name s = cstr ''init''" "kbd s = ?keys" by (rule volume_start) (rule that)
  have m: "mounted live_env live_table 224 s"
    by (rule volume_mounted [OF s(2) live_files_ok]) (simp add: live_table_def)
  have name: "terminated (init_name s)" "cval (init_name s) = lit ''init''" by (simp_all add: s(3) cval_cstr of_char_def terminated_cstr)
  have shown: "sessions_text (run_answer live_which live_env 224 s 4 [] (cval (init_name s))) live_series = Some live_screen"
    unfolding name(2) by (rule live_text [OF s(2)])
  have "kbd s = ?keys @ []" using s(4) by simp
  from system_serves_sessions [OF booting_keyboard [OF zero_state_booting] s(1) m live_identified [OF s(2)] live_fresh_ok
      name(1) shown this]
  show ?thesis using s(1) by (auto simp del: world.simps)
qed

end
