(* ===== verification/Call_Block.thy ===== *)
theory Call_Block
  imports Shell_Commands
begin

text \<open>
  The block of 576 bytes that a system call exchanges, as the structures of include/sysdef.h through which the library and
  the kernel look at it, and what follows for the calls: the arguments that a stub of the library stores are those the
  kernel's function is called with.
\<close>

section \<open>The structures\<close>

text \<open>\<open>fd\<close> is an \<open>int\<close>: here its 32 bits.\<close>

record SYSCALL_STREAM_METADATA =
  m_size :: u32
  m_fd :: u32
  m_offset :: u32

record SYSCALL_STREAM =
  st_data :: "byte list"
  st_metadata :: SYSCALL_STREAM_METADATA

record SYSCALL_STD =
  std_data :: "byte list"
  std_metadata :: "byte list"

record SYSCALL_FILE_ENTRY_METADATA =
  files_read :: u32

record SYSCALL_FILEIO =
  io_fd :: u32
  io_count :: u32
  io_buf :: "byte list"
  io_pad :: "byte list"

definition metadata_bytes :: "SYSCALL_STREAM_METADATA \<Rightarrow> byte list" where
  "metadata_bytes m = bytes32 (m_size m) @ bytes32 (m_fd m) @ bytes32 (m_offset m)"

definition metadata_of :: "byte list \<Rightarrow> SYSCALL_STREAM_METADATA" where
  "metadata_of b = \<lparr>m_size = le32 (take 4 b), m_fd = le32 (take 4 (drop 4 b)), m_offset = le32 (take 4 (drop 8 b))\<rparr>"

definition stream_bytes :: "SYSCALL_STREAM \<Rightarrow> byte list" where
  "stream_bytes x = st_data x @ metadata_bytes (st_metadata x)"

definition stream_of :: "byte list \<Rightarrow> SYSCALL_STREAM" where
  "stream_of b = \<lparr>st_data = take 512 b, st_metadata = metadata_of (drop 512 b)\<rparr>"

definition std_of :: "byte list \<Rightarrow> SYSCALL_STD" where
  "std_of b = \<lparr>std_data = take 512 b, std_metadata = take 64 (drop 512 b)\<rparr>"

definition files_metadata_of :: "byte list \<Rightarrow> SYSCALL_FILE_ENTRY_METADATA" where
  "files_metadata_of b = \<lparr>files_read = le32 (take 4 b)\<rparr>"

definition fileio_bytes :: "SYSCALL_FILEIO \<Rightarrow> byte list" where
  "fileio_bytes x = bytes32 (io_fd x) @ bytes32 (io_count x) @ io_buf x @ io_pad x"

definition stream_wf :: "SYSCALL_STREAM \<Rightarrow> bool" where
  "stream_wf x \<longleftrightarrow> length (st_data x) = 512"

lemma stream_length: "stream_wf x \<Longrightarrow> length (stream_bytes x) = 524"
  by (simp add: stream_wf_def stream_bytes_def metadata_bytes_def)

lemma stream_of_wf: "524 \<le> length b \<Longrightarrow> stream_wf (stream_of b)"
  by (simp add: stream_wf_def stream_of_def)

lemma stream_of_bytes: "stream_wf x \<Longrightarrow> stream_of (stream_bytes x @ r) = x"
  by (simp add: stream_wf_def stream_of_def stream_bytes_def metadata_bytes_def metadata_of_def)

lemma stream_bytes_of:
  assumes "524 \<le> length b"
  shows "stream_bytes (stream_of b) = take 524 b"
proof -
  have w: "bytes32 (le32 (take 4 (drop i b))) = take 4 (drop i b)" if "i \<le> 520" for i
    using that assms by (intro bytes32_le32) simp
  have "take 524 b = take 512 b @ take 12 (drop 512 b)" "take 12 (drop 512 b) = take 4 (drop 512 b) @ take 8 (drop 516 b)"
    "take 8 (drop 516 b) = take 4 (drop 516 b) @ take 4 (drop 520 b)"
    using take_add [of 512 12 b] take_add [of 4 8 "drop 512 b"] take_add [of 4 4 "drop 516 b"] by simp_all
  then show ?thesis by (simp add: stream_bytes_def metadata_bytes_def stream_of_def metadata_of_def w)
qed

text \<open>The structure \<open>SYSCALL_FILEIO\<close>, which nothing uses, would not fit into the block.\<close>

lemma fileio_exceeds_block:
  "length (io_buf x) = 508 \<Longrightarrow> length (io_pad x) = 64 \<Longrightarrow> length (fileio_bytes x) = 580"
  by (simp add: fileio_bytes_def)

section \<open>Both sides look at the block through them\<close>

text \<open>The kernel's side.\<close>

lemma block_members:
  "md_size s = m_size (st_metadata (stream_of (params s)))" "md_fd s = sint (m_fd (st_metadata (stream_of (params s))))"
  "md_offset s = m_offset (st_metadata (stream_of (params s)))"
  by (simp_all add: md_size_def md_fd_def md_offset_def stream_of_def metadata_of_def)

text \<open>The library's side, for the answer of system call 9.\<close>

lemma block_files_read: "le32 (take 4 (drop 512 b)) = files_read (files_metadata_of (std_metadata (std_of b)))"
  by (simp add: files_metadata_of_def std_of_def)

text \<open>A store through the structure, into a block.\<close>

definition over_stream :: "SYSCALL_STREAM \<Rightarrow> byte list \<Rightarrow> byte list" where
  "over_stream x b = stream_bytes x @ drop 524 b"

lemma over_stream:
  assumes "stream_wf x" "length b = 576"
  shows "length (over_stream x b) = 576" "stream_of (over_stream x b) = x" "over_stream y (over_stream x b) = over_stream y b"
    "take 512 (over_stream x b) = st_data x"
  using assms stream_length [OF assms(1)] stream_of_bytes [OF assms(1)]
  by (simp_all add: over_stream_def) (simp add: stream_bytes_def stream_wf_def)

lemma over_stream_self: "length b = 576 \<Longrightarrow> over_stream (stream_of b) b = b"
  by (simp add: over_stream_def stream_bytes_of)

lemma store_member:
  assumes "stream_wf x" "length b = 576"
  shows "store (over_stream x b) 512 (bytes32 w) = Inr (over_stream (x\<lparr>st_metadata := (st_metadata x)\<lparr>m_size := w\<rparr>\<rparr>) b)"
    and "store (over_stream x b) 516 (bytes32 w) = Inr (over_stream (x\<lparr>st_metadata := (st_metadata x)\<lparr>m_fd := w\<rparr>\<rparr>) b)"
    and "store (over_stream x b) 520 (bytes32 w) = Inr (over_stream (x\<lparr>st_metadata := (st_metadata x)\<lparr>m_offset := w\<rparr>\<rparr>) b)"
  using assms by (simp_all add: store_def over_stream_def stream_bytes_def metadata_bytes_def stream_wf_def)

section \<open>From the stubs to the kernel's functions\<close>

text \<open>The kernel as it is entered when the structure \<open>x\<close> has been stored into the block, and what the library takes from
  it: the kernel's state, and the block as it has become.\<close>

definition sent :: "SYSCALL_STREAM \<Rightarrow> ustate \<Rightarrow> kstate" where
  "sent x u = (kern u)\<lparr>params := over_stream x (sysparam u)\<rparr>"

definition reply :: "ustate \<Rightarrow> kstate run \<Rightarrow> ustate run" where
  "reply u m = obind m (\<lambda>s. obind (Some (fetch (params s) 0 576)) (\<lambda>b. ret (u\<lparr>sysparam := b, kern := s\<rparr>)))"

text \<open>A member stored.\<close>

definition with_fd :: "int \<Rightarrow> SYSCALL_STREAM \<Rightarrow> SYSCALL_STREAM" where
  "with_fd fd x = x\<lparr>st_metadata := (st_metadata x)\<lparr>m_fd := word_of_int fd\<rparr>\<rparr>"

definition with_size :: "u32 \<Rightarrow> SYSCALL_STREAM \<Rightarrow> SYSCALL_STREAM" where
  "with_size n x = x\<lparr>st_metadata := (st_metadata x)\<lparr>m_size := n\<rparr>\<rparr>"

definition with_offset :: "u32 \<Rightarrow> SYSCALL_STREAM \<Rightarrow> SYSCALL_STREAM" where
  "with_offset n x = x\<lparr>st_metadata := (st_metadata x)\<lparr>m_offset := n\<rparr>\<rparr>"

definition with_data :: "byte list \<Rightarrow> SYSCALL_STREAM \<Rightarrow> SYSCALL_STREAM" where
  "with_data b x = x\<lparr>st_data := b @ drop (length b) (st_data x)\<rparr>"

lemma with_wf [simp]:
  "stream_wf (with_fd fd x) = stream_wf x" "stream_wf (with_size n x) = stream_wf x" "stream_wf (with_offset n x) = stream_wf x"
  "length b \<le> 512 \<Longrightarrow> stream_wf x \<Longrightarrow> stream_wf (with_data b x)"
  by (simp_all add: stream_wf_def with_fd_def with_size_def with_offset_def with_data_def)

lemma with_members [simp]:
  "m_fd (st_metadata (with_fd fd x)) = word_of_int fd" "m_size (st_metadata (with_fd fd x)) = m_size (st_metadata x)"
  "m_fd (st_metadata (with_size n x)) = m_fd (st_metadata x)" "m_size (st_metadata (with_size n x)) = n"
  "m_fd (st_metadata (with_offset n x)) = m_fd (st_metadata x)" "m_offset (st_metadata (with_offset n x)) = n"
  "st_metadata (with_data b x) = st_metadata x"
  by (simp_all add: with_fd_def with_size_def with_offset_def with_data_def)

lemma put_member:
  assumes "length (sysparam u) = 576" "stream_wf x"
  shows "put_sysparam 516 (bytes32 (word_of_int fd)) (u\<lparr>sysparam := over_stream x (sysparam u)\<rparr>)
      = Inr (u\<lparr>sysparam := over_stream (with_fd fd x) (sysparam u)\<rparr>)"
    and "put_sysparam 512 (bytes32 n) (u\<lparr>sysparam := over_stream x (sysparam u)\<rparr>)
      = Inr (u\<lparr>sysparam := over_stream (with_size n x) (sysparam u)\<rparr>)"
    and "put_sysparam 520 (bytes32 n) (u\<lparr>sysparam := over_stream x (sysparam u)\<rparr>)
      = Inr (u\<lparr>sysparam := over_stream (with_offset n x) (sysparam u)\<rparr>)"
  using store_member [OF assms(2,1)] by (simp_all add: put_sysparam_def with_fd_def with_size_def with_offset_def)

lemma copy_data:
  assumes "length (sysparam u) = 576" "stream_wf x" "n \<le> 512" "n \<le> length src"
  shows "copy_sysparam src (int n) (u\<lparr>sysparam := over_stream x (sysparam u)\<rparr>)
    = Inr (u\<lparr>sysparam := over_stream (with_data (take n src) x) (sysparam u)\<rparr>)"
  using assms over_stream(1) [OF assms(2,1)]
  by (simp add: copy_sysparam_def memcpy_eq min_def)
    (simp add: over_stream_def stream_bytes_def stream_wf_def with_data_def min_def)

lemma syscall_reply:
  assumes "length (sysparam u) = 576" "stream_wf x"
  shows "user_syscall fc e i (u\<lparr>sysparam := over_stream x (sysparam u)\<rparr>) = reply u (dispatch fc e i (sent x u))"
  using over_stream(1) [OF assms(2,1)] by (simp add: user_syscall_def reply_def sent_def)

lemma sent_members:
  assumes "length (sysparam u) = 576" "stream_wf x"
  shows "md_fd (sent x u) = sint (m_fd (st_metadata x))" "md_size (sent x u) = m_size (st_metadata x)"
    "md_offset (sent x u) = m_offset (st_metadata x)" "take 512 (params (sent x u)) = st_data x"
    "get_running_proc (sent x u) = get_running_proc (kern u)"
  using over_stream [OF assms(2,1)] by (simp_all add: block_members sent_def get_running_proc_def)

lemma sysparam_self: "length (sysparam u) = 576 \<Longrightarrow> u\<lparr>sysparam := over_stream (stream_of (sysparam u)) (sysparam u)\<rparr> = u"
  by (simp add: over_stream_self)

lemma sint_u32_of_int: "- (2 ^ 31) \<le> i \<Longrightarrow> i < 2 ^ 31 \<Longrightarrow> sint (word_of_int i :: u32) = i"
  by (simp add: sint_sbintrunc' signed_take_bit_int_eq_self)

lemma stub_calls:
  assumes l: "length (sysparam u) = 576" and fd: "- (2 ^ 31) \<le> fd" "fd < 2 ^ 31"
  defines "x \<equiv> stream_of (sysparam u)" and "pid \<equiv> get_running_proc (kern u)"
  shows "myclose fc e fd u = reply u (no_value (close_fd fd pid (sent (with_fd fd x) u)))"
    and "mylseek fc e fd off u = reply u (no_value (lseek fd off 0 pid (sent (with_offset off (with_fd fd x)) u)))"
    and "myread fc e fd buf count u = obind (reply u (read_params e fd count pid (sent (with_size count (with_fd fd x)) u)))
      (\<lambda>w. obind (Some (memcpy buf (sysparam w) (sint count))) (\<lambda>buf. ret (buf, w)))"
    and "unat count \<le> 512 \<Longrightarrow> unat count \<le> length buf \<Longrightarrow>
      mywrite fc e fd buf count u = (let s = sent (with_data (take (unat count) buf) (with_size count (with_fd fd x))) u in
        reply u (no_value (write_fd fd (params s) count pid s)))"
proof -
  have x: "stream_wf x" using l by (simp add: x_def stream_of_wf)
  have self: "u\<lparr>sysparam := over_stream x (sysparam u)\<rparr> = u" unfolding x_def by (rule sysparam_self [OF l])
  have put: "put_sysparam 516 (bytes32 (word_of_int fd)) u = Inr (u\<lparr>sysparam := over_stream (with_fd fd x) (sysparam u)\<rparr>)"
    using put_member(1) [OF l x, of fd] by (simp only: self)
  have wf: "stream_wf (with_fd fd x)" using x by simp
  note put2 = put_member(2,3) [OF l wf]
  note i = sint_u32_of_int [OF fd]
  show "myclose fc e fd u = reply u (no_value (close_fd fd pid (sent (with_fd fd x) u)))"
    using sent_members [OF l wf] i
    by (simp add: myclose_def put syscall_reply [OF l wf] dispatch_def service_call_def Let_def pid_def)
  have "stream_wf (with_offset off (with_fd fd x))" using x by simp
  then show "mylseek fc e fd off u = reply u (no_value (lseek fd off 0 pid (sent (with_offset off (with_fd fd x)) u)))"
    using sent_members [OF l] i
    by (simp add: mylseek_def put put2 syscall_reply [OF l] dispatch_def service_call_def Let_def pid_def)
  have ws: "stream_wf (with_size count (with_fd fd x))" using x by simp
  then show "myread fc e fd buf count u = obind (reply u (read_params e fd count pid (sent (with_size count (with_fd fd x)) u)))
      (\<lambda>w. obind (Some (memcpy buf (sysparam w) (sint count))) (\<lambda>buf. ret (buf, w)))"
    using sent_members [OF l ws] i
    by (simp add: myread_def put put2 syscall_reply [OF l] dispatch_def service_call_def Let_def pid_def)
  assume c: "unat count \<le> 512" "unat count \<le> length buf"
  have n: "sint count = int (unat count)"
    using sint_u32_of_nat [of "unat count"] c(1) by simp
  let ?y = "with_data (take (unat count) buf) (with_size count (with_fd fd x))"
  have y: "stream_wf ?y" using x c by simp
  have copy: "copy_sysparam buf (sint count) (u\<lparr>sysparam := over_stream (with_size count (with_fd fd x)) (sysparam u)\<rparr>)
      = Inr (u\<lparr>sysparam := over_stream ?y (sysparam u)\<rparr>)"
    unfolding n by (rule copy_data [OF l ws c])
  show "mywrite fc e fd buf count u = (let s = sent ?y u in reply u (no_value (write_fd fd (params s) count pid s)))"
    using sent_members [OF l y] i c
    by (simp add: mywrite_def put put2 copy syscall_reply [OF l y] dispatch_def service_call_def Let_def pid_def)
qed

text \<open>\<open>myopen\<close>: the name goes in \<open>data\<close>, over what it held and without its NUL, and the descriptor comes back in \<open>fd\<close>.\<close>

lemma myopen_calls:
  assumes l: "length (sysparam u) = 576" and name: "strlen pathname = Inr n" "n \<le> 512"
  defines "s \<equiv> sent (with_data (take n pathname) (stream_of (sysparam u))) u"
  assumes r: "open_fd (params s) 0 (get_running_proc (kern u)) s = Inr (fd, s')" "length (params s') = 576"
    and fd: "- (2 ^ 31) \<le> fd" "fd < 2 ^ 31"
  shows "myopen fc e pathname u = ret (fd, u\<lparr>sysparam := over_stream (with_fd fd (stream_of (params s'))) (params s'),
    kern := s'\<lparr>params := over_stream (with_fd fd (stream_of (params s'))) (params s')\<rparr>\<rparr>)"
proof -
  let ?x = "stream_of (sysparam u)" and ?z = "stream_of (params s')"
  have x: "stream_wf ?x" and z: "stream_wf ?z" using l r(2) by (simp_all add: stream_of_wf)
  have n: "n \<le> length pathname" using name(1) length_takeWhile_le by (auto simp: strlen_eq cval_def split: if_splits)
  have y: "stream_wf (with_data (take n pathname) ?x)" using x name(2) by simp
  have copy: "copy_sysparam pathname (int n) u = Inr (u\<lparr>sysparam := over_stream (with_data (take n pathname) ?x) (sysparam u)\<rparr>)"
    using copy_data [OF l x name(2) n] by (simp only: sysparam_self [OF l])
  have put: "put_params 516 (bytes32 (word_of_int fd)) s' = Inr (s'\<lparr>params := over_stream (with_fd fd ?z) (params s')\<rparr>)"
    using store_member(2) [OF z r(2), of "word_of_int fd"] over_stream_self [OF r(2)] by (simp add: put_params_def with_fd_def)
  have wz: "stream_wf (with_fd fd ?z)" using z by simp
  have ret_fd: "sint (le32 (take 4 (drop 516 (over_stream (with_fd fd ?z) (params s'))))) = fd"
    using over_stream(2) [OF wz r(2)] sint_u32_of_int [OF fd] block_members(2) [of "s'\<lparr>params := over_stream (with_fd fd ?z) (params s')\<rparr>"]
    by (simp add: md_fd_def)
  have "dispatch fc e 10 s = ret (s'\<lparr>params := over_stream (with_fd fd ?z) (params s')\<rparr>)"
    using r(1) put sent_members(5) [OF l y] by (simp add: dispatch_def service_call_def Let_def s_def)
  then have "user_syscall fc e 10 (u\<lparr>sysparam := over_stream (with_data (take n pathname) ?x) (sysparam u)\<rparr>)
      = ret (u\<lparr>sysparam := over_stream (with_fd fd ?z) (params s'), kern := s'\<lparr>params := over_stream (with_fd fd ?z) (params s')\<rparr>\<rparr>)"
    using over_stream(1) [OF wz r(2)] by (simp add: syscall_reply [OF l y] reply_def s_def)
  then show ?thesis using name(1) copy ret_fd by (simp add: myopen_def)
qed

section \<open>Properties\<close>

text \<open>C14: the stubs of the library and the handlers of the kernel agree on the block: closing, seeking, reading and writing
  from a program is the kernel's function, for the running process, on the arguments the program gave, with
  the block as its buffer; the stub returns when it does, with the kernel and the block as it leaves them, and a read copies the
  block's data to the caller.\<close>

theorem stubs_call_kernel:
  assumes "length (sysparam u) = 576" "- (2 ^ 31) \<le> fd" "fd < 2 ^ 31" "unat count \<le> 512" "unat count \<le> length buf"
  shows "let x = with_fd fd (stream_of (sysparam u)); pid = get_running_proc (kern u) in
      myclose fc e fd u = reply u (no_value (close_fd fd pid (sent x u)))
    \<and> mylseek fc e fd off u = reply u (no_value (lseek fd off 0 pid (sent (with_offset off x) u)))
    \<and> myread fc e fd buf count u = obind (reply u (read_params e fd count pid (sent (with_size count x) u)))
        (\<lambda>w. obind (Some (memcpy buf (sysparam w) (sint count))) (\<lambda>buf. ret (buf, w)))
    \<and> mywrite fc e fd buf count u = (let s = sent (with_data (take (unat count) buf) (with_size count x)) u in
        reply u (no_value (write_fd fd (params s) count pid s)))"
  unfolding Let_def
  by (intro conjI stub_calls [OF assms(1-3)] stub_calls(4) [OF assms, unfolded Let_def])

text \<open>Two bytes written to the screen, and a seek on a descriptor that is not open.\<close>

theorem stubs_call_kernel_witness:
  "let u = sample_user []; x = with_fd 1 (stream_of (sysparam u)) in
     mywrite (\<lambda>_. ret) sample_env 1 (lit ''ok'') 2 u = (let s = sent (with_data (lit ''ok'') (with_size 2 x)) u in
       reply u (no_value (write_fd 1 (params s) 2 (get_running_proc (kern u)) s)))
   \<and> mylseek (\<lambda>_. ret) sample_env 1 512 u = reply u (no_value (lseek 1 512 0 (get_running_proc (kern u)) (sent (with_offset 512 x) u)))"
  using stubs_call_kernel [of "sample_user []" 1 2 "lit ''ok''" "\<lambda>_. ret" sample_env 512]
  by (simp add: sample_user_def Let_def)

end
