(* ===== verification/Direct_Calls.thy ===== *)
theory Direct_Calls
  imports Served_Lines
begin

text \<open>
  The functions no other code calls: the library's direct calls of the BIOS (arch/8088/kernel/io.c), \<open>load_program\<close> and
  \<open>uname\<close> of kernel/kernel.c, \<open>print_fs_params\<close> of fs/msdos/fs.c.  What an interrupt does that is not served by this
  code is a parameter.
\<close>

section \<open>Direct calls of the library\<close>

text \<open>\<open>int_0a ah al\<close> is what interrupt 0Ah does.\<close>

definition dputchar :: "(byte \<Rightarrow> byte \<Rightarrow> kstate \<Rightarrow> kstate) \<Rightarrow> byte \<Rightarrow> ustate \<Rightarrow> ustate" where
  "dputchar int_0a c u = u\<lparr>kern := int_0a 0x0E c (kern u)\<rparr>"

function dprintstr_loop :: "(byte \<Rightarrow> byte \<Rightarrow> kstate \<Rightarrow> kstate) \<Rightarrow> nat \<Rightarrow> ustate \<Rightarrow> ustate res" where
  "dprintstr_loop int_0a i u =
     rbind (load_byte (sysparam u) i) (\<lambda>c.
     if c \<noteq> 0 then dprintstr_loop int_0a (Suc i) (dputchar int_0a c u) else Inr u)"
  by pat_completeness auto
termination
  by (relation "measure (\<lambda>(int_0a, i, u). length (sysparam u) - i)") (auto simp: dputchar_def dest!: load_byte_InrD)

declare dprintstr_loop.simps [simp del]

definition dprintstr :: "(byte \<Rightarrow> byte \<Rightarrow> kstate \<Rightarrow> kstate) \<Rightarrow> byte list \<Rightarrow> ustate \<Rightarrow> ustate res" where
  "dprintstr int_0a string u = rbind (copy_sysparam string 512 u) (\<lambda>u. dprintstr_loop int_0a 0 u)"

text \<open>The key is taken from the BIOS, past the kernel's descriptors; without one the loop goes on.\<close>

definition dgetchar :: "ustate \<Rightarrow> (byte \<times> ustate) run" where
  "dgetchar u = obind (b_getchar (kern u)) (\<lambda>(temp, s). ret (temp, u\<lparr>kern := s\<rparr>))"

section \<open>Uncalled functions of the kernel\<close>

text \<open>\<open>int_13 al cx dx es bx\<close>: the disk service, here with any number of sectors and any place.\<close>

definition load_program ::
    "(byte \<Rightarrow> byte \<times> byte \<Rightarrow> byte \<times> byte \<Rightarrow> u16 \<Rightarrow> u16 \<Rightarrow> kstate \<Rightarrow> kstate) \<Rightarrow>
     u32 \<Rightarrow> int \<Rightarrow> byte \<Rightarrow> byte \<Rightarrow> byte \<Rightarrow> byte \<Rightarrow> byte \<Rightarrow> kstate \<Rightarrow> kstate" where
  "load_program int_13 segment prog_offset num_sectors cylinder sector head drive s =
     int_13 num_sectors (cylinder, sector) (head, drive) (ucast segment) (word_of_int prog_offset) s"

definition uname :: "kstate \<Rightarrow> kstate" where
  "uname s = s"

definition print_fs_params :: "kstate \<Rightarrow> kstate" where
  "print_fs_params s = s"

section \<open>\<open>dprintstr\<close>\<close>

text \<open>The calls for a text, in order.\<close>

definition teletype :: "(byte \<Rightarrow> byte \<Rightarrow> kstate \<Rightarrow> kstate) \<Rightarrow> byte list \<Rightarrow> kstate \<Rightarrow> kstate" where
  "teletype int_0a t s = fold (int_0a 0x0E) t s"

lemma dprintstr_loop_eq:
  "terminated (drop i (sysparam u)) \<Longrightarrow>
   dprintstr_loop int_0a i u = Inr (u\<lparr>kern := teletype int_0a (cval (drop i (sysparam u))) (kern u)\<rparr>)"
proof (induction int_0a i u rule: dprintstr_loop.induct)
  case (1 int_0a i u)
  have i: "i < length (sysparam u)" using 1(2) by (cases "i < length (sysparam u)") (simp_all add: terminated_def)
  then have split: "drop i (sysparam u) = sysparam u ! i # drop (Suc i) (sysparam u)" by (rule drop_tail_cons)
  show ?case
  proof (cases "sysparam u ! i = 0")
    case True
    with i split show ?thesis
      by (subst dprintstr_loop.simps) (simp add: load_byte_def cval_Cons teletype_def)
  next
    case False
    have "terminated (drop (Suc i) (sysparam u))" using 1(2) False split by (simp add: terminated_Cons)
    with 1(1) [of "sysparam u ! i"] False i
    have "dprintstr_loop int_0a (Suc i) (dputchar int_0a (sysparam u ! i) u)
        = Inr (u\<lparr>kern := teletype int_0a (sysparam u ! i # cval (drop (Suc i) (sysparam u))) (kern u)\<rparr>)"
      by (simp add: load_byte_def dputchar_def teletype_def)
    with False i split show ?thesis
      by (subst dprintstr_loop.simps) (simp add: load_byte_def cval_Cons)
  qed
qed

lemma cval_append: "terminated a \<Longrightarrow> cval (a @ b) = cval a"
  by (induction a) (auto simp: cval_Cons terminated_Cons)

lemma memcpy_loop_short:
  "\<lbrakk>i \<le> length src; length src < m; m \<le> length dst\<rbrakk> \<Longrightarrow> memcpy_loop dst src (int m) i = Inl ReadPast"
proof (induction "length src - i" arbitrary: dst i)
  case 0
  then show ?case by (subst memcpy_loop.simps) (simp add: load_byte_def)
next
  case (Suc d)
  then have i: "i < length src" by simp
  have "memcpy_loop (dst[i := src ! i]) src (int m) (Suc i) = Inl ReadPast"
    using Suc.hyps(2) Suc.prems i by (intro Suc.hyps(1)) simp_all
  with i Suc.prems show ?case
    by (subst memcpy_loop.simps) (simp add: load_byte_def store_byte_def)
qed

text \<open>\<open>dprintstr\<close> copies 512 bytes whatever the string's length: with so many readable and a NUL among them, it makes
  one call per character, in order; with fewer it reads past the string.  Without a NUL it goes on into
  the last 64 bytes of the block.\<close>

theorem dprintstr_correct:
  assumes "length (sysparam u) = 576"
  shows "length string < 512 \<Longrightarrow> dprintstr int_0a string u = Inl ReadPast"
    and "512 \<le> length string \<Longrightarrow> terminated (take 512 string) \<Longrightarrow>
      dprintstr int_0a string u = Inr (u\<lparr>sysparam := take 512 string @ drop 512 (sysparam u), kern := teletype int_0a (cval string) (kern u)\<rparr>)"
proof -
  show "dprintstr int_0a string u = Inl ReadPast" if "length string < 512"
    using memcpy_loop_short [of 0 string 512 "sysparam u"] that assms by (simp add: dprintstr_def copy_sysparam_def memcpy_def)
  assume s: "512 \<le> length string" "terminated (take 512 string)"
  let ?p = "take 512 string @ drop 512 (sysparam u)"
  have copy: "copy_sysparam string 512 u = Inr (u\<lparr>sysparam := ?p\<rparr>)"
    using memcpy_eq [of 512 string "sysparam u"] s(1) assms by (simp add: copy_sysparam_def)
  have "cval ?p = cval (take 512 string @ drop 512 string)" using s(2) by (simp only: cval_append)
  then have t: "terminated ?p" "cval ?p = cval string" using s(2) by (simp_all add: terminated_def)
  with dprintstr_loop_eq [of 0 "u\<lparr>sysparam := ?p\<rparr>" int_0a]
  show "dprintstr int_0a string u = Inr (u\<lparr>sysparam := ?p, kern := teletype int_0a (cval string) (kern u)\<rparr>)"
    by (simp add: dprintstr_def copy)
qed

end
