(* ===== verification/Fat_Print.thy ===== *)
theory Fat_Print
  imports Fat_Dir
begin

text \<open>
  The functions of fs/msdos/fs.c that show a volume on the screen or read its tables whole: \<open>print_file\<close>, \<open>list_files\<close>,
  \<open>read_fat\<close> and \<open>read_root_dir\<close>.
\<close>

section \<open>\<open>print_file\<close>\<close>

lemma shown_vol [simp]:
  "vol_ok e es (shown t s) = vol_ok e es s" "cluster_ok es (shown t s) c = cluster_ok es s c"
  "cluster_bytes e (shown t s) = cluster_bytes e s"
  by (simp_all add: vol_ok_def fds_ready_def cluster_size_def bs_sector_size_def bs_sectors_per_cluster_def cluster_ok_def
      cluster_bytes_def cluster_pos_def fun_eq_iff)

lemma seek_state_shown: "seek_state p n (shown t s) = shown t (seek_state p n s)"
  by (simp add: seek_state_def shown_def)

lemma vol_ok_fds: "vol_ok e es s \<Longrightarrow> length (fd_list s) = 5"
  by (simp add: vol_ok_def fds_ready_def)

lemma print_file_loop_step:
  assumes v: "vol_ok e es s" "cluster_ok es s (unat c)" and b: "length buf = 4097"
  shows "\<exists>p. print_file_loop e buf c s =
    (let t = cluster_bytes e s (unat c); s' = shown (cval (t @ [0])) (seek_state p 2 s); n = ucast (es ! unat c)
     in if n < 0x0FF8 then print_file_loop e (t @ [0]) n s' else ret s')"
proof -
  let ?t = "cluster_bytes e s (unat c)"
  obtain p where p: "read_cluster e buf c s = ret (?t @ drop 4096 buf, seek_state p 4096 s)"
    using read_cluster_eq [OF v, of buf] b by auto
  obtain x where x: "drop 4096 buf = [x]"
  proof -
    have "length (drop 4096 buf) = 1" using b by simp
    then show thesis using that by (metis One_nat_def length_0_conv length_Suc_conv)
  qed
  have st: "store_byte (?t @ [x]) 4096 0 = Inr (?t @ [0])" by (simp add: list_update_append)
  have pr: "printk (?t @ [0]) s' = Inr (shown (cval (?t @ [0])) s')" for s'
    by (rule printk_eq) (simp_all add: terminated_def)
  obtain q where q: "get_next_cluster e c (shown (cval (?t @ [0])) (seek_state p 4096 s))
      = ret (ucast (es ! unat c), seek_state q 2 (shown (cval (?t @ [0])) (seek_state p 4096 s)))"
    using next_cluster_eq [of e es "shown (cval (?t @ [0])) (seek_state p 4096 s)" c] v by auto
  have "seek_state q 2 (shown (cval (?t @ [0])) (seek_state p 4096 s)) = shown (cval (?t @ [0])) (seek_state q 2 s)"
    using vol_ok_fds [OF v(1)] by (simp add: seek_state_shown)
  with p x st pr q show ?thesis
    by (intro exI [of _ q], subst print_file_loop.simps) (simp add: Let_def)
qed

text \<open>What is shown of a cluster: its bytes up to the first zero.\<close>

definition cluster_text :: "env \<Rightarrow> kstate \<Rightarrow> nat \<Rightarrow> byte list" where
  "cluster_text e s c = cval (cluster_bytes e s c @ [0])"

lemma cluster_text_stable [simp]:
  "cluster_text e (shown t s) = cluster_text e s" "cluster_text e (seek_state p n s) = cluster_text e s"
  by (simp_all add: cluster_text_def fun_eq_iff)

lemma print_file_loop_chain:
  "\<lbrakk>vol_ok e es s; chain es (c # cs); \<forall>d\<in>set (c # cs). cluster_ok es s d; length buf = 4097\<rbrakk> \<Longrightarrow>
   \<exists>p. print_file_loop e buf (of_nat c) s = ret (shown (concat (map (cluster_text e s) (c # cs))) (seek_state p 2 s))"
proof (induction cs arbitrary: c s buf)
  case (Nil c s buf)
  then have u: "unat (of_nat c :: u32) = c" by (intro unat_u32_of_nat) (auto simp: cluster_ok_def)
  from print_file_loop_step [of e es s "of_nat c" buf] Nil u show ?case
    by (auto simp: Let_def entry_end cluster_text_def)
next
  case (Cons d cs c s buf)
  then have u: "unat (of_nat c :: u32) = c" by (intro unat_u32_of_nat) (auto simp: cluster_ok_def)
  have d: "(ucast (es ! c) :: u32) = of_nat d" "(ucast (es ! c) :: u32) < 0x0FF8"
    using Cons.prems(2) unat_entry [of "es ! c"] entry_end [of "es ! c"] by (auto simp: word_unat_eq_iff)
  let ?s = "\<lambda>p. shown (cluster_text e s c) (seek_state p 2 s)"
  obtain p where p: "print_file_loop e buf (of_nat c) s = print_file_loop e (cluster_bytes e s c @ [0]) (of_nat d) (?s p)"
    using print_file_loop_step [of e es s "of_nat c" buf] Cons.prems u d by (auto simp: Let_def cluster_text_def)
  obtain q where q: "print_file_loop e (cluster_bytes e s c @ [0]) (of_nat d) (?s p)
      = ret (shown (concat (map (cluster_text e (?s p)) (d # cs))) (seek_state q 2 (?s p)))"
    using Cons.IH [of "?s p" d "cluster_bytes e s c @ [0]"] Cons.prems by auto
  show ?case
    unfolding p q using vol_ok_fds [OF Cons.prems(1)] by (intro exI [of _ q]) (simp add: seek_state_shown)
qed

text \<open>C37: printing a file whose clusters the code can read and follow (none starts in the last sector of a track) ends, and shows each
  cluster of its chain, from its own place on the disk, up to its first zero byte (whatever the size of the file), then \<open>EOF\<close> on a line
  of its own; nothing else changes but the position of the disk's descriptor.\<close>

theorem print_file_correct:
  assumes "vol_ok e es s" "length (junk_clust_buf e) = 4096" "unat (starting_cluster f) = c"
    and "chain es (c # cs)" "\<forall>d\<in>set (c # cs). cluster_ok es s d"
  shows "\<exists>p. print_file e f s = ret (shown (concat (map (cluster_text e s) (c # cs)) @ [13, 10] @ lit ''EOF'' @ [13, 10])
    (seek_state p 2 s))"
proof -
  have c: "(ucast (starting_cluster f) :: u32) = of_nat c"
    unfolding assms(3) [symmetric] by (simp add: word_unat_eq_iff unsigned_ucast_eq unsigned_of_nat)
  have "length (junk_clust_buf e @ [0]) = 4097" using assms(2) by simp
  from print_file_loop_chain [OF assms(1,4,5) this] obtain p where
    p: "print_file_loop e (junk_clust_buf e @ [0]) (of_nat c) s = ret (shown (concat (map (cluster_text e s) (c # cs))) (seek_state p 2 s))"
    by blast
  have "printk ([13, 10] @ lit ''EOF'' @ [13, 10, 0]) s' = Inr (shown ([13, 10] @ lit ''EOF'' @ [13, 10]) s')" for s'
    using printk_lit [of "[13, 10] @ lit ''EOF'' @ [13, 10]" s'] by (simp add: of_char_def)
  then show ?thesis unfolding print_file_def c p by (intro exI [of _ p]) simp
qed

lemma sample_cluster_text:
  assumes "16896 \<le> p" "p + n \<le> 25088"
  shows "0 \<notin> set (disk_bytes two_env 1 p n)"
proof
  assume "0 \<in> set (disk_bytes two_env 1 p n)"
  moreover have "disk_bytes two_env 1 p n = map (\<lambda>k. sample_image (fat12_bytes two_clusters) (p + k)) [0..<n]"
    using assms(2) by (auto simp: image_disk_bytes intro!: nth_equalityI)
  ultimately obtain k where k: "k < n" "sample_image (fat12_bytes two_clusters) (p + k) = 0" by auto
  define l where "l = (p + k) div 512"
  have "16896 div 512 \<le> l" "l \<le> 25087 div 512" unfolding l_def using assms k(1) by (intro div_le_mono; simp)+
  then have l: "33 \<le> l" "l \<le> 48" by simp_all
  have "sample_image (fat12_bytes two_clusters) (p + k) = of_nat l"
    using assms k(1) by (simp add: sample_image_def l_def)
  moreover have "unat (of_nat l :: byte) = l" using l by (intro unat_byte_of_nat) simp
  ultimately show False using k(2) l by auto
qed

theorem print_file_correct_witness:
  "\<exists>p. print_file two_env (ls_entry\<lparr>starting_cluster := 2\<rparr>) (volume_state (fat12_bytes two_clusters)) =
     ret (shown (disk_bytes two_env 1 16896 8192 @ [13, 10] @ lit ''EOF'' @ [13, 10]) (seek_state p 2 (volume_state (fat12_bytes two_clusters))))"
proof -
  let ?s = "volume_state (fat12_bytes two_clusters)" and ?f = "ls_entry\<lparr>starting_cluster := 2\<rparr>"
  have "\<exists>p. print_file two_env ?f ?s = ret (shown (concat (map (cluster_text two_env ?s) [2, 3]) @ [13, 10] @ lit ''EOF'' @ [13, 10]) (seek_state p 2 ?s))"
    by (rule print_file_correct)
       (use sample_vol_ok(1) sample_cluster_ok [of two_clusters] in \<open>auto simp: two_clusters_def\<close>)
  moreover have "cluster_text two_env ?s 2 = disk_bytes two_env 1 16896 4096" "cluster_text two_env ?s 3 = disk_bytes two_env 1 20992 4096"
    using sample_cluster_text [of 16896 4096] sample_cluster_text [of 20992 4096]
    by (simp_all add: cluster_text_def cluster_bytes_def cluster_pos_def cval_append_NUL)
  ultimately show ?thesis
    using disk_bytes_append [of two_env 1 16896 4096 4096, symmetric] by simp
qed

section \<open>\<open>list_files\<close>\<close>

lemma print_name_eq:
  assumes "terminated name" "terminated fext" "terminated post" "length name < 1000" "length fext < 1000" "length post < 1000"
  shows "print_name name fext post s = Inr (shown (cval name @ lit ''.'' @ cval fext @ cval post) s)"
proof -
  have p: "printk b s' = Inr (shown (cval b) s')" if "terminated b" "length b < 1000" for b s'
    using that by (intro printk_eq) simp_all
  show ?thesis
    unfolding print_name_def using assms by (simp add: p printk_cstr of_char_def)
qed

text \<open>The entries up to the first free one, each file with its name and extension.\<close>

fun listed_text :: "Fat16Entry list \<Rightarrow> byte list" where
  "listed_text [] = []"
| "listed_text (f # fs) =
     (if is_file f then field_text (filename f) @ lit ''.'' @ field_text (ext f) @ lit ''   '' @ listed_text fs else listed_text fs)"

lemma list_files_loop_eq:
  "\<lbrakk>i + n \<le> length files; \<forall>f\<in>set files. entry_wf f \<and> (is_file f \<longrightarrow> names_ok f); length name = 9; length fext = 4\<rbrakk> \<Longrightarrow>
   list_files_loop files i n name fext s = ret (shown (listed_text (take n (drop i files))) s)"
proof (induction n arbitrary: i name fext s)
  case (Suc n)
  have i: "i < length files" using Suc.prems(1) by simp
  let ?f = "files ! i"
  have d: "take (Suc n) (drop i files) = ?f # take n (drop (Suc i) files)" using drop_tail_cons [OF i] by simp
  show ?case
  proof (cases "is_file ?f")
    case False
    with i Suc.IH [of "Suc i" name fext s] Suc.prems show ?thesis unfolding d by (simp add: is_file_def)
  next
    case True
    have w: "entry_wf ?f" "names_ok ?f" using Suc.prems(2) i True by auto
    obtain nm x where nx: "extract_file_name ?f name fext = ret (nm, x)" "length nm = 9" "length x = 4"
        "terminated nm" "cval nm = field_text (filename ?f)" "terminated x" "cval x = field_text (ext ?f)"
      using extract_ret [OF w Suc.prems(3,4)] by blast
    have sp: "cval (cstr ''   '') = lit ''   ''" "length (cstr ''   '') < 1000"
      by (simp add: cval_cstr of_char_def) (simp add: cstr_def)
    have "print_name nm x (cstr ''   '') s =
        Inr (shown (field_text (filename ?f) @ lit ''.'' @ field_text (ext ?f) @ lit ''   '') s)"
      using print_name_eq [OF nx(4,6) terminated_cstr [of "''   ''"]] nx(2,3,5,7) sp by simp
    with True i nx(1) is_file_first [OF True] Suc.IH [OF _ Suc.prems(2) nx(2,3), of "Suc i"] Suc.prems(1)
    show ?thesis unfolding d by (simp add: is_file_def)
  qed
qed simp

text \<open>\<open>list_files\<close> shows the names and extensions of the files among the entries it is given; that a deleted entry or a free
  one is no file was decided by \<open>get_entry_type\<close> before, so the branches for them are never taken.\<close>

theorem list_files_correct:
  assumes "unat (bs_root_dir_entries s) \<le> length files" "\<forall>f\<in>set files. entry_wf f \<and> (is_file f \<longrightarrow> names_ok f)"
    and "length (junk_name e) = 9" "length (junk_ext e) = 4"
  shows "list_files e files s = ret (shown (listed_text (take (unat (bs_root_dir_entries s)) files) @ [13, 10]) s)"
proof -
  have "printk crlf s' = Inr (shown [13, 10] s')" for s'
    using printk_lit [of "[13, 10]" s'] by (simp add: crlf_def)
  with list_files_loop_eq [of 0 _ files "junk_name e" "junk_ext e" s] assms show ?thesis by (simp add: list_files_def)
qed

section \<open>The tables as a whole\<close>

text \<open>\<open>read_root_dir\<close> reads the whole directory; \<open>read_fat\<close> only as many bytes as the tables have sectors.\<close>

theorem read_root_dir_correct:
  assumes "env_ok e" "disk_ok e 1" "drive_ready s"
    and "readable (unat (root_directory_start (s_pos s))) (32 * unat (bs_root_dir_entries s))" "32 * unat (bs_root_dir_entries s) \<le> length b"
  shows "read_root_dir e b s = ret (disk_bytes e 1 (floppy_pos (unat (root_directory_start (s_pos s)))) (32 * unat (bs_root_dir_entries s))
      @ drop (32 * unat (bs_root_dir_entries s)) b, seek_state (root_directory_start (s_pos s)) (32 * ucast (bs_root_dir_entries s)) s)"
proof -
  have u: "unat (ucast (bs_root_dir_entries s) :: u32) = unat (bs_root_dir_entries s)"
    using unat_lt_u16 [of "bs_root_dir_entries s"] unfolding ucast_u16_of_nat by (intro unat_u32_of_nat) simp
  have "unat (32 * ucast (bs_root_dir_entries s) :: u32) = 32 * unat (bs_root_dir_entries s)"
    using unat_lt_u16 [of "bs_root_dir_entries s"] u by (subst unat_u32_mult) simp_all
  with seek_read_4 [OF assms(1-3), of "root_directory_start (s_pos s)" "32 * ucast (bs_root_dir_entries s)" b] assms(4,5)
  show ?thesis by (simp add: read_root_dir_def)
qed

theorem read_fat_short:
  assumes "env_ok e" "disk_ok e 1" "drive_ready s" "unat (bs_number_of_fats s) = 2" "unat (bs_fat_size_sectors s) = 9"
    and "unat (fat_section_start (s_pos s)) = 512" "length b = 9216"
  shows "read_fat e b s = ret (disk_bytes e 1 512 18 @ drop 18 b, seek_state (fat_section_start (s_pos s)) 18 s)"
proof -
  have "readable 512 18" "floppy_pos 512 = 512" by (simp_all add: readable_def floppy_pos_def chs_slip_def)
  moreover have "(ucast (bs_number_of_fats s) * ucast (bs_fat_size_sectors s) :: u32) = 18"
    unfolding ucast_u16_of_nat ucast_byte_of_nat assms(4,5) by simp
  ultimately show ?thesis
    using seek_read_4 [OF assms(1-3), of "fat_section_start (s_pos s)" 18 b] assms(6,7) by (simp add: read_fat_def)
qed

end
