(* ===== verification/Hazards.thy ===== *)
theory Hazards
  imports Session_Theorems
begin

text \<open>
  Beyond eight nested programs, and the saved timer vector: where the kernel's own bookkeeping goes wrong.
\<close>

section \<open>A ninth program\<close>

text \<open>With every segment taken \<open>get_free_seg\<close> returns its uninitialised variable, and \<open>run_program\<close> gives
  that segment back.\<close>

lemma load_missing_full:
  assumes t: "tables v 8 8 8 s" and m: "mounted e es n s" and name: "terminated name" and f: "program_entry e n s name = None"
  obtains nm s' where "load e name pid s = ret (1, pid, junk_seg e, nm, s')" "length nm = length name" "dir_step (scan_text n) s s'"
proof -
  have seg: "get_free_seg (junk_seg e) (seg_arr s) = (junk_seg e, seg_arr s)"
    using t by (intro get_free_seg_full) (simp add: tables_def NUM_SEG_def)
  obtain nm where nm: "stoupper name = Inr nm" "terminated nm" "cval nm = map upper_byte (cval name)" "length nm = length name"
    using stoupper_name [OF name] .
  obtain s2 files where s2: "get_root_files e (map entry_of (junk_entries e)) s = ret (files, s2)" "dir_step (scan_text n) s s2"
      and search: "\<And>g. get_file e files nm g s2 = ret (case program_entry e n s name of None \<Rightarrow> (-1, g) | Some f \<Rightarrow> (0, f))"
    by (rule directory_search [OF m nm(2,3)]) (rule that)
  have found: "get_file e files nm g s2 = ret (-1, g)" for g using search f by simp
  have "load e name pid s = ret (1, pid, junk_seg e, nm, s2)"
    unfolding load_def seg Let_def case_prod_conv using s2(1) nm(1) found by simp
  with nm(4) s2(2) show thesis by (intro that)
qed

lemma full_run_frees_live_eq:
  assumes t: "tables v 8 8 8 s" and m: "mounted e es n s" and p: "terminated (params s)" "program_entry e n s (params s) = None"
    and i: "i < 10" "junk_seg e = seg_base i"
  shows "\<exists>s'. dispatch farcall e 7 s = ret s' \<and> procs_busy s' = {..<8} \<and> segs_busy (seg_arr s') = {..<10} - {i}"
proof -
  obtain nm s1 where s1: "load e (params s) (junk_pid e) s = ret (1, junk_pid e, seg_base i, nm, s1)" "length nm = length (params s)" "dir_step (scan_text n) s s1"
    using load_missing_full [OF t m p, of "junk_pid e"] i(2) by auto
  have l: "length nm = 576" using s1(2) tables_params_length [OF t] by simp
  have same: "processes s1 = processes s" "seg_arr s1 = seg_arr s" "running_proc s1 = 8"
    using s1(3) t by (simp_all add: dir_step_def tables_def)
  have wf: "segs_wf (seg_arr s)" "segs_busy (seg_arr s) = {..<10}" "length (processes s) = 9" "procs_busy s = {..<8}"
    using t by (simp_all add: tables_def kinv_def procs_wf_def NUM_PROCESSES_def)
  define arr where "arr = (seg_arr s)[i := (seg_arr s ! i)\<lparr>seg_used := 0\<rparr>]"
  have arr: "snd (release_seg (seg_base i) (seg_arr s)) = arr" "segs_busy arr = {..<10} - {i}"
    using release_seg_known [OF wf(1), of i] segs_busy_update [OF wf(1), of i] wf(2) i(1) by (auto simp: arr_def NUM_SEG_def)
  let ?b = "bytes32 1 @ drop 4 nm"
  let ?s3 = "s1\<lparr>params := ?b, seg_arr := arr\<rparr>"
  have "run_program farcall e (params s) place_params s = ret (1, s1\<lparr>params := nm, seg_arr := arr\<rparr>)"
    by (simp add: run_program_def run_enter_def s1(1) run_exit_def place_params_def same arr(1))
  moreover have "put_params 0 (bytes32 (word_of_int 1)) (s1\<lparr>params := nm, seg_arr := arr\<rparr>) = Inr ?s3"
    using l by (simp add: put_params_def store_def)
  moreover have "set_running_proc 8 ?s3 = Inr (?s3\<lparr>processes := (processes s)[7 := (processes s ! 7)\<lparr>p_state := RUNNING\<rparr>], running_proc := 8\<rparr>)" (is "_ = Inr ?s'")
    using same wf(3) by (simp add: set_running_proc_def upd_proc_def NUM_PROCESSES_def)
  moreover have "get_running_proc s = 8" using t by (simp add: get_running_proc_def tables_def)
  ultimately have "dispatch farcall e 7 s = ret ?s'" by (simp add: dispatch_def Let_def)
  moreover have "procs_busy ?s' = procs_busy s"
    using wf(3) by (auto simp: procs_busy_def nth_list_update)
  ultimately show ?thesis using arr(2) wf(4) by simp
qed

text \<open>C26: when eight programs are nested and the innermost one asks for a program that is not there, the call gives
  back the segment that an uninitialised variable of \<open>load\<close> names: with the right garbage, a segment in which one
  of the eight still runs.\<close>

theorem full_run_frees_live:
  assumes "tables v 8 8 8 s" "mounted e es n s" "terminated (params s)" "program_entry e n s (params s) = None"
    and "i < 10" "junk_seg e = seg_base i"
  shows "\<exists>s'. dispatch farcall e 7 s = ret s' \<and> procs_busy s' = {..<8} \<and> segs_busy (seg_arr s') = {..<10} - {i}"
  using assms by (rule full_run_frees_live_eq)

lemma boot_nested: "1 \<le> k \<Longrightarrow> k \<le> 8 \<Longrightarrow> \<exists>v s. tables v k k (int k) s \<and> boot_volume s"
proof (induction k rule: nat_induct_at_least)
  case base
  obtain v s where "tables v 1 1 1 s" "boot_volume s" by (rule boot_one)
  then show ?case by fastforce
next
  case (Suc k)
  then obtain v s where "tables v k k (int k) s" "boot_volume s" "k < 8" by auto
  from boot_runs_next [OF this(2,1,3)] show ?case by (metis of_nat_Suc add.commute)
qed

lemma junk_seg_irrelevant:
  "mounted (e\<lparr>junk_seg := j\<rparr>) es n s = mounted e es n s" "program_entry (e\<lparr>junk_seg := j\<rparr>) n s name = program_entry e n s name"
proof -
  have d: "disk_sector (e\<lparr>junk_seg := j\<rparr>) = disk_sector e" by (simp add: fun_eq_iff disk_sector_def)
  then have b: "disk_byte (e\<lparr>junk_seg := j\<rparr>) = disk_byte e" by (simp add: fun_eq_iff disk_byte_def)
  then have c: "disk_bytes (e\<lparr>junk_seg := j\<rparr>) = disk_bytes e" by (simp add: fun_eq_iff disk_bytes_def)
  then have en: "dir_entry (e\<lparr>junk_seg := j\<rparr>) s = dir_entry e s" by (simp add: fun_eq_iff dir_entry_def)
  then show "program_entry (e\<lparr>junk_seg := j\<rparr>) n s name = program_entry e n s name"
    by (simp add: program_entry_def volume_entries_def)
  show "mounted (e\<lparr>junk_seg := j\<rparr>) es n s = mounted e es n s"
    by (simp add: mounted_def vol_ok_def dir_ok_def en env_ok_def disk_ok_def fat_at_def b c)
qed

theorem full_run_frees_live_witness:
  "\<exists>s s'. dispatch (\<lambda>_ _. None) (boot_env\<lparr>junk_seg := seg_base 4\<rparr>) 7 s = ret s' \<and> procs_busy s = {..<8} \<and> p_cs (processes s ! 2) = seg_base 4
    \<and> procs_busy s' = {..<8} \<and> segs_busy (seg_arr s') = {..<10} - {4}"
proof -
  obtain v s where s: "tables v 8 8 8 s" "boot_volume s" using boot_nested [of 8] by auto
  let ?s = "s\<lparr>params := missing_block\<rparr>" and ?e = "boot_env\<lparr>junk_seg := seg_base 4\<rparr>"
  have b: "length missing_block = 576" by (simp add: missing_block_def cstr_def)
  have e: "missing_block = lit ''shell'' @ 0 # replicate 570 7" unfolding missing_block_def cstr_def by simp
  have c: "terminated missing_block" "cval missing_block = lit ''shell''"
    unfolding e by (rule terminated_append_NUL, rule cval_append_NUL) (simp add: of_char_def)
  have t: "tables v 8 8 8 ?s" using tables_params [OF s(1) b] .
  have v: "boot_volume ?s" by (rule on_volume_tables [OF s(2,1) t])
  have none: "program_entry ?e 224 ?s (params ?s) = None"
    unfolding junk_seg_irrelevant by (rule boot_no_program [OF v]) (simp add: c(2) of_char_def upper_byte_def)
  have "mounted ?e two_clusters 224 ?s" unfolding junk_seg_irrelevant by (rule boot_mounted [OF v])
  from full_run_frees_live [OF t this _ none, of 4 "\<lambda>_ _. None"] c(1)
  obtain s' where "dispatch (\<lambda>_ _. None) ?e 7 ?s = ret s'" "procs_busy s' = {..<8}" "segs_busy (seg_arr s') = {..<10} - {4}" by auto
  moreover have "procs_busy ?s = {..<8}" "p_cs (processes ?s ! 2) = seg_base 4" using t by (simp_all add: tables_def entry_ok_def)
  ultimately show ?thesis by blast
qed

section \<open>The saved timer vector\<close>

text \<open>The second store of \<open>save_oldint8\<close> is four bytes wide and covers the variable of the offset.\<close>

lemma save_oldint8_loses_offset:
  assumes "length (old_int8 s) = 6"
  shows "\<exists>b. save_oldint8 s = Inr (s\<lparr>old_int8 := b\<rparr>) \<and> le16 (take 2 b) = peek16 0x22 s \<and> le16 (take 2 (drop 2 b)) = 0"
proof -
  have h: "ucast (drop_bit 16 (ucast (w :: u16) :: u32)) = (0 :: byte)" "ucast (drop_bit 24 (ucast w :: u32)) = (0 :: byte)" for w
    by (rule bit_word_eqI, auto simp: bit_simps dest: bit_imp_le_length)+
  have l: "ucast (ucast (w :: u16) :: u32) = (ucast w :: byte)" "ucast (drop_bit 8 (ucast w :: u32)) = (ucast (drop_bit 8 w) :: byte)" for w
    by (rule bit_word_eqI, auto simp: bit_simps)+
  obtain a0 a1 a2 a3 a4 a5 where "old_int8 s = [a0, a1, a2, a3, a4, a5]"
    using assms by (auto simp: length_Suc_conv numeral_eq_Suc)
  then show ?thesis
    using le16_bytes16 [of "peek16 0x22 s"]
    by (intro exI [of _ "bytes16 (peek16 0x22 s) @ replicate 4 0"])
      (simp add: save_oldint8_def Let_def store_def bytes32_def h l bytes16_def, simp add: le16_def numeral_eq_Suc)
qed

end
