(* ===== verification/Spec2Isabelle.thy ===== *)
theory Spec2Isabelle
  imports Live_System Call_Block Direct_Calls Fat_Print Hazards
begin

text \<open>
  RML is a small real-mode operating system for the PC: a kernel that mounts a FAT12 floppy, loads
  programs into 64K segments and serves their system calls, a library with which programs make them, and a
  shell with a few programs.  This development models the C code under src/ and proves what its parts
  deliver, alone and together, and where they do not do what they are meant to do.

  How the parts interact.  \<open>startk\<close> (kernel/kernel.c) prepares the tables, mounts the volume in drive 1
  (\<open>read_boot_sector\<close>, fs/msdos/fs.c) and runs \<open>init\<close> again and again.  \<open>run_program\<close> takes a segment (mm/mm.c), finds
  the file in the root directory, loads its cluster chain through the kernel's own \<open>read\<close> on the floppy
  (kernel/kernio.c over the BIOS wrappers of kernel/bios.c), takes a slot of the process table
  (kernel/sched.c) and calls the program.  The program makes system calls by interrupt 80h: a block of 576 bytes is
  copied to the kernel, \<open>dispatch\<close> serves the call, and the block is copied back.  System call 7 runs a program, so
  \<open>dispatch\<close> and the programs call each other; a program is the argument \<open>farcall\<close> of the kernel's definitions,
  and the kernel with \<open>farcall\<close> is what the library's definitions call.

  The data path, kernel side:

  \<^item> \<open>RML_Prelude\<close>: machine types of the build (32-bit \<open>int\<close>, signed 8-bit \<open>char\<close>), outcomes of C code
    (\<open>'a res\<close>: a fault or a value; \<open>'a run\<close>: additionally no return at all) and their postconditions, byte
    buffers, little-endian fields.
  \<^item> \<open>CString\<close>: lib/string.c, lib/ctype.c, lib/utils.c on byte buffers.
  \<^item> \<open>Numbers\<close>: \<open>uitoa\<close> of kernel/kernio.c, \<open>itoa\<close> and \<open>ultoa\<close> of lib/stdlib.c.
  \<^item> \<open>Slots\<close>: the contract of a table of slots (first free slot, give back), interpreted by
    \<open>Segments\<close> (mm/mm.c) and \<open>Process_Table\<close> (kernel/sched.c).
  \<^item> \<open>Floppy\<close>: \<open>lba_to_chs\<close> of kernel/kernio.c against the geometry of a 1.44 MB floppy.
  \<^item> \<open>Kernel_State\<close>: the environment (BIOS, clock, contents of uninitialised memory), the kernel's
    global variables as one record, kernel/bios.c, file tables.
  \<^item> \<open>Kern_IO\<close>: \<open>open\<close>, \<open>close\<close>, \<open>lseek\<close>, \<open>read\<close>, \<open>write\<close>, \<open>printk\<close> of kernel/kernio.c;
    \<open>Disk_Access\<close>: what they deliver, on which positions \<open>read\<close> is right, and where it is not.
  \<^item> \<open>Fat_Entry\<close>, \<open>Fat_Volume\<close>, \<open>Fat_Dir\<close>: fs/msdos/fs.c: directory entries, boot sector, clusters and
    the FAT12 chain, the root directory, each against the layout on the disk.  Clusters and directory entries are taken from
    their own places on the disk, not from where the code looks for them: \<open>read\<close> confuses the last sectors of the tracks
    (property C35), so what starts in one of them (\<open>in_place\<close> excludes it) is outside these properties.  \<open>Fat_Print\<close>: what
    \<open>print_file\<close> and \<open>list_files\<close> show.

  The running system:

  \<^item> \<open>Kernel\<close>: kernel/kernel.c with \<open>mount\<close> and \<open>get_process_list\<close>; \<open>Kernel_Frame\<close>: the invariant \<open>kinv\<close> of the
    kernel's variables and what each operation leaves alone (\<open>kept A\<close>: of the memory, everything outside \<open>A\<close>).
  \<^item> \<open>Sessions\<close>: the steps of the running system (start of a program, its return, system calls, stores of a
    program to memory) as a relation, its reachable states and their invariant: \<open>tables v n m r s\<close> says that \<open>n\<close> slots and
    \<open>m\<close> segments of programs are taken, \<open>r\<close> runs, and the volume is described by \<open>v\<close>; \<open>dispatch\<close> and
    \<open>run_program\<close> are shown to run by these steps.  A program may store everywhere above the kernel's segment; a store into the
    kernel's own variables is no step.  A call that leaves the kernel's objects (a fault of the model) has no step either: which
    calls those are is said in \<open>Service_Calls\<close>, from the parameter block alone.
  \<^item> \<open>Session_Stack\<close>: the abstract specification of all this, a stack of named programs on which running pushes and
    returning pops, and that the kernel's tables implement it for every history; whose memory a step may change.
  \<^item> \<open>Running\<close>: loading and entering a program of a mounted volume, and what it takes from the keyboard and adds to the
    screen (\<open>progress\<close>: the characters added, all of them); \<open>Boot\<close>: start-up, and concrete machines with the files of a list on their disk;
    \<open>Session_Theorems\<close>: the properties of the running system; \<open>Hazards\<close>: beyond eight programs.  The loop of \<open>startk\<close> has no exit:
    what it does is stated of \<open>startk_turns\<close>, any number of its turns.

  Programs:

  \<^item> \<open>User_Library\<close>: arch/8088/kernel/io.c, lib/stdio.c and \<open>system\<close> of lib/stdlib.c over \<open>dispatch\<close>;
    \<open>User_Text\<close>: \<open>printf\<close> against the text its format describes.
  \<^item> \<open>Call_Block\<close>: the block as the structures of include/sysdef.h, and the stubs as calls of the kernel's functions.
  \<^item> \<open>Programs\<close>: utils/shell.c, utils/ls.c, utils/ps.c, utils/demo.c, src/init/init.c; \<open>Program_Sessions\<close>: the locale
    \<open>stepping_programs\<close> (programs act by steps), interpreted by \<open>world\<close>, the repository's programs running one
    another: whatever they do is a run of those steps.
  \<^item> \<open>Shell_Line\<close>, \<open>Shell_Commands\<close>: the line editor, sessions, unknown commands; \<open>Ls_Listing\<close>: from the disk's
    directory to the lines of \<open>ls\<close>; \<open>Reports\<close>: the output of system calls 8 and 15.
  \<^item> \<open>Served_Lines\<close>: a program run from the caller's side, who has been entered by what name (\<open>roster\<close>), the shell's own
    commands, and the locale \<open>shell_answers\<close>, in which the shell's loop is proved once for whatever lines are answered;
    \<open>Live_Runs\<close>: what each program shows when it is run by name, with the programs it runs in turn (\<open>run_answer\<close>), and
    that \<open>world\<close> on a volume that holds the programs shows that, which gives the locale's contract at every depth.
  \<^item> \<open>Live_System\<close>: the whole machine: the kernel starts \<open>init\<close>, \<open>init\<close> the shell, the shell the programs, shells
    among them, and after every session the kernel starts \<open>init\<close> anew, with the state it has reached after as many turns of
    its loop; two such sessions on a concrete disk.
  \<^item> \<open>Direct_Calls\<close>: functions without a caller: the library's direct BIOS calls, \<open>load_program\<close>, \<open>uname\<close>.

  Bounds and fuel. At most eight programs are nested (ten segments, two of them the system's); run calls made by
  the eighth, those that find no program included, fall outside \<open>reachable\<close> and
  \<open>history\<close> and are treated in \<open>Hazards\<close>. Loops that may not end (the padding of
  \<open>strncpy\<close>, \<open>read\<close>, cluster chains, the shell, \<open>startk\<close>) are partial
  functions whose value \<open>None\<close> is no return. The depth of \<open>world\<close> bounds only how
  often programs run programs: safety holds for every depth, and in \<open>Live_System\<close> the depth has to
  be that of the nesting of the sessions typed, of which eight is the most; four is enough for those of its disk
  (\<open>init\<close>, a shell, a shell in it, a program).

  Not modelled.  Assembly (boot sector, entry code, program headers): its effect, copying the block and switching
  stacks, is in \<open>user_syscall\<close> and \<open>farcall\<close>; the stack slots of the entry code, which are ten, are not.  The drivers are
  empty files.  What a program's uninitialised memory holds, what the BIOS answers, the keys typed, and which program a
  segment with a file's image runs (\<open>prog_at\<close>) are arguments.  In \<open>Live_System\<close> a session's lines are the shell's own
  commands, names of the volume's programs and names of nothing, with these exceptions: \<open>reboot\<close>, which leaves the
  program; \<open>date\<close> on a clock whose registers are not decimals; \<open>ccc\<close>, \<open>ls\<close> and a missing
  name with a percent sign in what is printed, which \<open>printf\<close> takes for a format; \<open>ps\<close> with sizes of seven digits or more, which overrun the kernel's number
  buffer; and whatever would run a ninth program.
\<close>

end
